(* ===== verification/Docker_Prelude.thy ===== *)
theory Docker_Prelude
  imports Main "HOL-Library.Finite_Map" "HOL-Library.Sublist" "HOL-Library.Multiset"
begin

text \<open>
  The shared vocabulary of the development.

  Go strings are byte sequences, so they are \<^typ>\<open>string\<close> (a list of 8-bit characters).
  A Go map is a partial function where the code only looks keys up, stores and deletes,
  and a finite map where the code also asks for its length or ranges over it.
  A call that returns \<^verbatim>\<open>(value, error)\<close> is a value of the sum type \<open>'e + 'a\<close>, the
  error on the left.  A Go pointer to a shared, mutated object is an address of an
  explicit heap (\<open>loc\<close>), a map from addresses to records.

  The collections \<open>step_simps\<close> and \<open>inv_defs\<close> gather, per component, the equations
  that unfold one operation and the definitions of the invariants.
\<close>

named_theorems step_simps \<open>equations that unfold one operation of a component\<close>
named_theorems inv_defs \<open>definitions of the component invariants\<close>

type_synonym loc = nat
type_synonym bytes = string

subsection \<open>Slices and maps\<close>

definition slice_get :: "('k \<rightharpoonup> 'v list) \<Rightarrow> 'k \<Rightarrow> 'v list" where
  "slice_get m k = (case m k of None \<Rightarrow> [] | Some vs \<Rightarrow> vs)"

lemma slice_get_simps [simp]:
  "m k = None \<Longrightarrow> slice_get m k = []"
  "m k = Some vs \<Longrightarrow> slice_get m k = vs"
  by (simp_all add: slice_get_def)

lemma slice_get_upd [simp]:
  "slice_get (m(k \<mapsto> vs)) k' = (if k' = k then vs else slice_get m k')"
  "slice_get (m(k := None)) k' = (if k' = k then [] else slice_get m k')"
  by (simp_all add: slice_get_def)

lemma slice_get_empty [simp]: "slice_get Map.empty k = []"
  by (simp add: slice_get_def)

lemma map_upd_None_eq [simp]: "m k = None \<Longrightarrow> m(k := None) = m"
  by auto

subsection \<open>Searching in strings\<close>

fun indexOf :: "'a \<Rightarrow> 'a list \<Rightarrow> nat option" where
  "indexOf c [] = None"
| "indexOf c (x # xs) = (if x = c then Some 0 else map_option Suc (indexOf c xs))"

lemma indexOf_None_iff: "indexOf c xs = None \<longleftrightarrow> c \<notin> set xs"
  by (induction xs) auto

lemma indexOf_SomeD:
  assumes "indexOf c xs = Some i"
  shows "i < length xs" "xs ! i = c" "c \<notin> set (take i xs)"
    and "xs = take i xs @ c # drop (Suc i) xs"
  using assms by (induction xs arbitrary: i) (auto split: if_splits)

lemma indexOf_append_notin:
  "c \<notin> set xs \<Longrightarrow> indexOf c (xs @ c # ys) = Some (length xs)"
  by (induction xs) auto

lemma indexOf_SomeE:
  assumes "indexOf c xs = Some i"
  obtains ys zs where "xs = ys @ c # zs" "c \<notin> set ys" "i = length ys"
  using indexOf_SomeD [OF assms] that [of "take i xs" "drop (Suc i) xs"] by simp

lemma cut_first_unique:
  assumes "xs @ c # r = ys @ c # r'" and "c \<notin> set xs" and "c \<notin> set ys"
  shows "xs = ys" and "r = r'"
proof -
  have "takeWhile (\<lambda>x. x \<noteq> c) (xs @ c # r) = xs" "takeWhile (\<lambda>x. x \<noteq> c) (ys @ c # r') = ys"
    using assms(2,3) by (subst takeWhile_append2; auto)+
  with assms(1) show "xs = ys" by metis
  with assms(1) show "r = r'" by simp
qed

lemma cut_last_unique:
  assumes "xs @ c # r = ys @ c # r'" and "c \<notin> set r" and "c \<notin> set r'"
  shows "xs = ys" and "r = r'"
proof -
  have "rev r @ c # rev xs = rev r' @ c # rev ys"
    using arg_cong [OF assms(1), of rev] by simp
  from cut_first_unique [OF this] assms(2,3) show "xs = ys" "r = r'" by simp_all
qed

lemma cut_before_suffix:
  assumes "u @ c # v = h @ w" and "c \<notin> set w"
  obtains h' where "h = u @ c # h'" and "v = h' @ w"
proof -
  from assms(1) consider us where "u = h @ us" "us @ c # v = w" | us where "u @ us = h" "c # v = us @ w"
    by (auto simp: append_eq_append_conv2)
  then show thesis
  proof cases
    case 1
    with assms(2) show thesis by auto
  next
    case 2
    with assms(2) show thesis by (cases us) (auto intro: that)
  qed
qed

definition has_prefix :: "'a list \<Rightarrow> 'a list \<Rightarrow> bool" where
  "has_prefix s p \<longleftrightarrow> take (length p) s = p"

lemma has_prefix_iff: "has_prefix s p \<longleftrightarrow> (\<exists>r. s = p @ r)"
  unfolding has_prefix_def
  by (metis append_eq_conv_conj append_take_drop_id)

lemma has_prefix_append [simp]: "has_prefix (p @ r) p"
  by (simp add: has_prefix_def)

lemma has_prefix_Cons [simp]:
  "has_prefix s []" "\<not> has_prefix [] (y # ys)" "has_prefix (x # xs) (y # ys) \<longleftrightarrow> x = y \<and> has_prefix xs ys"
  by (auto simp: has_prefix_def)

subsection \<open>Short identifiers\<close>

text \<open>\<^verbatim>\<open>src/pkg/stringid/stringid.go\<close>, for messages and default names.\<close>

definition shortLen :: nat where
  "shortLen = 12"

definition TruncateID :: "string \<Rightarrow> string" where
  "TruncateID i =
     (let i' = (case indexOf CHR '':'' i of None \<Rightarrow> i | Some j \<Rightarrow> drop (Suc j) i)
      in take (if length i' < shortLen then length i' else shortLen) i')"

end
