(* ===== verification/Registrar.thy ===== *)
theory Registrar
  imports Docker_Prelude
begin

text \<open>
  \<^verbatim>\<open>src/pkg/registrar/registrar.go\<close>: the index that reserves a name to a key (the
  daemon's container names).  The state keeps the reservations twice, by name and by
  key; \<open>reg_inv\<close> says that the two views agree, and the locale \<open>name_index\<close> states
  what a client may rely on: the index behaves as one partial function from names to keys.
\<close>

section \<open>State and operations\<close>

datatype reg_error = ErrNameReserved | ErrNameNotReserved | ErrNoSuchKey

record Registrar =
  idx :: "string \<rightharpoonup> string list"
  names :: "string \<rightharpoonup> string"

definition NewRegistrar :: Registrar where
  "NewRegistrar = \<lparr>idx = Map.empty, names = Map.empty\<rparr>"

definition Registrar_Reserve ::
    "Registrar \<Rightarrow> string \<Rightarrow> string \<Rightarrow> reg_error option \<times> Registrar" where
  "Registrar_Reserve r name key =
     (case names r name of
        Some k \<Rightarrow> (if k \<noteq> key then (Some ErrNameReserved, r) else (None, r))
      | None \<Rightarrow>
          (None, r\<lparr>idx := (idx r)(key \<mapsto> slice_get (idx r) key @ [name]),
                   names := (names r)(name \<mapsto> key)\<rparr>))"

text \<open>The loop of \<open>Release\<close>: cut the first occurrence of the name out of the slice.\<close>

fun cut_name :: "string \<Rightarrow> string list \<Rightarrow> string list" where
  "cut_name name [] = []"
| "cut_name name (n # ns) = (if n \<noteq> name then n # cut_name name ns else ns)"

definition Registrar_Release :: "Registrar \<Rightarrow> string \<Rightarrow> Registrar" where
  "Registrar_Release r name =
     (case names r name of
        None \<Rightarrow> r
      | Some key \<Rightarrow>
          (let ns = slice_get (idx r) key;
               idx' = (if name \<in> set ns then (idx r)(key \<mapsto> cut_name name ns) else idx r)
           in r\<lparr>idx := (if slice_get idx' key = [] then idx'(key := None) else idx'),
                names := (names r)(name := None)\<rparr>))"

definition Registrar_Delete :: "Registrar \<Rightarrow> string \<Rightarrow> Registrar" where
  "Registrar_Delete r key =
     r\<lparr>names := fold (\<lambda>name m. m(name := None)) (slice_get (idx r) key) (names r),
       idx := (idx r)(key := None)\<rparr>"

definition Registrar_GetNames :: "Registrar \<Rightarrow> string \<Rightarrow> reg_error + string list" where
  "Registrar_GetNames r key =
     (case idx r key of None \<Rightarrow> Inl ErrNoSuchKey | Some ns \<Rightarrow> Inr ns)"

definition Registrar_Get :: "Registrar \<Rightarrow> string \<Rightarrow> reg_error + string" where
  "Registrar_Get r name =
     (case names r name of None \<Rightarrow> Inl ErrNameNotReserved | Some key \<Rightarrow> Inr key)"

definition Registrar_GetAll :: "Registrar \<Rightarrow> string \<rightharpoonup> string list" where
  "Registrar_GetAll r = idx r"

lemmas [step_simps] =
  NewRegistrar_def Registrar_Reserve_def Registrar_Release_def Registrar_Delete_def
  Registrar_GetNames_def Registrar_Get_def Registrar_GetAll_def

section \<open>The two views agree\<close>

definition reg_inv :: "Registrar \<Rightarrow> bool" where
  "reg_inv r \<longleftrightarrow>
     (\<forall>name key. names r name = Some key \<longleftrightarrow> name \<in> set (slice_get (idx r) key)) \<and>
     (\<forall>key. distinct (slice_get (idx r) key)) \<and>
     (\<forall>key. idx r key \<noteq> Some [])"

lemma reg_invD:
  assumes "reg_inv r"
  shows "names r name = Some key \<longleftrightarrow> name \<in> set (slice_get (idx r) key)"
    and "distinct (slice_get (idx r) key)"
    and "idx r key \<noteq> Some []"
  using assms by (auto simp: reg_inv_def)

lemma reg_inv_owner:
  "reg_inv r \<Longrightarrow> name \<in> set (slice_get (idx r) k) \<Longrightarrow> name \<in> set (slice_get (idx r) k') \<Longrightarrow> k = k'"
  by (metis option.inject reg_invD(1))

lemma set_cut_name: "distinct ns \<Longrightarrow> set (cut_name name ns) = set ns - {name}"
  by (induction ns) auto

lemma distinct_cut_name: "distinct ns \<Longrightarrow> distinct (cut_name name ns)"
  by (induction ns) (auto simp: set_cut_name)

lemma fold_clear:
  "fold (\<lambda>name m. m(name := None)) ns m = (\<lambda>n. if n \<in> set ns then None else m n)"
  by (induction ns arbitrary: m) (auto simp: fun_eq_iff)

lemma NewRegistrar_inv: "reg_inv NewRegistrar"
  by (simp add: reg_inv_def NewRegistrar_def)

lemma Reserve_inv:
  assumes inv: "reg_inv r"
  shows "reg_inv (snd (Registrar_Reserve r name key))"
proof (cases "names r name")
  case None
  then have "\<And>k. name \<notin> set (slice_get (idx r) k)"
    using reg_invD(1) [OF inv] by (metis option.distinct(1))
  with None inv show ?thesis
    by (auto simp: reg_inv_def Registrar_Reserve_def)
next
  case (Some k)
  with inv show ?thesis by (simp add: Registrar_Reserve_def)
qed

lemma Release_eq:
  assumes inv: "reg_inv r" and n: "names r name = Some key"
  shows "Registrar_Release r name =
    r\<lparr>idx := (if cut_name name (slice_get (idx r) key) = [] then (idx r)(key := None)
              else (idx r)(key \<mapsto> cut_name name (slice_get (idx r) key))),
      names := (names r)(name := None)\<rparr>"
  using n reg_invD(1) [OF inv, of name key] by (simp add: Registrar_Release_def Let_def)

lemma Release_inv:
  assumes inv: "reg_inv r"
  shows "reg_inv (Registrar_Release r name)"
proof (cases "names r name")
  case None
  with inv show ?thesis by (simp add: Registrar_Release_def)
next
  case (Some key)
  let ?cut = "cut_name name (slice_get (idx r) key)"
  have cut: "set ?cut = set (slice_get (idx r) key) - {name}" "distinct ?cut"
    using reg_invD(2) [OF inv] by (simp_all add: set_cut_name distinct_cut_name)
  have slice: "slice_get (idx (Registrar_Release r name)) k =
      (if k = key then ?cut else slice_get (idx r) k)" for k
    using Release_eq [OF inv Some] by auto
  have "idx (Registrar_Release r name) k \<noteq> Some []" for k
    using Release_eq [OF inv Some] reg_invD(3) [OF inv, of k] by auto
  moreover have "names (Registrar_Release r name) = (names r)(name := None)"
    by (simp add: Release_eq [OF inv Some])
  then have "names (Registrar_Release r name) n = Some k \<longleftrightarrow>
      n \<in> set (slice_get (idx (Registrar_Release r name)) k)" for n k
    unfolding slice using Some cut(1) reg_invD(1) [OF inv, of n k] reg_invD(1) [OF inv, of name k]
    by auto
  moreover have "distinct (slice_get (idx (Registrar_Release r name)) k)" for k
    using cut(2) reg_invD(2) [OF inv] by (simp add: slice)
  ultimately show ?thesis by (auto simp: reg_inv_def)
qed

lemma Delete_names:
  "reg_inv r \<Longrightarrow> names (Registrar_Delete r key) n = (if names r n = Some key then None else names r n)"
  using reg_invD(1) [of r n key] by (auto simp: Registrar_Delete_def fold_clear)

lemma Delete_inv:
  assumes inv: "reg_inv r"
  shows "reg_inv (Registrar_Delete r key)"
  using inv Delete_names [OF inv, of key] reg_inv_owner [OF inv]
  by (auto simp: reg_inv_def Registrar_Delete_def fold_clear)

section \<open>The interface\<close>

locale name_index =
  fixes new :: "'s"
    and reserve :: "'s \<Rightarrow> 'n \<Rightarrow> 'k \<Rightarrow> 'e option \<times> 's"
    and release :: "'s \<Rightarrow> 'n \<Rightarrow> 's"
    and delete :: "'s \<Rightarrow> 'k \<Rightarrow> 's"
    and owner :: "'s \<Rightarrow> 'n \<rightharpoonup> 'k"
    and taken :: "'e"
    and inv :: "'s \<Rightarrow> bool"
  assumes new_inv: "inv new"
    and owner_new: "owner new = Map.empty"
    and reserve_inv: "inv s \<Longrightarrow> inv (snd (reserve s n k))"
    and release_inv: "inv s \<Longrightarrow> inv (release s n)"
    and delete_inv: "inv s \<Longrightarrow> inv (delete s k)"
    and reserve_free: "inv s \<Longrightarrow> owner s n = None \<Longrightarrow>
        fst (reserve s n k) = None \<and> owner (snd (reserve s n k)) = (owner s)(n \<mapsto> k)"
    and reserve_taken: "inv s \<Longrightarrow> owner s n = Some k' \<Longrightarrow>
        reserve s n k = ((if k' = k then None else Some taken), s)"
    and owner_release: "inv s \<Longrightarrow> owner (release s n) = (owner s)(n := None)"
    and owner_delete: "inv s \<Longrightarrow>
        owner (delete s k) = (\<lambda>n. if owner s n = Some k then None else owner s n)"
begin

lemma reserve_result:
  assumes "inv s"
  shows "fst (reserve s n k) = None \<longleftrightarrow> owner s n = None \<or> owner s n = Some k"
    and "fst (reserve s n k) = None \<Longrightarrow> owner (snd (reserve s n k)) = (owner s)(n \<mapsto> k)"
    and "fst (reserve s n k) \<noteq> None \<Longrightarrow> reserve s n k = (Some taken, s)"
proof -
  show "fst (reserve s n k) = None \<longleftrightarrow> owner s n = None \<or> owner s n = Some k"
    using assms reserve_free reserve_taken by (cases "owner s n") auto
  show "owner (snd (reserve s n k)) = (owner s)(n \<mapsto> k)" if "fst (reserve s n k) = None"
    using assms that reserve_free reserve_taken by (cases "owner s n") (auto split: if_splits)
  show "reserve s n k = (Some taken, s)" if "fst (reserve s n k) \<noteq> None"
    using assms that reserve_free reserve_taken by (cases "owner s n") auto
qed

lemma reserve_idem:
  assumes "inv s" and "fst (reserve s n k) = None"
  shows "reserve (snd (reserve s n k)) n k = (None, snd (reserve s n k))"
  using assms reserve_inv [OF assms(1), of n k] reserve_result(2) [OF assms]
  by (simp add: reserve_taken)

lemma reserve_exclusive:
  assumes "inv s" and "fst (reserve s n k) = None" and "k' \<noteq> k"
  shows "reserve (snd (reserve s n k)) n k' = (Some taken, snd (reserve s n k))"
  using assms reserve_inv [OF assms(1), of n k] reserve_result(2) [OF assms(1,2)]
  by (simp add: reserve_taken)

lemma release_frees:
  "inv s \<Longrightarrow> fst (reserve (release s n) n k) = None"
  using reserve_free [OF release_inv] by (simp add: owner_release)

lemma delete_frees:
  assumes "inv s" and "owner s n = Some k"
  shows "fst (reserve (delete s k) n k') = None"
  using assms reserve_free [OF delete_inv, of s k n k'] by (simp add: owner_delete)

end

interpretation reg: name_index NewRegistrar Registrar_Reserve Registrar_Release Registrar_Delete
  names ErrNameReserved reg_inv
proof (unfold_locales, goal_cases)
  case 1
  show ?case by (rule NewRegistrar_inv)
next
  case 2
  show ?case by (simp add: NewRegistrar_def)
next
  case (3 s n k)
  then show ?case by (rule Reserve_inv)
next
  case (4 s n)
  then show ?case by (rule Release_inv)
next
  case (5 s k)
  then show ?case by (rule Delete_inv)
next
  case (6 s n k)
  then show ?case by (simp add: Registrar_Reserve_def)
next
  case (7 s n k' k)
  then show ?case by (simp add: Registrar_Reserve_def)
next
  case (8 s n)
  then show ?case by (cases "names s n") (simp_all add: Registrar_Release_def Let_def)
next
  case (9 s k)
  then show ?case by (simp add: Delete_names fun_eq_iff)
qed

section \<open>Every history of calls\<close>

datatype reg_call = CallReserve string string | CallRelease string | CallDelete string

fun reg_exec :: "Registrar \<Rightarrow> reg_call \<Rightarrow> Registrar" where
  "reg_exec r (CallReserve name key) = snd (Registrar_Reserve r name key)"
| "reg_exec r (CallRelease name) = Registrar_Release r name"
| "reg_exec r (CallDelete key) = Registrar_Delete r key"

definition reg_history :: "reg_call list \<Rightarrow> Registrar" where
  "reg_history cs = foldl reg_exec NewRegistrar cs"

lemma reg_exec_inv: "reg_inv r \<Longrightarrow> reg_inv (reg_exec r c)"
  by (cases c) (simp_all add: reg.reserve_inv reg.release_inv reg.delete_inv)

lemma reg_history_inv: "reg_inv (reg_history cs)"
proof -
  have "reg_inv r \<Longrightarrow> reg_inv (foldl reg_exec r cs)" for r
    by (induction cs arbitrary: r) (simp_all add: reg_exec_inv)
  then show ?thesis by (simp add: reg_history_def reg.new_inv)
qed

text \<open>
  C21: after any sequence of Reserve, Release and Delete calls the two indexes of the
  registrar agree: Get returns a key for a name exactly when GetNames lists that name
  under that key, and GetNames lists no name twice and never returns an empty list.
\<close>

theorem registrar_views_agree:
  fixes cs :: "reg_call list"
  defines "r \<equiv> reg_history cs"
  shows "(Registrar_Get r name = Inr key \<longleftrightarrow>
           (case Registrar_GetNames r key of Inl e \<Rightarrow> False | Inr ns \<Rightarrow> name \<in> set ns)) \<and>
         (case Registrar_GetNames r key of
            Inl e \<Rightarrow> e = ErrNoSuchKey
          | Inr ns \<Rightarrow> distinct ns \<and> ns \<noteq> [])"
proof -
  have inv: "reg_inv r" unfolding r_def by (rule reg_history_inv)
  have "Registrar_Get r name = Inr key \<longleftrightarrow>
      (case Registrar_GetNames r key of Inl e \<Rightarrow> False | Inr ns \<Rightarrow> name \<in> set ns)"
    using reg_invD(1) [OF inv, of name key]
    by (cases "idx r key"; cases "names r name")
      (simp_all add: Registrar_Get_def Registrar_GetNames_def)
  moreover have "case Registrar_GetNames r key of
      Inl e \<Rightarrow> e = ErrNoSuchKey | Inr ns \<Rightarrow> distinct ns \<and> ns \<noteq> []"
    using reg_invD(2,3) [OF inv, of key]
    by (cases "idx r key") (auto simp: Registrar_GetNames_def)
  ultimately show ?thesis ..
qed

text \<open>
  A reservation is exclusive until it is given back: after any history, when Reserve
  accepts a name for a key, the same Reserve again is accepted and changes nothing,
  Reserve of that name for any other key fails with ErrNameReserved and changes nothing,
  and after Release of the name, or Delete of its key, any key can reserve it.
\<close>

lemma registrar_exclusive:
  assumes "Registrar_Reserve (reg_history cs) name key = (None, r)" and "other \<noteq> key"
  shows "Registrar_Reserve r name key = (None, r) \<and>
         Registrar_Reserve r name other = (Some ErrNameReserved, r) \<and>
         fst (Registrar_Reserve (Registrar_Release r name) name other) = None \<and>
         fst (Registrar_Reserve (Registrar_Delete r key) name other) = None"
proof -
  note inv = reg_history_inv [of cs]
  have acc: "fst (Registrar_Reserve (reg_history cs) name key) = None"
    and r: "r = snd (Registrar_Reserve (reg_history cs) name key)"
    using assms(1) by simp_all
  have inv': "reg_inv r" unfolding r by (rule reg.reserve_inv [OF inv])
  have "Registrar_Reserve r name key = (None, r)"
    unfolding r by (rule reg.reserve_idem [OF inv acc])
  moreover have "Registrar_Reserve r name other = (Some ErrNameReserved, r)"
    unfolding r by (rule reg.reserve_exclusive [OF inv acc assms(2)])
  moreover have "names r name = Some key"
    using reg.reserve_result(2) [OF inv acc] by (simp add: r)
  then have "fst (Registrar_Reserve (Registrar_Delete r key) name other) = None"
    by (rule reg.delete_frees [OF inv'])
  ultimately show ?thesis using reg.release_frees [OF inv'] by blast
qed

end
