(* ===== verification/Daemon_Names.thy ===== *)
theory Daemon_Names
  imports Registrar
begin

text \<open>
  \<^verbatim>\<open>src/daemon/names.go\<close> (how the daemon picks and reserves container names, a client of
  the registrar) with \<^verbatim>\<open>src/utils/names.go\<close> and \<open>TruncateID\<close> of
  \<^verbatim>\<open>src/pkg/stringid/stringid.go\<close>, and the link index of \<^verbatim>\<open>src/daemon/links.go\<close>.
  The random candidates of \<^verbatim>\<open>namesgenerator.GetRandomName(i)\<close> are an argument: every
  function from the retry counter to a name.
\<close>

section \<open>Container names\<close>

datatype names_error =
    InvalidContainerName string
  | NameConflict string string
  | NameReserveError string reg_error
  | NameLookupError reg_error
  | NameIndexPanic

definition name_start_char :: "char \<Rightarrow> bool" where
  "name_start_char c \<longleftrightarrow>
     c \<in> set ''abcdefghijklmnopqrstuvwxyzABCDEFGHIJKLMNOPQRSTUVWXYZ0123456789''"

definition name_char :: "char \<Rightarrow> bool" where
  "name_char c \<longleftrightarrow> name_start_char c \<or> c \<in> set ''_.-''"

text \<open>\<^verbatim>\<open>^/?[a-zA-Z0-9][a-zA-Z0-9_.-]+$\<close>\<close>

definition RestrictedNamePattern :: "string \<Rightarrow> bool" where
  "RestrictedNamePattern s =
     (case (case s of CHR ''/'' # t \<Rightarrow> t | _ \<Rightarrow> s) of
        [] \<Rightarrow> False
      | c # cs \<Rightarrow> name_start_char c \<and> cs \<noteq> [] \<and> list_all name_char cs)"

text \<open>\<^verbatim>\<open>if name[0] != '/' { name = "/" + name }\<close>; indexing an empty string panics.\<close>

definition addSlash :: "string \<Rightarrow> names_error + string" where
  "addSlash name =
     (case name of
        [] \<Rightarrow> Inl NameIndexPanic
      | c # _ \<Rightarrow> Inr (if c \<noteq> CHR ''/'' then CHR ''/'' # name else name))"

definition Daemon_reserveName ::
    "Registrar \<Rightarrow> string \<Rightarrow> string \<Rightarrow> (names_error + string) \<times> Registrar" where
  "Daemon_reserveName r cid name =
     (if \<not> RestrictedNamePattern name then (Inl (InvalidContainerName name), r)
      else case addSlash name of
        Inl e \<Rightarrow> (Inl e, r)
      | Inr name' \<Rightarrow>
          (case Registrar_Reserve r name' cid of
             (None, r') \<Rightarrow> (Inr name', r')
           | (Some ErrNameReserved, r') \<Rightarrow>
               (case Registrar_Get r' name' of
                  Inl e \<Rightarrow> (Inl (NameLookupError e), r')
                | Inr other \<Rightarrow> (Inl (NameConflict name' other), r'))
           | (Some e, r') \<Rightarrow> (Inl (NameReserveError name' e), r')))"

definition Daemon_releaseName :: "Registrar \<Rightarrow> string \<Rightarrow> Registrar" where
  "Daemon_releaseName r name = Registrar_Release r name"

text \<open>The loop of \<open>generateNewName\<close> over the retry counters still to try.\<close>

fun generateLoop ::
    "(nat \<Rightarrow> string) \<Rightarrow> string \<Rightarrow> nat list \<Rightarrow> Registrar \<Rightarrow> (names_error + string) option \<times> Registrar" where
  "generateLoop gen cid [] r = (None, r)"
| "generateLoop gen cid (i # ks) r =
     (case addSlash (gen i) of
        Inl e \<Rightarrow> (Some (Inl e), r)
      | Inr name \<Rightarrow>
          (case Registrar_Reserve r name cid of
             (None, r') \<Rightarrow> (Some (Inr name), r')
           | (Some ErrNameReserved, r') \<Rightarrow> generateLoop gen cid ks r'
           | (Some e, r') \<Rightarrow> (Some (Inl (NameReserveError name e)), r')))"

definition Daemon_generateNewName ::
    "(nat \<Rightarrow> string) \<Rightarrow> string \<Rightarrow> Registrar \<Rightarrow> (names_error + string) \<times> Registrar" where
  "Daemon_generateNewName gen cid r =
     (case generateLoop gen cid [0..<6] r of
        (Some res, r') \<Rightarrow> (res, r')
      | (None, r') \<Rightarrow>
          (let name = CHR ''/'' # TruncateID cid
           in case Registrar_Reserve r' name cid of
                (None, r'') \<Rightarrow> (Inr name, r'')
              | (Some e, r'') \<Rightarrow> (Inl (NameReserveError name e), r'')))"

definition Daemon_generateIDAndName ::
    "(nat \<Rightarrow> string) \<Rightarrow> string \<Rightarrow> string \<Rightarrow> Registrar \<Rightarrow> (names_error + string \<times> string) \<times> Registrar" where
  "Daemon_generateIDAndName gen cid name r =
     (if name = '''' then
        (case Daemon_generateNewName gen cid r of
           (Inl e, r') \<Rightarrow> (Inl e, r') | (Inr n, r') \<Rightarrow> (Inr (cid, n), r'))
      else
        (case Daemon_reserveName r cid name of
           (Inl e, r') \<Rightarrow> (Inl e, r') | (Inr n, r') \<Rightarrow> (Inr (cid, n), r')))"

lemmas [step_simps] = Daemon_reserveName_def Daemon_releaseName_def
  Daemon_generateNewName_def Daemon_generateIDAndName_def

section \<open>The link index\<close>

record linkIndex =
  link_idx :: "loc \<Rightarrow> (string \<rightharpoonup> loc) option"
  childIdx :: "loc \<Rightarrow> (loc \<Rightarrow> string set option) option"

definition newLinkIndex :: linkIndex where
  "newLinkIndex = \<lparr>link_idx = Map.empty, childIdx = Map.empty\<rparr>"

text \<open>Reading a missing inner map gives the nil map, which has no entries.\<close>

definition inner :: "('a \<Rightarrow> ('b \<rightharpoonup> 'c) option) \<Rightarrow> 'a \<Rightarrow> 'b \<rightharpoonup> 'c" where
  "inner m k = (case m k of None \<Rightarrow> Map.empty | Some f \<Rightarrow> f)"

text \<open>\<^verbatim>\<open>delete(m[k], x)\<close>: nothing happens on a missing inner map.\<close>

definition inner_del :: "('a \<Rightarrow> ('b \<rightharpoonup> 'c) option) \<Rightarrow> 'a \<Rightarrow> 'b \<Rightarrow> 'a \<Rightarrow> ('b \<rightharpoonup> 'c) option" where
  "inner_del m k x = (case m k of None \<Rightarrow> m | Some f \<Rightarrow> m(k \<mapsto> f(x := None)))"

definition linkIndex_link :: "linkIndex \<Rightarrow> loc \<Rightarrow> loc \<Rightarrow> string \<Rightarrow> linkIndex" where
  "linkIndex_link l parent child alias =
     (let ps = inner (childIdx l) child;
          as = (case ps parent of None \<Rightarrow> {} | Some as \<Rightarrow> as)
      in l\<lparr>link_idx := (link_idx l)(parent \<mapsto> (inner (link_idx l) parent)(alias \<mapsto> child)),
           childIdx := (childIdx l)(child \<mapsto> ps(parent \<mapsto> insert alias as))\<rparr>)"

definition linkIndex_unlink :: "linkIndex \<Rightarrow> string \<Rightarrow> loc \<Rightarrow> loc \<Rightarrow> linkIndex" where
  "linkIndex_unlink l alias child parent =
     l\<lparr>link_idx := inner_del (link_idx l) parent alias,
       childIdx := inner_del (childIdx l) child parent\<rparr>"

definition linkIndex_children :: "linkIndex \<Rightarrow> loc \<Rightarrow> string \<rightharpoonup> loc" where
  "linkIndex_children l parent = inner (link_idx l) parent"

text \<open>
  \<open>parents\<close> ranges over a map of parents; the order in which Go visits them is an
  argument, and a later parent with the same alias overwrites an earlier one.
\<close>

definition linkIndex_parents :: "loc list \<Rightarrow> linkIndex \<Rightarrow> loc \<Rightarrow> string \<rightharpoonup> loc" where
  "linkIndex_parents order l child =
     fold (\<lambda>parent m alias.
             case inner (childIdx l) child parent of
               None \<Rightarrow> m alias
             | Some as \<Rightarrow> if alias \<in> as then Some parent else m alias)
          order Map.empty"

text \<open>The loop ranges over the children of the container; deletions commute.\<close>

definition linkIndex_delete :: "linkIndex \<Rightarrow> loc \<Rightarrow> linkIndex" where
  "linkIndex_delete l container =
     (let cs = ran (inner (link_idx l) container);
          childIdx' = (\<lambda>c. if c \<in> cs then map_option (\<lambda>f. f(container := None)) (childIdx l c)
                           else childIdx l c)
      in l\<lparr>link_idx := (link_idx l)(container := None),
           childIdx := childIdx'(container := None)\<rparr>)"

section \<open>What name reservation guarantees\<close>

lemma addSlash_Inr: "addSlash name = Inr n \<Longrightarrow> \<exists>t. n = CHR ''/'' # t"
  by (auto simp: addSlash_def split: list.splits if_splits)

lemma generateLoop_panic:
  "generateLoop gen cid ks r = (Some (Inl NameIndexPanic), r') \<Longrightarrow>
     \<exists>i \<in> set ks. addSlash (gen i) = Inl NameIndexPanic"
  by (induction gen cid ks r rule: generateLoop.induct)
    (auto split: sum.splits prod.splits option.splits reg_error.splits)

lemma generateLoop_spec:
  assumes "reg_inv r" and "generateLoop gen cid ks r = (res, r')"
  shows "(case res of
            Some (Inr n) \<Rightarrow> reg_inv r' \<and> names r' = (names r)(n \<mapsto> cid) \<and>
              (names r n = None \<or> names r n = Some cid) \<and> (\<exists>i \<in> set ks. addSlash (gen i) = Inr n)
          | Some (Inl e) \<Rightarrow> r' = r \<and> e = NameIndexPanic
          | None \<Rightarrow> r' = r \<and> (\<forall>i \<in> set ks. \<exists>n k. addSlash (gen i) = Inr n \<and> names r n = Some k \<and> k \<noteq> cid))"
  using assms
proof (induction ks arbitrary: r res r')
  case Nil
  then show ?case by auto
next
  case (Cons i ks)
  show ?case
  proof (cases "addSlash (gen i)")
    case (Inl e)
    then show ?thesis
      using Cons.prems by (auto simp: addSlash_def split: list.splits)
  next
    case (Inr n)
    show ?thesis
    proof (cases "fst (Registrar_Reserve r n cid) = None")
      case True
      then have "res = Some (Inr n)" "r' = snd (Registrar_Reserve r n cid)"
        using Cons.prems(2) Inr by (auto split: prod.splits)
      with True Inr Cons.prems(1) show ?thesis
        using reg.reserve_result [OF Cons.prems(1), of n cid] reg.reserve_inv [OF Cons.prems(1)]
        by auto
    next
      case False
      then have R: "Registrar_Reserve r n cid = (Some ErrNameReserved, r)"
        by (rule reg.reserve_result(3) [OF Cons.prems(1)])
      moreover obtain k where "names r n = Some k" "k \<noteq> cid"
        using False reg.reserve_result(1) [OF Cons.prems(1), of n cid] by (cases "names r n") auto
      moreover have "generateLoop gen cid ks r = (res, r')"
        using Cons.prems(2) Inr R by simp
      note Cons.IH [OF Cons.prems(1) this]
      ultimately show ?thesis
        using Inr by (auto split: option.splits sum.splits)
    qed
  qed
qed

lemma reserveName_spec:
  assumes inv: "reg_inv r" and res: "Daemon_reserveName r cid name = (res, r')"
  shows "case res of
           Inr n \<Rightarrow> reg_inv r' \<and> names r' = (names r)(n \<mapsto> cid) \<and>
             (names r n = None \<or> names r n = Some cid) \<and>
             RestrictedNamePattern name \<and> addSlash name = Inr n
         | Inl (NameConflict n other) \<Rightarrow> r' = r \<and> names r n = Some other \<and> other \<noteq> cid \<and>
             addSlash name = Inr n
         | Inl e \<Rightarrow> r' = r \<and> e = InvalidContainerName name \<and> \<not> RestrictedNamePattern name"
proof (cases "RestrictedNamePattern name")
  case False
  with res show ?thesis by (auto simp: Daemon_reserveName_def)
next
  case True
  then obtain n where n: "addSlash name = Inr n"
    by (cases name) (auto simp: RestrictedNamePattern_def addSlash_def split: if_splits)
  show ?thesis
  proof (cases "fst (Registrar_Reserve r n cid) = None")
    case ok: True
    then have "res = Inr n" and "r' = snd (Registrar_Reserve r n cid)"
      using res True n by (simp_all add: Daemon_reserveName_def split: prod.splits)
    with ok True n show ?thesis
      using reg.reserve_result [OF inv, of n cid] reg.reserve_inv [OF inv] by simp
  next
    case False
    then obtain k where "names r n = Some k" "k \<noteq> cid"
      using reg.reserve_result(1) [OF inv, of n cid] by (cases "names r n") auto
    with reg.reserve_result(3) [OF inv False] True n res show ?thesis
      by (auto simp: Daemon_reserveName_def Registrar_Get_def)
  qed
qed

lemma generateNewName_spec:
  assumes inv: "reg_inv r" and gen: "\<And>i. i < 6 \<Longrightarrow> gen i \<noteq> []"
    and res: "Daemon_generateNewName gen cid r = (res, r')"
  shows "case res of
           Inr n \<Rightarrow> names r' = (names r)(n \<mapsto> cid) \<and>
             names r n \<in> {None, Some cid} \<and> hd n = CHR ''/''
         | Inl e \<Rightarrow> r' = r \<and> names r (CHR ''/'' # TruncateID cid) \<notin> {None, Some cid} \<and>
             (\<forall>i < 6. \<exists>n. addSlash (gen i) = Inr n \<and> names r n \<notin> {None, Some cid})"
proof -
  obtain lres r1 where loop: "generateLoop gen cid [0..<6] r = (lres, r1)" by fastforce
  note spec = generateLoop_spec [OF inv loop]
  show ?thesis
  proof (cases lres)
    case (Some l)
    show ?thesis
    proof (cases l)
      case (Inl e)
      then obtain i where "i < 6" "addSlash (gen i) = Inl NameIndexPanic"
        using loop Some generateLoop_panic [of gen cid "[0..<6]" r r1] spec by auto
      then show ?thesis using gen [of i] by (auto simp: addSlash_def split: list.splits)
    next
      case (Inr n)
      then have "res = Inr n" "r' = r1"
        using res loop Some by (auto simp: Daemon_generateNewName_def)
      then show ?thesis using spec Some Inr addSlash_Inr by fastforce
    qed
  next
    case None
    let ?t = "CHR ''/'' # TruncateID cid"
    have r1: "r1 = r"
      and taken: "\<forall>i < 6. \<exists>n. addSlash (gen i) = Inr n \<and> names r n \<notin> {None, Some cid}"
      using spec None by fastforce+
    show ?thesis
    proof (cases "fst (Registrar_Reserve r ?t cid) = None")
      case True
      then have "res = Inr ?t" "r' = snd (Registrar_Reserve r ?t cid)"
        using res loop None r1 by (auto simp: Daemon_generateNewName_def Let_def split: prod.splits)
      then show ?thesis using reg.reserve_result [OF inv, of ?t cid] True by simp
    next
      case False
      from reg.reserve_result(3) [OF inv False]
      have "\<exists>e. res = Inl e" "r' = r"
        using res loop None r1 by (auto simp: Daemon_generateNewName_def Let_def)
      then show ?thesis using reg.reserve_result(1) [OF inv, of ?t cid] False taken by auto
    qed
  qed
qed

text \<open>
  C32: generateNewName over any history of the registrar and any source of non-empty
  candidate names.  When it returns a name, that name starts with a slash, was free or
  already the container's own, and is the only reservation that changed.  It fails only
  when all six candidates and the truncated id are held by other containers, and then no
  reservation changed.
\<close>

theorem generateNewName_correct:
  assumes "\<And>i. i < 6 \<Longrightarrow> gen i \<noteq> []"
    and "Daemon_generateNewName gen cid (reg_history cs) = (res, r')"
  shows "case res of
           Inr n \<Rightarrow> names r' = (names (reg_history cs))(n \<mapsto> cid) \<and>
             names (reg_history cs) n \<in> {None, Some cid} \<and> hd n = CHR ''/''
         | Inl e \<Rightarrow> r' = reg_history cs \<and>
             names (reg_history cs) (CHR ''/'' # TruncateID cid) \<notin> {None, Some cid} \<and>
             (\<forall>i < 6. \<exists>n. addSlash (gen i) = Inr n \<and> names (reg_history cs) n \<notin> {None, Some cid})"
  using reg_history_inv assms by (rule generateNewName_spec)

theorem generateNewName_correct_witness:
  "names (snd (Daemon_generateNewName (\<lambda>i. ''web'') ''c2'' (reg_history [CallReserve ''/web'' ''c1''])))
     ''/c2'' = Some ''c2''"
proof -
  let ?r = "reg_history [CallReserve ''/web'' ''c1'']"
  have r: "Daemon_generateNewName (\<lambda>i. ''web'') ''c2'' ?r =
      (Inr ''/c2'', snd (Daemon_generateNewName (\<lambda>i. ''web'') ''c2'' ?r))"
    by (simp add: Daemon_generateNewName_def reg_history_def NewRegistrar_def upt_rec
        Registrar_Reserve_def addSlash_def TruncateID_def shortLen_def Let_def)
  show ?thesis
    using generateNewName_correct [OF _ r] by simp
qed

section \<open>Links\<close>



end
