(* ===== verification/Regexp.thy ===== *)
theory Regexp
  imports Docker_Prelude
begin

text \<open>
  Regular expressions, for the patterns of \<^verbatim>\<open>src/vendor/src/github.com/docker/distribution\<close>
  and \<^verbatim>\<open>src/image/v1\<close>.  An anchored pattern is matched by derivatives; the matcher is shown
  to decide the language of the expression, so that proofs can work with languages.
\<close>

datatype re =
    Zero
  | One
  | Cls "char \<Rightarrow> bool"
  | Alt re re
  | Seq re re
  | Star re

section \<open>Languages\<close>

inductive_set star_lang :: "string set \<Rightarrow> string set" for L where
  star_Nil: "[] \<in> star_lang L"
| star_app: "u \<in> L \<Longrightarrow> v \<in> star_lang L \<Longrightarrow> u @ v \<in> star_lang L"

fun lang :: "re \<Rightarrow> string set" where
  "lang Zero = {}"
| "lang One = {[]}"
| "lang (Cls P) = {[c] |c. P c}"
| "lang (Alt r q) = lang r \<union> lang q"
| "lang (Seq r q) = {u @ v |u v. u \<in> lang r \<and> v \<in> lang q}"
| "lang (Star r) = star_lang (lang r)"

section \<open>The matcher\<close>

fun nullable :: "re \<Rightarrow> bool" where
  "nullable Zero = False"
| "nullable One = True"
| "nullable (Cls P) = False"
| "nullable (Alt r q) = (nullable r \<or> nullable q)"
| "nullable (Seq r q) = (nullable r \<and> nullable q)"
| "nullable (Star r) = True"

text \<open>Smart constructors keep derivatives small.\<close>

fun mkAlt :: "re \<Rightarrow> re \<Rightarrow> re" where
  "mkAlt Zero q = q"
| "mkAlt r Zero = r"
| "mkAlt r q = Alt r q"

fun mkSeq :: "re \<Rightarrow> re \<Rightarrow> re" where
  "mkSeq Zero q = Zero"
| "mkSeq r Zero = Zero"
| "mkSeq One q = q"
| "mkSeq r q = Seq r q"

fun deriv :: "char \<Rightarrow> re \<Rightarrow> re" where
  "deriv c Zero = Zero"
| "deriv c One = Zero"
| "deriv c (Cls P) = (if P c then One else Zero)"
| "deriv c (Alt r q) = mkAlt (deriv c r) (deriv c q)"
| "deriv c (Seq r q) =
     (if nullable r then mkAlt (mkSeq (deriv c r) q) (deriv c q) else mkSeq (deriv c r) q)"
| "deriv c (Star r) = mkSeq (deriv c r) (Star r)"

fun re_match :: "re \<Rightarrow> string \<Rightarrow> bool" where
  "re_match r [] = nullable r"
| "re_match r (c # cs) = re_match (deriv c r) cs"

lemma nullable_lang: "nullable r \<longleftrightarrow> [] \<in> lang r"
  by (induction r) (auto intro: star_lang.intros)

lemma lang_mkAlt [simp]: "lang (mkAlt r q) = lang r \<union> lang q"
  by (cases "(r, q)" rule: mkAlt.cases) auto

lemma lang_mkSeq [simp]: "lang (mkSeq r q) = {u @ v |u v. u \<in> lang r \<and> v \<in> lang q}"
  by (cases "(r, q)" rule: mkSeq.cases) auto

lemma star_lang_Cons:
  "c # w \<in> star_lang L \<longleftrightarrow> (\<exists>u v. w = u @ v \<and> c # u \<in> L \<and> v \<in> star_lang L)"
proof
  have "\<exists>u v. w = u @ v \<and> c # u \<in> L \<and> v \<in> star_lang L" if "x \<in> star_lang L" "x = c # w" for x
    using that
  proof (induction)
    case (star_app u v)
    then show ?case by (cases u) auto
  qed simp
  then show "c # w \<in> star_lang L \<Longrightarrow> \<exists>u v. w = u @ v \<and> c # u \<in> L \<and> v \<in> star_lang L" by blast
  show "\<exists>u v. w = u @ v \<and> c # u \<in> L \<and> v \<in> star_lang L \<Longrightarrow> c # w \<in> star_lang L"
    by (metis star_lang.star_app append_Cons)
qed

lemma lang_deriv: "lang (deriv c r) = {w. c # w \<in> lang r}"
proof (induction r)
  case (Seq r q)
  have "c # w \<in> lang (Seq r q) \<longleftrightarrow>
      [] \<in> lang r \<and> c # w \<in> lang q \<or> (\<exists>u v. w = u @ v \<and> c # u \<in> lang r \<and> v \<in> lang q)" for w
    by (auto simp: Cons_eq_append_conv)
  with Seq show ?case by (auto simp: nullable_lang)
qed (auto simp: star_lang_Cons)

theorem re_match_lang: "re_match r s \<longleftrightarrow> s \<in> lang r"
  by (induction s arbitrary: r) (simp_all add: nullable_lang lang_deriv)

section \<open>The notation of Go patterns\<close>

definition Opt :: "re \<Rightarrow> re" where
  "Opt r = Alt r One"

definition Plus :: "re \<Rightarrow> re" where
  "Plus r = Seq r (Star r)"

definition Chr :: "char \<Rightarrow> re" where
  "Chr c = Cls (\<lambda>x. x = c)"

fun Rep :: "nat \<Rightarrow> re \<Rightarrow> re" where
  "Rep 0 r = One"
| "Rep (Suc n) r = Seq r (Rep n r)"

text \<open>Between 0 and \<open>n\<close> times.\<close>

fun UpTo :: "nat \<Rightarrow> re \<Rightarrow> re" where
  "UpTo 0 r = One"
| "UpTo (Suc n) r = Opt (Seq r (UpTo n r))"

lemma lang_Opt [simp]: "lang (Opt r) = insert [] (lang r)"
  by (auto simp: Opt_def)

lemma lang_Chr [simp]: "lang (Chr c) = {[c]}"
  by (auto simp: Chr_def)

lemma star_lang_Cls: "star_lang {[c] |c. P c} = {s. list_all P s}"
proof -
  have "list_all P s" if "s \<in> star_lang {[c] |c. P c}" for s
    using that by (induction rule: star_lang.induct) auto
  moreover have "list_all P s \<Longrightarrow> s \<in> star_lang {[c] |c. P c}" for s
  proof (induction s)
    case (Cons c s)
    then have "[c] @ s \<in> star_lang {[c] |c. P c}" by (intro star_lang.star_app) auto
    then show ?case by simp
  qed (rule star_lang.star_Nil)
  ultimately show ?thesis by blast
qed

lemma lang_Seq_Cls: "s \<in> lang (Seq (Cls P) r) \<longleftrightarrow> s \<noteq> [] \<and> P (hd s) \<and> tl s \<in> lang r"
proof
  assume "s \<noteq> [] \<and> P (hd s) \<and> tl s \<in> lang r"
  then have "s = [hd s] @ tl s" "[hd s] \<in> lang (Cls P)" "tl s \<in> lang r" by auto
  then show "s \<in> lang (Seq (Cls P) r)" unfolding lang.simps(5) by blast
qed auto

lemma lang_UpTo_Cls: "lang (UpTo n (Cls P)) = {s. length s \<le> n \<and> list_all P s}"
proof (induction n)
  case (Suc n)
  have "s \<in> lang (UpTo (Suc n) (Cls P)) \<longleftrightarrow> length s \<le> Suc n \<and> list_all P s" for s
    unfolding UpTo.simps lang_Opt insert_iff lang_Seq_Cls Suc.IH by (cases s) auto
  then show ?case by blast
qed auto

text \<open>Characters of the words of a language.\<close>

lemma star_lang_set: "w \<in> star_lang L \<Longrightarrow> (\<And>u. u \<in> L \<Longrightarrow> set u \<subseteq> A) \<Longrightarrow> set w \<subseteq> A"
  by (induction rule: star_lang.induct) auto

fun re_chars :: "re \<Rightarrow> char set" where
  "re_chars Zero = {}"
| "re_chars One = {}"
| "re_chars (Cls P) = {c. P c}"
| "re_chars (Alt r q) = re_chars r \<union> re_chars q"
| "re_chars (Seq r q) = re_chars r \<union> re_chars q"
| "re_chars (Star r) = re_chars r"

lemma lang_re_chars: "w \<in> lang r \<Longrightarrow> set w \<subseteq> re_chars r"
proof (induction r arbitrary: w)
  case (Seq r q)
  then show ?case by fastforce
next
  case (Star r)
  have "set w \<subseteq> re_chars r" by (rule star_lang_set [of w "lang r"]) (use Star in auto)
  then show ?case by simp
qed auto

lemma re_chars_derived [simp]:
  "re_chars (Opt r) = re_chars r" "re_chars (Plus r) = re_chars r" "re_chars (Chr c) = {c}"
  "re_chars (Rep (Suc n) r) = re_chars r" "re_chars (UpTo (Suc n) r) = re_chars r"
proof -
  show "re_chars (Opt r) = re_chars r" "re_chars (Plus r) = re_chars r" "re_chars (Chr c) = {c}"
    by (simp_all add: Opt_def Plus_def Chr_def)
  show "re_chars (Rep (Suc n) r) = re_chars r" by (induction n) auto
  show "re_chars (UpTo (Suc n) r) = re_chars r" by (induction n) (auto simp: Opt_def)
qed
end
