(* ===== verification/Image_Reference.thy ===== *)
theory Image_Reference
  imports Regexp
begin

text \<open>
  Image references: \<^verbatim>\<open>src/reference/reference.go\<close> on top of the grammar of
  \<^verbatim>\<open>src/vendor/src/github.com/docker/distribution/reference\<close> and
  \<^verbatim>\<open>src/vendor/src/github.com/docker/distribution/digest\<close>.

  The patterns are regular expressions of \<open>Regexp\<close>; the submatches of \<open>ReferenceRegexp\<close> are
  found by trying every way to cut the string, and shown to be unique, so that they do not
  depend on the priorities of the regular expression engine.  A value of the Go interface
  \<open>Named\<close> is one of the three implementations of \<open>reference.go\<close>.  \<open>strings.ToLower\<close> is
  modelled on ASCII; a name with other bytes is refused by the grammar in any case.
\<close>

section \<open>The grammar\<close>

definition lower :: string where "lower = ''abcdefghijklmnopqrstuvwxyz''"
definition upper :: string where "upper = ''ABCDEFGHIJKLMNOPQRSTUVWXYZ''"
definition digits :: string where "digits = ''0123456789''"
definition hexdigits :: string where "hexdigits = ''0123456789abcdefABCDEF''"

definition oneOf :: "string \<Rightarrow> re" where
  "oneOf s = Cls (\<lambda>c. c \<in> set s)"

definition alphaNumericRegexp :: re where
  "alphaNumericRegexp = Plus (oneOf (lower @ digits))"

definition separatorRegexp :: re where
  "separatorRegexp = Alt (oneOf ''._'') (Alt (Seq (Chr (CHR ''_'')) (Chr (CHR ''_''))) (Star (Chr (CHR ''-''))))"

definition nameComponentRegexp :: re where
  "nameComponentRegexp = Seq alphaNumericRegexp (Opt (Plus (Seq separatorRegexp alphaNumericRegexp)))"

definition hostnameComponentRegexp :: re where
  "hostnameComponentRegexp =
     Alt (oneOf (lower @ upper @ digits))
         (Seq (oneOf (lower @ upper @ digits))
              (Seq (Star (oneOf (lower @ upper @ digits @ ''-''))) (oneOf (lower @ upper @ digits))))"

definition hostnameRegexp :: re where
  "hostnameRegexp =
     Seq hostnameComponentRegexp
         (Seq (Opt (Plus (Seq (Chr (CHR ''.'')) hostnameComponentRegexp)))
              (Opt (Seq (Chr (CHR '':'')) (Plus (oneOf digits)))))"

definition TagRegexp :: re where
  "TagRegexp = Seq (oneOf (lower @ upper @ digits @ ''_'')) (UpTo 127 (oneOf (lower @ upper @ digits @ ''_.-'')))"

definition DigestRegexp :: re where
  "DigestRegexp =
     Seq (Seq (oneOf (lower @ upper)) (Star (oneOf (lower @ upper @ digits))))
         (Seq (Star (Seq (oneOf ''-_+.'') (Seq (oneOf (lower @ upper)) (Star (oneOf (lower @ upper @ digits))))))
              (Seq (Chr (CHR '':'')) (Seq (Rep 32 (oneOf hexdigits)) (Star (oneOf hexdigits)))))"

definition NameRegexp :: re where
  "NameRegexp =
     Seq (Opt (Seq hostnameRegexp (Chr (CHR ''/''))))
         (Seq nameComponentRegexp (Opt (Plus (Seq (Chr (CHR ''/'')) nameComponentRegexp))))"

section \<open>Submatches of the reference pattern\<close>

text \<open>Every way to read a rest of the input as an optional tag and an optional digest.\<close>

definition digest_tail :: "string \<Rightarrow> string list" where
  "digest_tail s = (case s of [] \<Rightarrow> [[]] | c # d \<Rightarrow> if c = CHR ''@'' \<and> d \<noteq> [] then [d] else [])"

definition tails :: "string \<Rightarrow> (string \<times> string) list" where
  "tails s =
     map (\<lambda>d. ([], d)) (digest_tail s) @
     (case s of
        [] \<Rightarrow> []
      | c # r \<Rightarrow>
          if c = CHR '':''
          then concat (map (\<lambda>j. map (\<lambda>d. (take j r, d)) (digest_tail (drop j r))) [1..<Suc (length r)])
          else [])"

definition submatches :: "string \<Rightarrow> (string \<times> string \<times> string) list" where
  "submatches s = concat (map (\<lambda>i. map (\<lambda>td. (take i s, td)) (tails (drop i s))) [0..<Suc (length s)])"

definition parts_match :: "string \<times> string \<times> string \<Rightarrow> bool" where
  "parts_match p = (case p of (n, t, d) \<Rightarrow>
     re_match NameRegexp n \<and> (t = [] \<or> re_match TagRegexp t) \<and> (d = [] \<or> re_match DigestRegexp d))"

definition FindStringSubmatch :: "string \<Rightarrow> (string \<times> string \<times> string) option" where
  "FindStringSubmatch s = (case filter parts_match (submatches s) of [] \<Rightarrow> None | p # _ \<Rightarrow> Some p)"

section \<open>Digests\<close>

datatype ref_error =
    ErrNameEmpty
  | ErrReferenceInvalidFormat
  | ErrNameTooLong
  | ErrTagInvalidFormat
  | ErrDigestInvalidFormat
  | ErrDigestInvalidLength
  | ErrDigestUnsupported
  | ErrParsing string
  | ErrNotLowercase
  | ErrHexName string

definition DigestRegexpAnchored :: re where
  "DigestRegexpAnchored = Seq (Plus (oneOf (lower @ upper @ digits @ ''-_+.''))) (Seq (Chr (CHR '':'')) (Plus (oneOf hexdigits)))"

definition Algorithm_Size :: "string \<Rightarrow> nat option" where
  "Algorithm_Size a =
     (if a = ''sha256'' then Some 32 else if a = ''sha384'' then Some 48
      else if a = ''sha512'' then Some 64 else None)"

definition Digest_Validate :: "string \<Rightarrow> ref_error option" where
  "Digest_Validate s =
     (if \<not> re_match DigestRegexpAnchored s then Some ErrDigestInvalidFormat
      else case indexOf (CHR '':'') s of
        None \<Rightarrow> Some ErrDigestInvalidFormat
      | Some i \<Rightarrow>
          if i + 1 = length s then Some ErrDigestInvalidFormat
          else case Algorithm_Size (take i s) of
            None \<Rightarrow> Some ErrDigestUnsupported
          | Some n \<Rightarrow> if n * 2 \<noteq> length (drop (i + 1) s) then Some ErrDigestInvalidLength else None)"

definition ParseDigest :: "string \<Rightarrow> ref_error + string" where
  "ParseDigest s = (case Digest_Validate s of Some e \<Rightarrow> Inl e | None \<Rightarrow> Inr s)"

section \<open>The parser of the distribution library\<close>

definition NameTotalLengthMax :: nat where
  "NameTotalLengthMax = 255"

text \<open>
  \<open>Parse\<close> and \<open>getBestReferenceType\<close>: the parts of a reference with a name, an absent part
  being the empty string.  The name matched by the pattern is never empty, so the case of a
  digest without a name does not arise.
\<close>

definition distParse :: "string \<Rightarrow> ref_error + string \<times> string \<times> string" where
  "distParse s =
     (case FindStringSubmatch s of
        None \<Rightarrow> Inl (if s = [] then ErrNameEmpty else ErrReferenceInvalidFormat)
      | Some (n, t, d) \<Rightarrow>
          if NameTotalLengthMax < length n then Inl ErrNameTooLong
          else if d \<noteq> [] then (case ParseDigest d of Inl e \<Rightarrow> Inl e | Inr dg \<Rightarrow> Inr (n, t, dg))
          else Inr (n, t, d))"

definition distWithName :: "string \<Rightarrow> ref_error + string" where
  "distWithName name =
     (if NameTotalLengthMax < length name then Inl ErrNameTooLong
      else if \<not> re_match NameRegexp name then Inl ErrReferenceInvalidFormat
      else Inr name)"

section \<open>References\<close>

datatype Named =
    NamedRef string
  | TaggedRef string string
  | CanonicalRef string string

fun Named_Name :: "Named \<Rightarrow> string" where
  "Named_Name (NamedRef n) = n"
| "Named_Name (TaggedRef n t) = n"
| "Named_Name (CanonicalRef n d) = n"

fun Named_String :: "Named \<Rightarrow> string" where
  "Named_String (NamedRef n) = n"
| "Named_String (TaggedRef n t) = n @ '':'' @ t"
| "Named_String (CanonicalRef n d) = n @ ''@'' @ d"

definition DefaultTag :: string where "DefaultTag = ''latest''"
definition DefaultHostname :: string where "DefaultHostname = ''docker.io''"
definition LegacyDefaultHostname :: string where "LegacyDefaultHostname = ''index.docker.io''"
definition DefaultRepoPrefix :: string where "DefaultRepoPrefix = ''library/''"

definition ValidateID :: "string \<Rightarrow> bool" where
  "ValidateID s \<longleftrightarrow> length s = 64 \<and> list_all (\<lambda>c. c \<in> set ''abcdef0123456789'') s"

definition splitHostname :: "string \<Rightarrow> string \<times> string" where
  "splitHostname name =
     (let (hostname, remoteName) =
            (case indexOf (CHR ''/'') name of
               None \<Rightarrow> (DefaultHostname, name)
             | Some i \<Rightarrow>
                 if \<not> list_ex (\<lambda>c. c \<in> set ''.:'') (take i name) \<and> take i name \<noteq> ''localhost''
                 then (DefaultHostname, name)
                 else (take i name, drop (i + 1) name));
          hostname = (if hostname = LegacyDefaultHostname then DefaultHostname else hostname)
      in (hostname,
          if hostname = DefaultHostname \<and> CHR ''/'' \<notin> set remoteName then DefaultRepoPrefix @ remoteName
          else remoteName))"

definition isLowercase :: "string \<Rightarrow> bool" where
  "isLowercase s \<longleftrightarrow> list_all (\<lambda>c. c \<notin> set upper) s"

definition normalize :: "string \<Rightarrow> ref_error + string" where
  "normalize name =
     (let (host, remoteName) = splitHostname name
      in if \<not> isLowercase remoteName then Inl ErrNotLowercase
         else if host = DefaultHostname then
           (if has_prefix remoteName DefaultRepoPrefix then Inr (drop (length DefaultRepoPrefix) remoteName)
            else Inr remoteName)
         else Inr name)"

definition validateName :: "string \<Rightarrow> ref_error option" where
  "validateName name = (if ValidateID name then Some (ErrHexName name) else None)"

definition WithName :: "string \<Rightarrow> ref_error + Named" where
  "WithName name =
     (case normalize name of
        Inl e \<Rightarrow> Inl e
      | Inr n \<Rightarrow>
          (case validateName n of
             Some e \<Rightarrow> Inl e
           | None \<Rightarrow> (case distWithName n of Inl e \<Rightarrow> Inl e | Inr r \<Rightarrow> Inr (NamedRef r))))"

definition WithTag :: "Named \<Rightarrow> string \<Rightarrow> ref_error + Named" where
  "WithTag r tag =
     (if \<not> re_match TagRegexp tag then Inl ErrTagInvalidFormat else Inr (TaggedRef (Named_Name r) tag))"

definition WithDigest :: "Named \<Rightarrow> string \<Rightarrow> ref_error + Named" where
  "WithDigest r d =
     (if \<not> re_match DigestRegexp d then Inl ErrDigestInvalidFormat else Inr (CanonicalRef (Named_Name r) d))"

definition ParseNamed :: "string \<Rightarrow> ref_error + Named" where
  "ParseNamed s =
     (case distParse s of
        Inl _ \<Rightarrow> Inl (ErrParsing s)
      | Inr (n, t, d) \<Rightarrow>
          (case WithName n of
             Inl e \<Rightarrow> Inl e
           | Inr r \<Rightarrow> if d \<noteq> [] then WithDigest r d else if t \<noteq> [] then WithTag r t else Inr r))"

definition Named_FullName :: "Named \<Rightarrow> string" where
  "Named_FullName r = (case splitHostname (Named_Name r) of (h, n) \<Rightarrow> h @ ''/'' @ n)"

definition Named_Hostname :: "Named \<Rightarrow> string" where
  "Named_Hostname r = fst (splitHostname (Named_Name r))"

definition Named_RemoteName :: "Named \<Rightarrow> string" where
  "Named_RemoteName r = snd (splitHostname (Named_Name r))"

fun IsNameOnly :: "Named \<Rightarrow> bool" where
  "IsNameOnly (NamedRef n) = True"
| "IsNameOnly (TaggedRef n t) = False"
| "IsNameOnly (CanonicalRef n d) = False"

text \<open>The error of \<open>WithTag\<close> is ignored; \<open>latest\<close> is a valid tag (lemma \<open>WithTag_default\<close>).\<close>

definition WithDefaultTag :: "Named \<Rightarrow> Named" where
  "WithDefaultTag r = (if IsNameOnly r then (case WithTag r DefaultTag of Inr r' \<Rightarrow> r' | Inl _ \<Rightarrow> r) else r)"

definition ParseIDOrReference :: "string \<Rightarrow> string \<times> (ref_error + Named) option" where
  "ParseIDOrReference idOrRef =
     (let s = (if ValidateID idOrRef then ''sha256:'' @ idOrRef else idOrRef)
      in case ParseDigest s of
           Inr dgst \<Rightarrow> (dgst, None)
         | Inl _ \<Rightarrow> ([], Some (ParseNamed s)))"

section \<open>The languages of the patterns\<close>

lemma lang_oneOf [simp]: "lang (oneOf s) = {[c] |c. c \<in> set s}" "re_chars (oneOf s) = set s"
  by (simp_all add: oneOf_def)

lemma Tag_match: "re_match TagRegexp s \<longleftrightarrow>
    s \<noteq> [] \<and> hd s \<in> set (lower @ upper @ digits @ ''_'') \<and> length s \<le> 128 \<and>
    list_all (\<lambda>c. c \<in> set (lower @ upper @ digits @ ''_.-'')) (tl s)"
  unfolding re_match_lang TagRegexp_def oneOf_def lang_Seq_Cls lang_UpTo_Cls by (cases s) auto

lemma WithTag_default: "WithTag r DefaultTag = Inr (TaggedRef (Named_Name r) DefaultTag)"
  unfolding WithTag_def Tag_match by (simp add: DefaultTag_def lower_def)

lemma NameRegexp_chars:
  assumes "n \<in> lang NameRegexp"
  shows "CHR ''@'' \<notin> set n"
proof -
  have "set n \<subseteq> re_chars NameRegexp" by (rule lang_re_chars [OF assms])
  moreover have "CHR ''@'' \<notin> re_chars NameRegexp"
    by (simp add: NameRegexp_def hostnameRegexp_def hostnameComponentRegexp_def nameComponentRegexp_def
        separatorRegexp_def alphaNumericRegexp_def lower_def upper_def digits_def)
  ultimately show ?thesis by blast
qed

lemma DigestRegexp_chars: "d \<in> lang DigestRegexp \<Longrightarrow> CHR ''@'' \<notin> set d \<and> d \<noteq> []"
proof -
  assume d: "d \<in> lang DigestRegexp"
  have "set d \<subseteq> re_chars DigestRegexp" by (rule lang_re_chars [OF d])
  moreover have "CHR ''@'' \<notin> re_chars DigestRegexp"
    by (simp add: DigestRegexp_def lower_def upper_def digits_def hexdigits_def numeral_eq_Suc)
  ultimately have "CHR ''@'' \<notin> set d" by blast
  moreover have "d \<noteq> []" using d by (auto simp: DigestRegexp_def)
  ultimately show ?thesis by blast
qed

lemma TagRegexp_chars: "t \<in> lang TagRegexp \<Longrightarrow> set t \<inter> set '':/@'' = {} \<and> t \<noteq> []"
proof -
  assume t: "t \<in> lang TagRegexp"
  then have m: "t \<noteq> []" "hd t \<in> set (lower @ upper @ digits @ ''_'')"
    "set (tl t) \<subseteq> set (lower @ upper @ digits @ ''_.-'')"
    using Tag_match [of t] by (auto simp: re_match_lang list_all_iff)
  then have "set t \<subseteq> set (lower @ upper @ digits @ ''_.-'')" by (cases t) auto
  then show ?thesis using m(1) by (auto simp: lower_def upper_def digits_def)
qed

lemma component_no_colon: "CHR '':'' \<notin> re_chars nameComponentRegexp"
  by (simp add: nameComponentRegexp_def separatorRegexp_def alphaNumericRegexp_def lower_def digits_def)

text \<open>A colon inside a name belongs to a port number, so a slash follows.\<close>

lemma name_colon_slash:
  assumes "u @ CHR '':'' # v \<in> lang NameRegexp"
  shows "CHR ''/'' \<in> set v"
proof -
  obtain x y where xy: "u @ CHR '':'' # v = x @ y" and x: "x \<in> lang (Opt (Seq hostnameRegexp (Chr (CHR ''/''))))"
    and y: "y \<in> lang (Seq nameComponentRegexp (Opt (Plus (Seq (Chr (CHR ''/'')) nameComponentRegexp))))"
    using assms unfolding NameRegexp_def lang.simps(5) by blast
  have "set y \<subseteq> re_chars nameComponentRegexp \<union> {CHR ''/''}"
    using lang_re_chars [OF y] by (simp del: lang.simps)
  with component_no_colon have "CHR '':'' \<notin> set y" by auto
  moreover have "CHR '':'' \<in> set (x @ y)" unfolding xy [symmetric] by simp
  ultimately have "x \<noteq> []" by auto
  with x obtain h where h: "x = h @ [CHR ''/'']"
    unfolding lang_Opt lang.simps(5) lang_Chr by blast
  have "u @ CHR '':'' # v = h @ (CHR ''/'' # y)" using xy h by simp
  moreover have "CHR '':'' \<notin> set (CHR ''/'' # y)" using \<open>CHR '':'' \<notin> set y\<close> by simp
  ultimately obtain h' where "v = h' @ CHR ''/'' # y" by (rule cut_before_suffix)
  then show ?thesis by simp
qed

section \<open>Submatches are unique\<close>

definition tagPart :: "string \<Rightarrow> string" where
  "tagPart t = (if t = [] then [] else CHR '':'' # t)"

definition digestPart :: "string \<Rightarrow> string" where
  "digestPart d = (if d = [] then [] else CHR ''@'' # d)"

lemma digest_tail_iff: "d \<in> set (digest_tail s) \<longleftrightarrow> s = digestPart d"
  by (auto simp: digest_tail_def digestPart_def split: list.splits)

lemma tails_iff: "(t, d) \<in> set (tails s) \<longleftrightarrow> s = tagPart t @ digestPart d"
proof (cases "t = []")
  case True
  then show ?thesis
    by (auto simp: tails_def tagPart_def digest_tail_iff image_iff split: list.splits)
next
  case False
  have split: "(\<exists>j \<in> {1..<Suc (length r)}. t = take j r \<and> drop j r = digestPart d) \<longleftrightarrow> r = t @ digestPart d" for r
  proof
    assume r: "r = t @ digestPart d"
    moreover have "length t \<in> {1..<Suc (length r)}" using False r by (cases t) simp_all
    ultimately show "\<exists>j \<in> {1..<Suc (length r)}. t = take j r \<and> drop j r = digestPart d"
      by (intro bexI [of _ "length t"]) simp_all
  qed (metis append_take_drop_id)
  have "(t, d) \<in> set (concat (map (\<lambda>j. map (\<lambda>d. (take j r, d)) (digest_tail (drop j r))) [1..<Suc (length r)])) \<longleftrightarrow>
      (\<exists>j \<in> {1..<Suc (length r)}. t = take j r \<and> d \<in> set (digest_tail (drop j r)))" for r
    by (simp only: set_concat set_map set_upt image_image) (auto simp: image_iff)
  then show ?thesis
    using False split by (cases s) (simp_all add: tails_def tagPart_def digest_tail_iff image_iff)
qed

lemma submatches_iff: "(n, t, d) \<in> set (submatches s) \<longleftrightarrow> s = n @ tagPart t @ digestPart d"
proof
  assume "(n, t, d) \<in> set (submatches s)"
  then obtain i where "n = take i s" "(t, d) \<in> set (tails (drop i s))"
    by (auto simp: submatches_def simp del: upt_Suc)
  then show "s = n @ tagPart t @ digestPart d" unfolding tails_iff by (metis append_take_drop_id)
next
  assume s: "s = n @ tagPart t @ digestPart d"
  then have "(t, d) \<in> set (tails (drop (length n) s))" by (simp add: tails_iff)
  moreover have "length n \<in> {0..<Suc (length s)}" and "take (length n) s = n" using s by simp_all
  ultimately show "(n, t, d) \<in> set (submatches s)"
    unfolding submatches_def set_concat set_map set_upt image_image UN_iff by (intro bexI [of _ "length n"]) simp_all
qed
lemma parts_matchD:
  assumes "parts_match (n, t, d)"
  shows "n \<in> lang NameRegexp" "CHR ''@'' \<notin> set (n @ tagPart t)" "CHR ''@'' \<notin> set d"
    "CHR '':'' \<notin> set t" "CHR ''/'' \<notin> set t"
proof -
  have t: "t = [] \<or> t \<in> lang TagRegexp" and d: "d = [] \<or> d \<in> lang DigestRegexp"
    and n: "n \<in> lang NameRegexp" using assms by (simp_all add: parts_match_def re_match_lang)
  have "set t \<inter> set '':/@'' = {}" using t TagRegexp_chars by fastforce
  then show "CHR ''@'' \<notin> set (n @ tagPart t)" "CHR '':'' \<notin> set t" "CHR ''/'' \<notin> set t"
    using NameRegexp_chars [OF n] by (auto simp: tagPart_def)
  show "CHR ''@'' \<notin> set d" using d DigestRegexp_chars by auto
  show "n \<in> lang NameRegexp" by (rule n)
qed

lemma digestPart_cut:
  assumes "xs @ digestPart d = ys @ digestPart d'" and "CHR ''@'' \<notin> set xs" and "CHR ''@'' \<notin> set ys"
  shows "xs = ys \<and> d = d'"
proof -
  have "CHR ''@'' \<in> set (xs @ digestPart d) \<longleftrightarrow> d \<noteq> []" "CHR ''@'' \<in> set (ys @ digestPart d') \<longleftrightarrow> d' \<noteq> []"
    using assms(2,3) by (auto simp: digestPart_def)
  with assms(1) have "d = [] \<longleftrightarrow> d' = []" by metis
  then show ?thesis
    using assms cut_first_unique [of xs "CHR ''@''" d ys d'] by (auto simp: digestPart_def split: if_splits)
qed

lemma tagPart_cut:
  assumes "n @ tagPart t = n' @ tagPart t'" and "parts_match (n, t, d)" and "parts_match (n', t', d')"
  shows "n = n' \<and> t = t'"
proof -
  note p = parts_matchD [OF assms(2)] and p' = parts_matchD [OF assms(3)]
  consider "t = []" "t' = []" | "t \<noteq> []" "t' \<noteq> []" | "t = []" "t' \<noteq> []" | "t \<noteq> []" "t' = []" by blast
  then show ?thesis
  proof cases
    case 2
    with assms(1) have "n @ CHR '':'' # t = n' @ CHR '':'' # t'" by (simp add: tagPart_def)
    from cut_last_unique [OF this p(4) p'(4)] show ?thesis ..
  next
    case 3
    with assms(1) have "n = n' @ CHR '':'' # t'" by (simp add: tagPart_def)
    with p(1) name_colon_slash p'(5) show ?thesis by blast
  next
    case 4
    with assms(1) have "n' = n @ CHR '':'' # t" by (simp add: tagPart_def)
    with p'(1) name_colon_slash p(5) show ?thesis by blast
  qed (use assms(1) in \<open>simp add: tagPart_def\<close>)
qed

lemma submatch_unique:
  assumes "parts_match (n, t, d)" and "parts_match (n', t', d')"
    and "n @ tagPart t @ digestPart d = n' @ tagPart t' @ digestPart d'"
  shows "n = n' \<and> t = t' \<and> d = d'"
  using digestPart_cut [of "n @ tagPart t" d "n' @ tagPart t'" d'] assms(3)
    parts_matchD(2) [OF assms(1)] parts_matchD(2) [OF assms(2)] tagPart_cut [OF _ assms(1,2)]
  by simp

text \<open>
  The submatches do not depend on the order in which the engine tries the alternatives: a
  string has them exactly when it can be cut into matching parts, and then in one way only.
\<close>

lemma FindStringSubmatch_iff:
  "FindStringSubmatch s = Some (n, t, d) \<longleftrightarrow> parts_match (n, t, d) \<and> s = n @ tagPart t @ digestPart d"
proof
  assume "FindStringSubmatch s = Some (n, t, d)"
  then obtain qs where "filter parts_match (submatches s) = (n, t, d) # qs"
    by (auto simp: FindStringSubmatch_def split: list.splits)
  then have "(n, t, d) \<in> set (filter parts_match (submatches s))" by (metis list.set_intros(1))
  then show "parts_match (n, t, d) \<and> s = n @ tagPart t @ digestPart d" by (simp add: submatches_iff)
next
  assume p: "parts_match (n, t, d) \<and> s = n @ tagPart t @ digestPart d"
  have uniq: "q = (n, t, d)" if "q \<in> set (filter parts_match (submatches s))" for q
  proof -
    obtain n' t' d' where q: "q = (n', t', d')" by (rule prod_cases3)
    then show ?thesis using that p submatch_unique [of n t d n' t' d'] by (simp add: submatches_iff)
  qed
  have "(n, t, d) \<in> set (filter parts_match (submatches s))" using p by (simp add: submatches_iff)
  then obtain q qs where "filter parts_match (submatches s) = q # qs"
    by (cases "filter parts_match (submatches s)") auto
  with uniq [of q] show "FindStringSubmatch s = Some (n, t, d)" by (simp add: FindStringSubmatch_def)
qed

section \<open>Parsing and printing\<close>

definition wf_name :: "string \<Rightarrow> bool" where
  "wf_name n \<longleftrightarrow> length n \<le> NameTotalLengthMax \<and> re_match NameRegexp n \<and> \<not> ValidateID n"

fun wf_ref :: "Named \<Rightarrow> bool" where
  "wf_ref (NamedRef n) = wf_name n"
| "wf_ref (TaggedRef n t) = (wf_name n \<and> re_match TagRegexp t)"
| "wf_ref (CanonicalRef n d) = (wf_name n \<and> re_match DigestRegexp d \<and> ParseDigest d = Inr d)"

definition normal_name :: "string \<Rightarrow> bool" where
  "normal_name n \<longleftrightarrow> normalize n = Inr n"

lemma WithName_wf: "WithName name = Inr r \<Longrightarrow> \<exists>n. r = NamedRef n \<and> wf_name n \<and> normalize name = Inr n"
  by (auto simp: WithName_def validateName_def distWithName_def wf_name_def split: sum.splits if_splits option.splits)

lemma WithName_normal: "wf_name n \<Longrightarrow> normal_name n \<Longrightarrow> WithName n = Inr (NamedRef n)"
  by (simp add: WithName_def normal_name_def validateName_def distWithName_def wf_name_def)

lemma ParseDigest_same: "ParseDigest d = Inr d' \<Longrightarrow> d' = d"
  by (auto simp: ParseDigest_def split: option.splits)

lemma ParseNamed_wf:
  assumes "ParseNamed s = Inr r"
  shows "wf_ref r"
proof -
  obtain n t d where p: "distParse s = Inr (n, t, d)" using assms by (auto simp: ParseNamed_def split: sum.splits)
  obtain r0 where r0: "WithName n = Inr r0" using assms p by (auto simp: ParseNamed_def split: sum.splits)
  obtain m where m: "r0 = NamedRef m" "wf_name m" using WithName_wf [OF r0] by blast
  have "d \<noteq> [] \<Longrightarrow> ParseDigest d = Inr d"
    using p ParseDigest_same by (fastforce simp: distParse_def split: option.splits if_splits sum.splits)
  with assms p r0 m show ?thesis
    by (auto simp: ParseNamed_def WithDigest_def WithTag_def split: if_splits)
qed

lemma distParse_String:
  assumes "wf_name n" and "t = [] \<or> re_match TagRegexp t"
    and "d = [] \<or> re_match DigestRegexp d \<and> ParseDigest d = Inr d"
  shows "distParse (n @ tagPart t @ digestPart d) = Inr (n, t, d)"
proof -
  have "FindStringSubmatch (n @ tagPart t @ digestPart d) = Some (n, t, d)"
    unfolding FindStringSubmatch_iff using assms by (auto simp: parts_match_def wf_name_def)
  with assms show ?thesis by (auto simp: distParse_def wf_name_def)
qed

lemma pattern_nonempty [simp]: "\<not> nullable TagRegexp" "\<not> nullable DigestRegexp"
  using TagRegexp_chars [of "[]"] DigestRegexp_chars [of "[]"] unfolding nullable_lang by blast+

lemma ParseNamed_String:
  assumes wf: "wf_ref r" and normal: "normal_name (Named_Name r)"
  shows "ParseNamed (Named_String r) = Inr r"
proof (cases r)
  case (NamedRef n)
  with wf normal distParse_String [of n "[]" "[]"] show ?thesis
    by (simp add: ParseNamed_def tagPart_def digestPart_def WithName_normal)
next
  case (TaggedRef n t)
  then have "t \<noteq> []" using wf by auto
  with TaggedRef wf normal distParse_String [of n t "[]"] show ?thesis
    by (simp add: ParseNamed_def tagPart_def digestPart_def WithName_normal WithTag_def)
next
  case (CanonicalRef n d)
  then have "d \<noteq> []" using wf by auto
  with CanonicalRef wf normal distParse_String [of n "[]" d] show ?thesis
    by (simp add: ParseNamed_def tagPart_def digestPart_def WithName_normal WithDigest_def)
qed

text \<open>The printed form determines the reference.\<close>

lemma Named_String_inj:
  assumes "wf_ref r" and "wf_ref r'" and "Named_String r = Named_String r'"
  shows "r = r'"
proof -
  have parts: "\<exists>n t d. parts_match (n, t, d) \<and> Named_String x = n @ tagPart t @ digestPart d \<and>
      x = (if d \<noteq> [] then CanonicalRef n d else if t \<noteq> [] then TaggedRef n t else NamedRef n)"
    if "wf_ref x" for x
  proof (cases x)
    case (NamedRef n)
    with that show ?thesis
      by (intro exI [of _ n] exI [of _ "[]"]) (simp add: parts_match_def wf_name_def tagPart_def digestPart_def)
  next
    case (TaggedRef n t)
    moreover have "t \<noteq> []" using that TaggedRef by auto
    ultimately show ?thesis using that
      by (rule_tac exI [of _ n], rule_tac exI [of _ t], rule_tac exI [of _ "[]"])
        (simp add: parts_match_def wf_name_def tagPart_def digestPart_def)
  next
    case (CanonicalRef n d)
    moreover have "d \<noteq> []" using that CanonicalRef by auto
    ultimately show ?thesis using that
      by (rule_tac exI [of _ n], rule_tac exI [of _ "[]"], rule_tac exI [of _ d])
        (simp add: parts_match_def wf_name_def tagPart_def digestPart_def)
  qed
  obtain n t d where p: "parts_match (n, t, d)" "Named_String r = n @ tagPart t @ digestPart d"
    "r = (if d \<noteq> [] then CanonicalRef n d else if t \<noteq> [] then TaggedRef n t else NamedRef n)"
    using parts [OF assms(1)] by blast
  obtain n' t' d' where p': "parts_match (n', t', d')" "Named_String r' = n' @ tagPart t' @ digestPart d'"
    "r' = (if d' \<noteq> [] then CanonicalRef n' d' else if t' \<noteq> [] then TaggedRef n' t' else NamedRef n')"
    using parts [OF assms(2)] by blast
  have "n = n' \<and> t = t' \<and> d = d'"
    by (rule submatch_unique [OF p(1) p'(1)]) (use assms(3) p(2) p'(2) in simp)
  then show ?thesis unfolding p(3) p'(3) by simp
qed

section \<open>Normalisation\<close>

text \<open>The host part of a name, as \<open>splitHostname\<close> recognises it.\<close>

definition hostLike :: "string \<Rightarrow> bool" where
  "hostLike h \<longleftrightarrow> list_ex (\<lambda>c. c \<in> set ''.:'') h \<or> h = ''localhost''"

lemma splitHostname_no_slash:
  "CHR ''/'' \<notin> set n \<Longrightarrow> splitHostname n = (DefaultHostname, DefaultRepoPrefix @ n)"
  by (simp add: splitHostname_def indexOf_None_iff [THEN iffD2] DefaultHostname_def LegacyDefaultHostname_def)

lemma splitHostname_slash:
  assumes "CHR ''/'' \<notin> set h"
  shows "splitHostname (h @ CHR ''/'' # r) =
    (if \<not> hostLike h then (DefaultHostname, h @ CHR ''/'' # r)
     else if h = DefaultHostname \<or> h = LegacyDefaultHostname
       then (DefaultHostname, if CHR ''/'' \<in> set r then r else DefaultRepoPrefix @ r)
     else (h, r))"
  using assms
  by (auto simp: splitHostname_def indexOf_append_notin hostLike_def DefaultHostname_def LegacyDefaultHostname_def)

text \<open>
  A normalised name is read back as itself unless what is left after stripping the default
  host and \<^verbatim>\<open>library/\<close> starts again with the default host or with \<^verbatim>\<open>library/\<close>.
\<close>

definition strips_again :: "string \<Rightarrow> bool" where
  "strips_again n \<longleftrightarrow> has_prefix n ''library/'' \<or> has_prefix n ''docker.io/'' \<or> has_prefix n ''index.docker.io/''"

lemma isLowercase_append [simp]: "isLowercase (a @ b) \<longleftrightarrow> isLowercase a \<and> isLowercase b"
  by (simp add: isLowercase_def)

lemma slash_cases:
  obtains "CHR ''/'' \<notin> set n" | h r where "n = h @ CHR ''/'' # r" "CHR ''/'' \<notin> set h"
  by (meson split_list_first)

lemma normal_of_default:
  assumes low: "isLowercase n" and ok: "\<not> strips_again n"
  shows "normal_name n"
proof (cases rule: slash_cases [of n])
  case 1
  moreover have "isLowercase DefaultRepoPrefix" by (simp add: isLowercase_def DefaultRepoPrefix_def upper_def)
  ultimately show ?thesis using low
    by (simp add: normal_name_def normalize_def splitHostname_no_slash)
next
  case (2 h r)
  have pre: "has_prefix n (h @ ''/'')" unfolding has_prefix_iff using 2 by auto
  show ?thesis
  proof (cases "hostLike h")
    case False
    with 2 ok low show ?thesis
      by (simp add: normal_name_def normalize_def splitHostname_slash DefaultRepoPrefix_def strips_again_def)
  next
    case True
    have "h \<noteq> DefaultHostname" "h \<noteq> LegacyDefaultHostname"
      using ok pre by (auto simp: strips_again_def DefaultHostname_def LegacyDefaultHostname_def)
    moreover have "isLowercase r" using low 2 by (simp add: isLowercase_def)
    ultimately show ?thesis using True 2
      by (simp add: normal_name_def normalize_def splitHostname_slash)
  qed
qed

lemma normalize_result:
  assumes "normalize name = Inr n" and "\<not> strips_again n"
  shows "normal_name n"
proof -
  obtain host rn where sp: "splitHostname name = (host, rn)" by (rule prod.exhaust)
  with assms(1) have low: "isLowercase rn" by (auto simp: normalize_def split: if_splits)
  show ?thesis
  proof (cases "host = DefaultHostname")
    case True
    with assms(1) sp low have "\<exists>p. rn = p @ n"
      by (auto simp: normalize_def has_prefix_iff split: if_splits)
    with low have "isLowercase n" by auto
    then show ?thesis using assms(2) by (rule normal_of_default)
  next
    case False
    with assms(1) sp low have "n = name" by (auto simp: normalize_def split: if_splits)
    with assms(1) show ?thesis by (simp add: normal_name_def)
  qed
qed

lemma ParseNamed_normal:
  assumes "ParseNamed s = Inr r" and "\<not> strips_again (Named_Name r)"
  shows "normal_name (Named_Name r)"
proof -
  obtain n t d where p: "distParse s = Inr (n, t, d)" using assms by (auto simp: ParseNamed_def split: sum.splits)
  obtain r0 where r0: "WithName n = Inr r0" using assms p by (auto simp: ParseNamed_def split: sum.splits)
  obtain m where m: "r0 = NamedRef m" "normalize n = Inr m" using WithName_wf [OF r0] by blast
  have "Named_Name r = m"
    using assms(1) p r0 m(1) by (auto simp: ParseNamed_def WithDigest_def WithTag_def split: if_splits)
  with m(2) assms(2) normalize_result show ?thesis by blast
qed

text \<open>
  C20: Round trip of image references: a reference that was parsed prints to a string that
  parses to the same reference, unless its normalised name starts again with \<^verbatim>\<open>library/\<close>,
  \<^verbatim>\<open>docker.io/\<close> or \<^verbatim>\<open>index.docker.io/\<close>.
\<close>

theorem reference_roundtrip:
  assumes "ParseNamed s = Inr r" and "\<not> strips_again (Named_Name r)"
  shows "ParseNamed (Named_String r) = Inr r"
  by (rule ParseNamed_String [OF ParseNamed_wf [OF assms(1)] ParseNamed_normal [OF assms]])

lemma ParseNamed_plain:
  assumes "length s \<le> NameTotalLengthMax" and "re_match NameRegexp s"
  shows "ParseNamed s = WithName s"
proof -
  have "FindStringSubmatch s = Some (s, [], [])"
    unfolding FindStringSubmatch_iff using assms by (simp add: parts_match_def tagPart_def digestPart_def)
  with assms show ?thesis by (simp add: ParseNamed_def distParse_def split: sum.splits)
qed

lemma name_example: "re_match NameRegexp ''library/foo''" "re_match NameRegexp ''foo''" "re_match NameRegexp ''library/library/foo''"
  by code_simp+

lemma normalize_library:
  assumes "CHR ''/'' \<notin> set m" and "isLowercase m"
  shows "normalize (''library/'' @ m) = Inr m" and "normalize (''library/library/'' @ m) = Inr (''library/'' @ m)"
proof -
  have host: "\<not> hostLike ''library''" by (simp add: hostLike_def)
  have "splitHostname (''library/'' @ m) = (DefaultHostname, ''library/'' @ m)"
    using splitHostname_slash [of "''library''" m] host by simp
  with assms(2) show "normalize (''library/'' @ m) = Inr m"
    by (simp add: normalize_def DefaultRepoPrefix_def isLowercase_def upper_def)
  have "splitHostname (''library/'' @ ''library/'' @ m) = (DefaultHostname, ''library/'' @ ''library/'' @ m)"
    using splitHostname_slash [of "''library''" "''library/'' @ m"] host by simp
  with assms(2) show "normalize (''library/library/'' @ m) = Inr (''library/'' @ m)"
    by (simp add: normalize_def DefaultRepoPrefix_def isLowercase_def upper_def)
qed

lemma ParseNamed_examples:
  "ParseNamed ''library/library/foo'' = Inr (NamedRef ''library/foo'')"
  "ParseNamed ''library/foo'' = Inr (NamedRef ''foo'')"
  using normalize_library [of "''foo''"] ParseNamed_plain [OF _ name_example(3)] ParseNamed_plain [OF _ name_example(1)]
    name_example
  by (simp_all add: WithName_def validateName_def distWithName_def ValidateID_def NameTotalLengthMax_def isLowercase_def upper_def
      del: re_match.simps)

theorem reference_roundtrip_witness: "ParseNamed (Named_String (NamedRef ''foo'')) = Inr (NamedRef ''foo'')"
  using reference_roundtrip [OF ParseNamed_examples(2)] by (simp add: strips_again_def)

text \<open>
  The exception in the round trip is real: \<^verbatim>\<open>library/library/foo\<close> parses to a reference that
  prints as \<^verbatim>\<open>library/foo\<close>, and that string parses to a different reference, \<^verbatim>\<open>foo\<close>.  A tag
  recorded under the first name is therefore read back under another name.
\<close>

lemma reference_renormalised:
  "ParseNamed ''library/library/foo'' = Inr (NamedRef ''library/foo'') \<and>
   ParseNamed (Named_String (NamedRef ''library/foo'')) = Inr (NamedRef ''foo'')"
  using ParseNamed_examples by simp

lemma default_host_like: "hostLike DefaultHostname" "CHR ''/'' \<notin> set DefaultHostname"
  by (simp_all add: hostLike_def DefaultHostname_def)

lemma normalize_default_host:
  "normalize (DefaultHostname @ CHR ''/'' # r) =
     (let rn = (if CHR ''/'' \<in> set r then r else DefaultRepoPrefix @ r)
      in if \<not> isLowercase rn then Inl ErrNotLowercase
         else if has_prefix rn DefaultRepoPrefix then Inr (drop (length DefaultRepoPrefix) rn) else Inr rn)"
  by (simp add: normalize_def splitHostname_slash default_host_like)

text \<open>
  The full name of a reference (host, slash, remote name) is another spelling of its
  normalised name: it names the same repository when it is parsed again.
\<close>

lemma full_name_same_repository:
  assumes "normal_name n"
  shows "WithName (Named_FullName (NamedRef n)) = WithName n"
proof -
  obtain host rn where sp: "splitHostname n = (host, rn)" by (rule prod.exhaust)
  have norm: "normalize n = Inr n" using assms by (simp add: normal_name_def)
  with sp have low: "isLowercase rn" by (auto simp: normalize_def split: if_splits)
  have "normalize (host @ CHR ''/'' # rn) = Inr n"
  proof (cases "host = DefaultHostname")
    case True
    have "CHR ''/'' \<in> set rn" using sp True by (auto simp: splitHostname_def DefaultRepoPrefix_def Let_def split: option.splits if_splits prod.splits)
    then show ?thesis
      using True norm sp low unfolding True normalize_default_host by (auto simp: normalize_def split: if_splits)
  next
    case False
    then have "n = host @ CHR ''/'' # rn"
    proof (cases rule: slash_cases [of n])
      case 1
      with sp False show ?thesis by (simp add: splitHostname_no_slash)
    next
      case (2 h r)
      with sp False show ?thesis by (auto simp: splitHostname_slash split: if_splits)
    qed
    with norm show ?thesis by simp
  qed
  with norm sp show ?thesis by (simp add: Named_FullName_def WithName_def)
qed

end
