(* ===== verification/Reference_Store.thy ===== *)
theory Reference_Store
  imports Image_Reference "HOL-Library.List_Lexorder" "HOL-Library.Char_ord"
begin

text \<open>
  The tag store, \<^verbatim>\<open>src/reference/store.go\<close>: two maps that must agree, repositories (name to
  printed reference to image id) and the cache from image ids to references, and the JSON file
  they are saved to.  The file holds the repositories; writing it may fail, which the code
  reports after having changed the maps, so the outcome of the write is an argument.  Maps
  that the code ranges over or measures are finite maps.
\<close>

section \<open>State\<close>

type_synonym ImageID = string
type_synonym repository = "(string, ImageID) fmap"

record refStore =
  Repositories :: "(string, repository) fmap"
  referencesByIDCache :: "(ImageID, (string, Named) fmap) fmap"
  jsonFile :: "(string, repository) fmap option"

record Association =
  Ref :: Named
  AImageID :: ImageID

datatype rs_error =
    ErrDoesNotExist
  | ErrTagWithDigest
  | ErrAmbiguousName
  | ErrOverwriteDigest string
  | ErrConflict string ImageID
  | ErrSave string

fun isCanonical :: "Named \<Rightarrow> bool" where
  "isCanonical (CanonicalRef n d) = True"
| "isCanonical _ = False"

fun Named_Digest :: "Named \<Rightarrow> string" where
  "Named_Digest (CanonicalRef n d) = d"
| "Named_Digest _ = []"

section \<open>Operations\<close>

text \<open>\<open>w\<close> is the error of the file write, if it fails.\<close>

definition store_save :: "string option \<Rightarrow> refStore \<Rightarrow> rs_error option \<times> refStore" where
  "store_save w s =
     (case w of None \<Rightarrow> (None, s\<lparr>jsonFile := Some (Repositories s)\<rparr>) | Some e \<Rightarrow> (Some (ErrSave e), s))"

text \<open>Drop one printed reference from the cache entry of an image, and an entry that became empty.\<close>

definition dropCached :: "ImageID \<Rightarrow> string \<Rightarrow> (ImageID, (string, Named) fmap) fmap \<Rightarrow> (ImageID, (string, Named) fmap) fmap" where
  "dropCached i refStr c =
     (case fmlookup c i of
        None \<Rightarrow> c
      | Some m \<Rightarrow> let m' = fmdrop refStr m in if m' = fmempty then fmdrop i c else fmupd i m' c)"

definition addCached :: "ImageID \<Rightarrow> string \<Rightarrow> Named \<Rightarrow> (ImageID, (string, Named) fmap) fmap \<Rightarrow> (ImageID, (string, Named) fmap) fmap" where
  "addCached i refStr r c =
     fmupd i (fmupd refStr r (case fmlookup c i of None \<Rightarrow> fmempty | Some m \<Rightarrow> m)) c"

definition store_addReference ::
    "string option \<Rightarrow> Named \<Rightarrow> ImageID \<Rightarrow> bool \<Rightarrow> refStore \<Rightarrow> rs_error option \<times> refStore" where
  "store_addReference w r i force s =
     (if Named_Name r = ''sha256'' then (Some ErrAmbiguousName, s)
      else
        let name = Named_Name r;
            refStr = Named_String r;
            repo = (case fmlookup (Repositories s) name of None \<Rightarrow> fmempty | Some m \<Rightarrow> m);
            s0 = s\<lparr>Repositories := fmupd name repo (Repositories s)\<rparr>
        in case fmlookup repo refStr of
             Some oldID \<Rightarrow>
               if isCanonical r then (Some (ErrOverwriteDigest (Named_Digest r)), s0)
               else if \<not> force then (Some (ErrConflict refStr oldID), s0)
               else store_save w
                 (s0\<lparr>Repositories := fmupd name (fmupd refStr i repo) (Repositories s0),
                     referencesByIDCache := addCached i refStr r (dropCached oldID refStr (referencesByIDCache s0))\<rparr>)
           | None \<Rightarrow>
               store_save w
                 (s0\<lparr>Repositories := fmupd name (fmupd refStr i repo) (Repositories s0),
                     referencesByIDCache := addCached i refStr r (referencesByIDCache s0)\<rparr>))"

definition store_AddTag ::
    "string option \<Rightarrow> Named \<Rightarrow> ImageID \<Rightarrow> bool \<Rightarrow> refStore \<Rightarrow> rs_error option \<times> refStore" where
  "store_AddTag w r i force s =
     (if isCanonical r then (Some ErrTagWithDigest, s)
      else store_addReference w (WithDefaultTag r) i force s)"

text \<open>The Go parameter has type \<open>Canonical\<close>; a call with another reference does not compile.\<close>

definition store_AddDigest ::
    "string option \<Rightarrow> Named \<Rightarrow> ImageID \<Rightarrow> bool \<Rightarrow> refStore \<Rightarrow> rs_error option \<times> refStore" where
  "store_AddDigest w r i force s = store_addReference w r i force s"

definition store_Delete ::
    "string option \<Rightarrow> Named \<Rightarrow> refStore \<Rightarrow> (bool \<times> rs_error option) \<times> refStore" where
  "store_Delete w r0 s =
     (let r = WithDefaultTag r0;
          name = Named_Name r;
          refStr = Named_String r
      in case fmlookup (Repositories s) name of
           None \<Rightarrow> ((False, Some ErrDoesNotExist), s)
         | Some repo \<Rightarrow>
             (case fmlookup repo refStr of
                None \<Rightarrow> ((False, Some ErrDoesNotExist), s)
              | Some i \<Rightarrow>
                  let repo' = fmdrop refStr repo;
                      s1 = s\<lparr>Repositories := (if repo' = fmempty then fmdrop name (Repositories s)
                                               else fmupd name repo' (Repositories s)),
                             referencesByIDCache := dropCached i refStr (referencesByIDCache s)\<rparr>
                  in (case store_save w s1 of (e, s2) \<Rightarrow> ((True, e), s2))))"

definition store_Get :: "Named \<Rightarrow> refStore \<Rightarrow> rs_error + ImageID" where
  "store_Get r0 s =
     (let r = WithDefaultTag r0
      in case fmlookup (Repositories s) (Named_Name r) of
           None \<Rightarrow> Inl ErrDoesNotExist
         | Some repo \<Rightarrow>
             (case fmlookup repo (Named_String r) of None \<Rightarrow> Inl ErrDoesNotExist | Some i \<Rightarrow> Inr i))"

text \<open>
  Go ranges over a map in an unspecified order and then sorts by the printed reference; the
  keys are taken in order here, which the sorting makes irrelevant.
\<close>

definition fmlist :: "(string, 'v) fmap \<Rightarrow> (string \<times> 'v) list" where
  "fmlist m = map (\<lambda>k. (k, the (fmlookup m k))) (sorted_list_of_fset (fmdom m))"

definition store_References :: "ImageID \<Rightarrow> refStore \<Rightarrow> Named list" where
  "store_References i s =
     (case fmlookup (referencesByIDCache s) i of
        None \<Rightarrow> []
      | Some m \<Rightarrow> sort_key Named_String (map snd (fmlist m)))"

fun parseAssociations :: "(string \<times> ImageID) list \<Rightarrow> Association list option" where
  "parseAssociations [] = Some []"
| "parseAssociations ((k, i) # kis) =
     (case ParseNamed k of
        Inl _ \<Rightarrow> None
      | Inr r \<Rightarrow> map_option (\<lambda>as. \<lparr>Ref = r, AImageID = i\<rparr> # as) (parseAssociations kis))"

definition store_ReferencesByName :: "Named \<Rightarrow> refStore \<Rightarrow> Association list" where
  "store_ReferencesByName r s =
     (case fmlookup (Repositories s) (Named_Name r) of
        None \<Rightarrow> []
      | Some repo \<Rightarrow>
          (case parseAssociations (fmlist repo) of
             None \<Rightarrow> []
           | Some as \<Rightarrow> sort_key (\<lambda>a. Named_String (Ref a)) as))"

text \<open>\<open>reload\<close> reads the file back and rebuilds the cache; \<open>None\<close> stands for a missing file.\<close>

fun cacheRepository :: "(string \<times> ImageID) list \<Rightarrow> (ImageID, (string, Named) fmap) fmap \<Rightarrow> (ImageID, (string, Named) fmap) fmap" where
  "cacheRepository [] c = c"
| "cacheRepository ((k, i) # kis) c =
     cacheRepository kis (case ParseNamed k of Inl _ \<Rightarrow> c | Inr r \<Rightarrow> addCached i k r c)"

definition store_reload :: "refStore \<Rightarrow> refStore option" where
  "store_reload s =
     (case jsonFile s of
        None \<Rightarrow> None
      | Some repos \<Rightarrow>
          Some (s\<lparr>Repositories := repos,
                  referencesByIDCache :=
                    fold (\<lambda>(n, repo). cacheRepository (fmlist repo)) (fmlist repos) (referencesByIDCache s)\<rparr>))"

definition NewReferenceStore ::
    "string option \<Rightarrow> (string, repository) fmap option \<Rightarrow> rs_error option \<times> refStore" where
  "NewReferenceStore w file =
     (let s = \<lparr>Repositories = fmempty, referencesByIDCache = fmempty, jsonFile = file\<rparr>
      in case store_reload s of Some s' \<Rightarrow> (None, s') | None \<Rightarrow> store_save w s)"
section \<open>The tag store as one map\<close>

text \<open>
  The contract of the store: a partial function from references to image ids.  \<open>tags\<close> reads it
  off the repositories; the invariant says that the cache is its inverse and that no empty map
  is left behind.
\<close>

definition lookup2 :: "('a, ('b, 'c) fmap) fmap \<Rightarrow> 'a \<Rightarrow> 'b \<Rightarrow> 'c option" where
  "lookup2 m a b = Option.bind (fmlookup m a) (\<lambda>n. fmlookup n b)"

definition proper :: "Named \<Rightarrow> bool" where
  "proper r \<longleftrightarrow> wf_ref r \<and> \<not> IsNameOnly r"

definition tags :: "refStore \<Rightarrow> Named \<Rightarrow> ImageID option" where
  "tags s r = lookup2 (Repositories s) (Named_Name r) (Named_String r)"

definition no_empty :: "('a, ('b, 'c) fmap) fmap \<Rightarrow> bool" where
  "no_empty m \<longleftrightarrow> (\<forall>a n. fmlookup m a = Some n \<longrightarrow> n \<noteq> fmempty)"

definition rs_inv :: "refStore \<Rightarrow> bool" where
  "rs_inv s \<longleftrightarrow>
     no_empty (Repositories s) \<and> no_empty (referencesByIDCache s) \<and>
     (\<forall>n k i. lookup2 (Repositories s) n k = Some i \<longrightarrow>
        (\<exists>r. proper r \<and> Named_Name r = n \<and> Named_String r = k)) \<and>
     (\<forall>i k r. lookup2 (referencesByIDCache s) i k = Some r \<longleftrightarrow>
        proper r \<and> Named_String r = k \<and> tags s r = Some i)"

lemma lookup2_fmupd: "lookup2 (fmupd a n m) a' b = (if a' = a then fmlookup n b else lookup2 m a' b)"
  by (simp add: lookup2_def)

lemma lookup2_fmdrop: "lookup2 (fmdrop a m) a' b = (if a' = a then None else lookup2 m a' b)"
  by (simp add: lookup2_def)

lemma lookup2_dropCached:
  "lookup2 (dropCached i k c) j k' = (if j = i \<and> k' = k then None else lookup2 c j k')"
proof (cases "fmlookup c i")
  case None
  then show ?thesis by (simp add: dropCached_def lookup2_def)
next
  case (Some m)
  have "fmdrop k m = fmempty \<Longrightarrow> k' \<noteq> k \<Longrightarrow> fmlookup m k' = None"
    by (metis fmempty_lookup fmlookup_drop)
  with Some show ?thesis by (auto simp: dropCached_def lookup2_def Let_def)
qed

lemma lookup2_addCached:
  "lookup2 (addCached i k r c) j k' = (if j = i \<and> k' = k then Some r else lookup2 c j k')"
  by (cases "fmlookup c i") (auto simp: addCached_def lookup2_def)

lemma fmupd_nonempty [simp]: "fmupd k v m \<noteq> fmempty"
  by (metis fmempty_lookup fmupd_lookup option.distinct(1))

lemma no_empty_cache:
  "no_empty c \<Longrightarrow> no_empty (dropCached i k c)" "no_empty c \<Longrightarrow> no_empty (addCached i k r c)"
  by (auto simp: no_empty_def dropCached_def addCached_def Let_def split: option.splits if_splits)

lemma properI: "wf_ref r \<Longrightarrow> proper (WithDefaultTag r)"
proof (cases r)
  case (NamedRef n)
  assume "wf_ref r"
  moreover have "re_match TagRegexp DefaultTag"
    using WithTag_default [of r] by (simp add: WithTag_def split: if_splits)
  ultimately show ?thesis using NamedRef by (simp add: proper_def WithDefaultTag_def WithTag_default)
qed (auto simp: proper_def WithDefaultTag_def)

lemma tags_inj: "proper r \<Longrightarrow> proper r' \<Longrightarrow> Named_String r = Named_String r' \<longleftrightarrow> r = r'"
  using Named_String_inj by (auto simp: proper_def)

text \<open>The effect of storing, removing and saving on the two views.\<close>

lemma save_same [simp]:
  "Repositories (snd (store_save w s)) = Repositories s"
  "referencesByIDCache (snd (store_save w s)) = referencesByIDCache s"
  by (simp_all add: store_save_def split: option.splits)

lemma rs_inv_cong:
  "Repositories s' = Repositories s \<Longrightarrow> referencesByIDCache s' = referencesByIDCache s \<Longrightarrow> rs_inv s' = rs_inv s"
  by (simp add: rs_inv_def tags_def)

lemma tags_cong: "Repositories s' = Repositories s \<Longrightarrow> tags s' = tags s"
  by (simp add: fun_eq_iff tags_def)

text \<open>One reference is set to an image, in both views.\<close>

lemma rs_inv_set:
  assumes inv: "rs_inv s" and r: "proper r"
    and repos: "\<And>n k. lookup2 (Repositories s') n k =
        (if n = Named_Name r \<and> k = Named_String r then v else lookup2 (Repositories s) n k)"
    and cache: "\<And>i k. lookup2 (referencesByIDCache s') i k =
        (if k = Named_String r then (if v = Some i then Some r else None) else lookup2 (referencesByIDCache s) i k)"
    and ne: "no_empty (Repositories s')" "no_empty (referencesByIDCache s')"
  shows "rs_inv s'" and "proper q \<Longrightarrow> tags s' q = (if q = r then v else tags s q)"
proof -
  have t: "tags s' q = (if q = r then v else tags s q)" if "proper q" for q
    using repos [of "Named_Name q" "Named_String q"] tags_inj [OF that r] by (auto simp: tags_def)
  then show "proper q \<Longrightarrow> tags s' q = (if q = r then v else tags s q)" by blast
  have 1: "\<exists>x. proper x \<and> Named_Name x = n \<and> Named_String x = k" if "lookup2 (Repositories s') n k = Some i" for n k i
    using inv r that unfolding repos rs_inv_def by (auto split: if_splits)
  have 2: "lookup2 (referencesByIDCache s') i k = Some q \<longleftrightarrow> proper q \<and> Named_String q = k \<and> tags s' q = Some i" for i k q
  proof (cases "k = Named_String r")
    case True
    then show ?thesis unfolding cache using r t tags_inj [OF _ r] by auto
  next
    case False
    then show ?thesis unfolding cache using inv t unfolding rs_inv_def by (auto split: if_splits)
  qed
  from 1 2 ne show "rs_inv s'" unfolding rs_inv_def by blast
qed

lemma cache_other:
  assumes "rs_inv s" and "proper r" and "tags s r \<noteq> Some i"
  shows "lookup2 (referencesByIDCache s) i (Named_String r) = None"
proof (cases "lookup2 (referencesByIDCache s) i (Named_String r)")
  case (Some q)
  then have "proper q" "Named_String q = Named_String r" "tags s q = Some i"
    using assms(1) unfolding rs_inv_def by blast+
  with assms(2,3) tags_inj show ?thesis by blast
qed

text \<open>When \<open>addReference\<close> refuses, and what it does otherwise.\<close>

definition addRefusal :: "Named \<Rightarrow> bool \<Rightarrow> refStore \<Rightarrow> rs_error option" where
  "addRefusal r force s =
     (if Named_Name r = ''sha256'' then Some ErrAmbiguousName
      else case tags s r of
             None \<Rightarrow> None
           | Some old \<Rightarrow> if isCanonical r then Some (ErrOverwriteDigest (Named_Digest r))
                         else if \<not> force then Some (ErrConflict (Named_String r) old)
                         else None)"

definition repoOf :: "string \<Rightarrow> refStore \<Rightarrow> repository" where
  "repoOf n s = (case fmlookup (Repositories s) n of None \<Rightarrow> fmempty | Some m \<Rightarrow> m)"

definition setTag :: "Named \<Rightarrow> ImageID \<Rightarrow> refStore \<Rightarrow> refStore" where
  "setTag r i s =
     s\<lparr>Repositories := fmupd (Named_Name r) (fmupd (Named_String r) i (repoOf (Named_Name r) s)) (Repositories s),
       referencesByIDCache := addCached i (Named_String r) r
         (case tags s r of None \<Rightarrow> referencesByIDCache s
          | Some old \<Rightarrow> dropCached old (Named_String r) (referencesByIDCache s))\<rparr>"

definition delTag :: "Named \<Rightarrow> ImageID \<Rightarrow> refStore \<Rightarrow> refStore" where
  "delTag r i s =
     (let repo' = fmdrop (Named_String r) (repoOf (Named_Name r) s)
      in s\<lparr>Repositories := (if repo' = fmempty then fmdrop (Named_Name r) (Repositories s)
                             else fmupd (Named_Name r) repo' (Repositories s)),
           referencesByIDCache := dropCached i (Named_String r) (referencesByIDCache s)\<rparr>)"

lemma fmupd_same: "fmlookup m k = Some v \<Longrightarrow> fmupd k v m = m"
  by (rule fmap_ext) auto

lemma repoOf_lookup: "fmlookup (repoOf n s) k = lookup2 (Repositories s) n k"
  by (simp add: repoOf_def lookup2_def split: option.split)

lemma tags_repoOf: "tags s r = fmlookup (repoOf (Named_Name r) s) (Named_String r)"
  by (simp add: tags_def repoOf_lookup)

lemma addReference_eq:
  "store_addReference w r i force s =
     (case addRefusal r force s of Some e \<Rightarrow> (Some e, s) | None \<Rightarrow> store_save w (setTag r i s))"
proof (cases "Named_Name r = ''sha256''")
  case True
  then show ?thesis by (simp add: store_addReference_def addRefusal_def)
next
  case False
  note unfold = store_addReference_def addRefusal_def Let_def repoOf_def [symmetric]
  show ?thesis
  proof (cases "tags s r")
    case None
    with False show ?thesis by (simp add: unfold tags_repoOf setTag_def)
  next
    case (Some old)
    then obtain m where m: "fmlookup (Repositories s) (Named_Name r) = Some m"
      by (auto simp: tags_def lookup2_def bind_eq_Some_conv)
    then have "s\<lparr>Repositories := fmupd (Named_Name r) (repoOf (Named_Name r) s) (Repositories s)\<rparr> = s"
      by (simp add: repoOf_def fmupd_same)
    with Some False show ?thesis by (simp add: unfold tags_repoOf setTag_def)
  qed
qed

lemma setTag_inv:
  assumes inv: "rs_inv s" and r: "proper r"
  shows "rs_inv (setTag r i s)" and "proper q \<Longrightarrow> tags (setTag r i s) q = (if q = r then Some i else tags s q)"
proof -
  have A: "lookup2 (Repositories (setTag r i s)) n k =
      (if n = Named_Name r \<and> k = Named_String r then Some i else lookup2 (Repositories s) n k)" for n k
    by (simp add: setTag_def lookup2_fmupd repoOf_lookup)
  have B: "lookup2 (referencesByIDCache (setTag r i s)) j k =
      (if k = Named_String r then (if Some i = Some j then Some r else None) else lookup2 (referencesByIDCache s) j k)" for j k
    using cache_other [OF inv r, of j]
    by (cases "tags s r") (auto simp: setTag_def lookup2_addCached lookup2_dropCached)
  have ne: "no_empty (Repositories s)" "no_empty (referencesByIDCache s)" using inv by (simp_all add: rs_inv_def)
  have "no_empty (case tags s r of None \<Rightarrow> referencesByIDCache s | Some old \<Rightarrow> dropCached old (Named_String r) (referencesByIDCache s))"
    using ne(2) no_empty_cache(1) [OF ne(2)] by (simp split: option.split)
  then have C: "no_empty (Repositories (setTag r i s))" "no_empty (referencesByIDCache (setTag r i s))"
    using ne(1) no_empty_cache(2) by (simp add: setTag_def no_empty_def, simp add: setTag_def)
  show "rs_inv (setTag r i s)" "proper q \<Longrightarrow> tags (setTag r i s) q = (if q = r then Some i else tags s q)"
    using rs_inv_set [OF inv r A B C] by blast+
qed

lemma Delete_eq:
  "store_Delete w r0 s =
     (let r = WithDefaultTag r0
      in case tags s r of
           None \<Rightarrow> ((False, Some ErrDoesNotExist), s)
         | Some i \<Rightarrow> (case store_save w (delTag r i s) of (e, s') \<Rightarrow> ((True, e), s')))"
  by (simp add: store_Delete_def tags_def lookup2_def delTag_def repoOf_def Let_def split: option.split)

lemma delTag_inv:
  assumes inv: "rs_inv s" and r: "proper r" and i: "tags s r = Some i"
  shows "rs_inv (delTag r i s)" and "proper q \<Longrightarrow> tags (delTag r i s) q = (if q = r then None else tags s q)"
proof -
  let ?repo = "fmdrop (Named_String r) (repoOf (Named_Name r) s)"
  have "?repo = fmempty \<Longrightarrow> k \<noteq> Named_String r \<Longrightarrow> lookup2 (Repositories s) (Named_Name r) k = None" for k
    by (metis fmempty_lookup fmlookup_drop repoOf_lookup)
  then have A: "lookup2 (Repositories (delTag r i s)) n k =
      (if n = Named_Name r \<and> k = Named_String r then None else lookup2 (Repositories s) n k)" for n k
    by (auto simp: delTag_def Let_def lookup2_fmupd lookup2_fmdrop repoOf_lookup)
  have B: "lookup2 (referencesByIDCache (delTag r i s)) j k =
      (if k = Named_String r then (if None = Some j then Some r else None) else lookup2 (referencesByIDCache s) j k)" for j k
    using cache_other [OF inv r, of j] i by (auto simp: delTag_def Let_def lookup2_dropCached)
  have ne: "no_empty (Repositories s)" "no_empty (referencesByIDCache s)" using inv by (simp_all add: rs_inv_def)
  have C: "no_empty (Repositories (delTag r i s))" "no_empty (referencesByIDCache (delTag r i s))"
    using ne(1) no_empty_cache(1) [OF ne(2)] by (simp_all add: delTag_def Let_def no_empty_def)
  show "rs_inv (delTag r i s)" "proper q \<Longrightarrow> tags (delTag r i s) q = (if q = r then None else tags s q)"
    using rs_inv_set [OF inv r A B C] by blast+
qed

section \<open>Listing and reloading\<close>

lemma fmlist_set: "(k, v) \<in> set (fmlist m) \<longleftrightarrow> fmlookup m k = Some v"
  by (auto simp: fmlist_def sorted_list_of_fset_simps fmlookup_dom_iff)

lemma fmlist_distinct: "distinct (map fst (fmlist m))"
  by (simp add: fmlist_def comp_def sorted_list_of_fset.rep_eq)

lemma References_spec:
  assumes "rs_inv s"
  shows "set (store_References i s) = {r. proper r \<and> tags s r = Some i}"
    and "distinct (store_References i s)" and "sorted (map Named_String (store_References i s))"
proof -
  let ?c = "referencesByIDCache s"
  have iff: "lookup2 ?c i k = Some r \<longleftrightarrow> proper r \<and> Named_String r = k \<and> tags s r = Some i" for k r
    using assms unfolding rs_inv_def by blast
  have none: "{r. proper r \<and> tags s r = Some i} = {}" if "fmlookup ?c i = None"
    using iff that by (auto simp: lookup2_def)
  show "set (store_References i s) = {r. proper r \<and> tags s r = Some i}"
  proof (cases "fmlookup ?c i")
    case (Some m)
    have "r \<in> snd ` set (fmlist m) \<longleftrightarrow> (\<exists>k. lookup2 ?c i k = Some r)" for r
      using Some by (simp add: lookup2_def image_iff Bex_def split_paired_Ex fmlist_set)
    then have "snd ` set (fmlist m) = {r. proper r \<and> tags s r = Some i}" unfolding iff by auto
    with Some show ?thesis by (simp add: store_References_def)
  qed (simp add: store_References_def none)
  have inj: "snd x = snd y \<Longrightarrow> x = y" if "fmlookup ?c i = Some m" "x \<in> set (fmlist m)" "y \<in> set (fmlist m)" for m x y
  proof -
    have "fst z = Named_String (snd z)" if "z \<in> set (fmlist m)" for z
      using iff [of "fst z" "snd z"] that \<open>fmlookup ?c i = Some m\<close> fmlist_set [of "fst z" "snd z" m]
      by (simp add: lookup2_def)
    then show "snd x = snd y \<Longrightarrow> x = y" using that by (metis prod_eqI)
  qed
  have "distinct (map snd (fmlist m))" if "fmlookup ?c i = Some m" for m
    using inj [OF that] fmlist_distinct [of m] by (simp add: distinct_map inj_on_def)
  then show "distinct (store_References i s)"
    by (simp add: store_References_def split: option.split)
  show "sorted (map Named_String (store_References i s))"
    by (simp add: store_References_def split: option.split)
qed

lemma cacheRepository_iff:
  "lookup2 (cacheRepository kis c) i k = Some r \<longleftrightarrow>
     (k, i) \<in> set kis \<and> ParseNamed k = Inr r \<or>
     lookup2 c i k = Some r \<and> ((k, i) \<in> set kis \<longrightarrow> (\<forall>q. ParseNamed k \<noteq> Inr q))"
proof (induction kis c rule: cacheRepository.induct)
  case (2 k' i' kis c)
  then show ?case by (cases "ParseNamed k'") (auto simp: lookup2_addCached)
qed simp

lemma cacheRepositories_iff:
  "lookup2 (fold (\<lambda>(n, repo). cacheRepository (fmlist repo)) nrs c) i k = Some r \<longleftrightarrow>
     (\<exists>(n, repo) \<in> set nrs. fmlookup repo k = Some i) \<and> ParseNamed k = Inr r \<or>
     lookup2 c i k = Some r \<and> ((\<exists>(n, repo) \<in> set nrs. fmlookup repo k = Some i) \<longrightarrow> (\<forall>q. ParseNamed k \<noteq> Inr q))"
  by (induction nrs arbitrary: c) (auto simp: cacheRepository_iff fmlist_set)

lemma no_empty_cacheRepository: "no_empty c \<Longrightarrow> no_empty (cacheRepository kis c)"
  by (induction kis c rule: cacheRepository.induct) (auto simp: no_empty_cache split: sum.splits)

lemma no_empty_cacheRepositories:
  "no_empty c \<Longrightarrow> no_empty (fold (\<lambda>(n, repo). cacheRepository (fmlist repo)) nrs c)"
  by (induction nrs arbitrary: c) (auto simp: no_empty_cacheRepository)

text \<open>A restart: a new store on the file of the old one.\<close>

lemma reload_inv:
  assumes inv: "rs_inv s" and onfile: "jsonFile s = Some (Repositories s)"
    and normal: "\<And>r. proper r \<Longrightarrow> tags s r \<noteq> None \<Longrightarrow> normal_name (Named_Name r)"
    and new: "NewReferenceStore w (jsonFile s) = (e, s')"
  shows "e = None" and "rs_inv s'" and "Repositories s' = Repositories s"
proof -
  let ?c = "fold (\<lambda>(n, repo). cacheRepository (fmlist repo)) (fmlist (Repositories s)) fmempty"
  have s': "s' = \<lparr>Repositories = Repositories s, referencesByIDCache = ?c, jsonFile = Some (Repositories s)\<rparr>" and "e = None"
    using new onfile by (simp_all add: NewReferenceStore_def store_reload_def)
  then show "e = None" "Repositories s' = Repositories s" by simp_all
  have t: "tags s' = tags s" by (rule tags_cong) (simp add: s')
  have found: "(\<exists>(n, repo) \<in> set (fmlist (Repositories s)). fmlookup repo k = Some i) \<longleftrightarrow>
      (\<exists>n. lookup2 (Repositories s) n k = Some i)" for k i
    unfolding lookup2_def bind_eq_Some_conv by (force simp: fmlist_set)
  have key: "\<exists>r. proper r \<and> Named_Name r = n \<and> Named_String r = k" if "lookup2 (Repositories s) n k = Some i" for n k i
    using inv that unfolding rs_inv_def by blast
  have parse: "ParseNamed (Named_String r) = Inr r" if "proper r" "tags s r = Some i" for r i
    using that normal [of r] by (auto simp: proper_def intro: ParseNamed_String)
  have "lookup2 ?c i k = Some r \<longleftrightarrow> proper r \<and> Named_String r = k \<and> tags s' r = Some i" for i k r
  proof
    assume "lookup2 ?c i k = Some r"
    then obtain n where n: "lookup2 (Repositories s) n k = Some i" and p: "ParseNamed k = Inr r"
      unfolding cacheRepositories_iff found by (auto simp: lookup2_def)
    obtain q where q: "proper q" "Named_Name q = n" "Named_String q = k" using key [OF n] by blast
    then have "tags s q = Some i" using n by (simp add: tags_def)
    with parse [OF q(1) this] p q show "proper r \<and> Named_String r = k \<and> tags s' r = Some i" by (simp add: t)
  next
    assume r: "proper r \<and> Named_String r = k \<and> tags s' r = Some i"
    then have "lookup2 (Repositories s) (Named_Name r) k = Some i" by (auto simp: t tags_def)
    with r parse [of r i] show "lookup2 ?c i k = Some r" unfolding cacheRepositories_iff found by (auto simp: t)
  qed
  moreover have "no_empty ?c" by (rule no_empty_cacheRepositories) (simp add: no_empty_def)
  ultimately show "rs_inv s'" using inv t unfolding rs_inv_def s' by simp
qed

section \<open>Histories and the specification\<close>

datatype rs_call =
    AddTagCall Named ImageID bool
  | AddDigestCall Named ImageID bool
  | DeleteCall Named

text \<open>References come from the parser; \<open>AddDigest\<close> takes one with a digest.\<close>

fun wf_call :: "rs_call \<Rightarrow> bool" where
  "wf_call (AddTagCall r i f) = wf_ref r"
| "wf_call (AddDigestCall r i f) = (wf_ref r \<and> isCanonical r)"
| "wf_call (DeleteCall r) = wf_ref r"

fun rs_exec :: "string option \<times> rs_call \<Rightarrow> refStore \<Rightarrow> refStore" where
  "rs_exec (w, AddTagCall r i f) s = snd (store_AddTag w r i f s)"
| "rs_exec (w, AddDigestCall r i f) s = snd (store_AddDigest w r i f s)"
| "rs_exec (w, DeleteCall r) s = snd (store_Delete w r s)"

text \<open>The specification: one map from references to image ids.\<close>

definition spec_add :: "Named \<Rightarrow> ImageID \<Rightarrow> bool \<Rightarrow> (Named \<rightharpoonup> ImageID) \<Rightarrow> (Named \<rightharpoonup> ImageID)" where
  "spec_add r i force m =
     (if Named_Name r = ''sha256'' \<or> (m r \<noteq> None \<and> (isCanonical r \<or> \<not> force)) then m else m(r \<mapsto> i))"

fun spec_exec :: "rs_call \<Rightarrow> (Named \<rightharpoonup> ImageID) \<Rightarrow> (Named \<rightharpoonup> ImageID)" where
  "spec_exec (AddTagCall r i f) m = (if isCanonical r then m else spec_add (WithDefaultTag r) i f m)"
| "spec_exec (AddDigestCall r i f) m = spec_add r i f m"
| "spec_exec (DeleteCall r) m = m(WithDefaultTag r := None)"

definition newRefStore :: refStore where
  "newRefStore = snd (NewReferenceStore None None)"

definition refines :: "refStore \<Rightarrow> (Named \<rightharpoonup> ImageID) \<Rightarrow> bool" where
  "refines s m \<longleftrightarrow> rs_inv s \<and> (\<forall>r. proper r \<longrightarrow> tags s r = m r)"

lemma newRefStore_eq: "newRefStore = \<lparr>Repositories = fmempty, referencesByIDCache = fmempty, jsonFile = Some fmempty\<rparr>"
  by (simp add: newRefStore_def NewReferenceStore_def store_reload_def store_save_def)

lemma newRefStore_refines: "refines newRefStore Map.empty"
  by (simp add: newRefStore_eq refines_def rs_inv_def no_empty_def lookup2_def tags_def)

lemma refines_cong: "Repositories s' = Repositories s \<Longrightarrow> referencesByIDCache s' = referencesByIDCache s \<Longrightarrow> refines s' m = refines s m"
  using rs_inv_cong [of s' s] tags_cong [of s' s] by (simp add: refines_def)

lemma addReference_refines:
  assumes "refines s m" and r: "proper r"
  shows "refines (snd (store_addReference w r i force s)) (spec_add r i force m)"
proof -
  have inv: "rs_inv s" and t: "tags s r = m r" using assms by (simp_all add: refines_def)
  have "refines (setTag r i s) (m(r \<mapsto> i))"
    using assms(1) setTag_inv [OF inv r] by (simp add: refines_def)
  then have saved: "refines (snd (store_save w (setTag r i s))) (m(r \<mapsto> i))"
    by (subst refines_cong [of _ "setTag r i s"]) simp_all
  show ?thesis
    using assms(1) saved
    by (cases "m r") (auto simp: addReference_eq addRefusal_def spec_add_def t)
qed

lemma Delete_refines:
  assumes "refines s m" and r: "proper (WithDefaultTag r)"
  shows "refines (snd (store_Delete w r s)) (m(WithDefaultTag r := None))"
proof (cases "tags s (WithDefaultTag r)")
  case None
  with assms show ?thesis by (auto simp: Delete_eq Let_def refines_def)
next
  case (Some i)
  have inv: "rs_inv s" using assms by (simp add: refines_def)
  have "refines (delTag (WithDefaultTag r) i s) (m(WithDefaultTag r := None))"
    using assms(1) delTag_inv [OF inv r Some] by (simp add: refines_def)
  then have "refines (snd (store_save w (delTag (WithDefaultTag r) i s))) (m(WithDefaultTag r := None))"
    by (subst refines_cong [of _ "delTag (WithDefaultTag r) i s"]) simp_all
  with Some show ?thesis by (simp add: Delete_eq Let_def case_prod_unfold)
qed

lemma rs_exec_refines:
  assumes "refines s m" and "wf_call c"
  shows "refines (rs_exec (w, c) s) (spec_exec c m)"
proof (cases c)
  case (AddTagCall r i f)
  then show ?thesis
    using assms addReference_refines [OF assms(1) properI] by (simp add: store_AddTag_def)
next
  case (AddDigestCall r i f)
  then have "proper r" using assms(2) by (cases r) (simp_all add: proper_def)
  with AddDigestCall addReference_refines [OF assms(1)] show ?thesis by (simp add: store_AddDigest_def)
next
  case (DeleteCall r)
  then show ?thesis using assms Delete_refines [OF assms(1) properI] by simp
qed

lemma rs_history_refines:
  assumes "refines s m" and "\<forall>wc \<in> set cs. wf_call (snd wc)"
  shows "refines (fold rs_exec cs s) (fold (\<lambda>wc. spec_exec (snd wc)) cs m)"
  using assms
proof (induction cs arbitrary: s m)
  case (Cons wc cs)
  obtain w c where wc: "wc = (w, c)" by (rule prod.exhaust)
  have "refines (rs_exec wc s) (spec_exec (snd wc) m)" using Cons.prems rs_exec_refines wc by simp
  then show ?case using Cons.IH [of "rs_exec wc s" "spec_exec (snd wc) m"] Cons.prems(2) by simp
qed simp

lemma Get_tags: "store_Get r s = (case tags s (WithDefaultTag r) of None \<Rightarrow> Inl ErrDoesNotExist | Some i \<Rightarrow> Inr i)"
  by (simp add: store_Get_def tags_def lookup2_def Let_def split: option.split)

text \<open>
  C6: The tag store is a map from references to image ids: after any sequence of \<open>AddTag\<close>,
  \<open>AddDigest\<close> and \<open>Delete\<close> calls, with any outcome of the file writes, \<open>Get\<close> returns what the
  map holds for the reference (with the default tag), and \<open>References\<close> of an image lists
  exactly the references that the map sends to it, sorted and without repetition.
\<close>

theorem tag_store_refines_map:
  assumes "\<forall>wc \<in> set cs. wf_call (snd wc)" and "wf_ref r"
  shows "store_Get r (fold rs_exec cs newRefStore) =
           (case fold (\<lambda>wc. spec_exec (snd wc)) cs Map.empty (WithDefaultTag r) of
              None \<Rightarrow> Inl ErrDoesNotExist | Some i \<Rightarrow> Inr i) \<and>
         set (store_References i (fold rs_exec cs newRefStore)) =
           {q. proper q \<and> fold (\<lambda>wc. spec_exec (snd wc)) cs Map.empty q = Some i} \<and>
         distinct (store_References i (fold rs_exec cs newRefStore)) \<and>
         sorted (map Named_String (store_References i (fold rs_exec cs newRefStore)))"
proof -
  note ref = rs_history_refines [OF newRefStore_refines assms(1)]
  then have inv: "rs_inv (fold rs_exec cs newRefStore)" by (simp add: refines_def)
  show ?thesis
    using References_spec [OF inv, of i] ref properI [OF assms(2)] unfolding Get_tags by (auto simp: refines_def)
qed

lemma jsonFile_saved:
  "jsonFile (snd (store_save None s)) = Some (Repositories (snd (store_save None s)))"
  by (simp add: store_save_def)

lemma rs_exec_saved:
  assumes "jsonFile s = Some (Repositories s)"
  shows "jsonFile (rs_exec (None, c) s) = Some (Repositories (rs_exec (None, c) s))"
proof -
  have add: "jsonFile (snd (store_addReference None r i f s)) = Some (Repositories (snd (store_addReference None r i f s)))" for r i f
    using assms jsonFile_saved by (simp add: addReference_eq split: option.split)
  show ?thesis
    using assms add jsonFile_saved
    by (cases c) (simp_all add: store_AddTag_def store_AddDigest_def Delete_eq Let_def case_prod_unfold split: option.split)
qed

lemma rs_history_saved:
  assumes "jsonFile s = Some (Repositories s)"
  shows "jsonFile (fold (\<lambda>c. rs_exec (None, c)) cs s) = Some (Repositories (fold (\<lambda>c. rs_exec (None, c)) cs s))"
  using assms by (induction cs arbitrary: s) (simp_all add: rs_exec_saved)

lemma fold_exec_map: "fold (\<lambda>c. rs_exec (None, c)) cs = fold rs_exec (map (Pair None) cs)"
  by (simp add: fold_map comp_def)

text \<open>
  C19: A restart loses no tag: if every file write succeeded and every recorded name is in
  normal form, then a store opened on the file answers \<open>Get\<close> and \<open>References\<close> as the old
  one did.
\<close>

theorem tag_store_survives_restart:
  assumes "\<forall>c \<in> set cs. wf_call c" and "s = fold (\<lambda>c. rs_exec (None, c)) cs newRefStore"
    and "\<forall>r. proper r \<and> tags s r \<noteq> None \<longrightarrow> normal_name (Named_Name r)"
  shows "fst (NewReferenceStore w (jsonFile s)) = None \<and>
         store_Get r (snd (NewReferenceStore w (jsonFile s))) = store_Get r s \<and>
         set (store_References i (snd (NewReferenceStore w (jsonFile s)))) = set (store_References i s)"
proof -
  have "refines s (fold (\<lambda>wc. spec_exec (snd wc)) (map (Pair (None :: string option)) cs) Map.empty)"
    using rs_history_refines [OF newRefStore_refines, of "map (Pair None) cs"] assms(1,2)
    by (simp add: fold_exec_map)
  then have inv: "rs_inv s" by (simp add: refines_def)
  have saved: "jsonFile s = Some (Repositories s)"
    unfolding assms(2) by (rule rs_history_saved) (simp add: newRefStore_eq)
  obtain e s' where new: "NewReferenceStore w (jsonFile s) = (e, s')" by (rule prod.exhaust)
  have "e = None" "rs_inv s'" "Repositories s' = Repositories s"
    using reload_inv [OF inv saved _ new] assms(3) by blast+
  then show ?thesis
    using References_spec(1) [OF inv, of i] References_spec(1) [of s' i] tags_cong [of s' s] new by (simp add: Get_tags)
qed

text \<open>Concrete references: \<^verbatim>\<open>foo:v1\<close> and its store.\<close>

definition fooV1 :: Named where "fooV1 = TaggedRef ''foo'' ''v1''"

lemma wf_foo: "wf_name ''foo''"
  using ParseNamed_wf [OF ParseNamed_examples(2)] by simp

lemma wf_fooV1: "wf_ref fooV1"
  using wf_foo unfolding fooV1_def wf_ref.simps Tag_match by (simp add: lower_def digits_def)

lemma normal_foo: "normal_name ''foo''"
  by (rule normal_of_default) (simp_all add: isLowercase_def upper_def strips_again_def)

theorem tag_store_refines_map_witness:
  "store_Get fooV1 (fold rs_exec [(None, AddTagCall fooV1 ''img'' False)] newRefStore) = Inr ''img''"
  using tag_store_refines_map [of "[(None, AddTagCall fooV1 ''img'' False)]" fooV1] wf_fooV1
  by (simp add: fooV1_def spec_add_def WithDefaultTag_def del: fold_simps(2))

theorem tag_store_survives_restart_witness:
  "store_Get fooV1 (snd (NewReferenceStore None (jsonFile (fold (\<lambda>c. rs_exec (None, c)) [AddTagCall fooV1 ''img'' False] newRefStore)))) =
   store_Get fooV1 (fold (\<lambda>c. rs_exec (None, c)) [AddTagCall fooV1 ''img'' False] newRefStore)"
proof -
  let ?s = "fold (\<lambda>c. rs_exec (None, c)) [AddTagCall fooV1 ''img'' False] newRefStore"
  have "Repositories ?s = fmupd ''foo'' (fmupd ''foo:v1'' ''img'' fmempty) fmempty"
    by (simp add: store_AddTag_def store_addReference_def store_save_def newRefStore_eq fooV1_def WithDefaultTag_def Let_def)
  then have "\<forall>r. proper r \<and> tags ?s r \<noteq> None \<longrightarrow> normal_name (Named_Name r)"
    using normal_foo by (auto simp: tags_def lookup2_fmupd lookup2_def split: if_splits)
  with tag_store_survives_restart [of "[AddTagCall fooV1 ''img'' False]" ?s None fooV1] wf_fooV1 show ?thesis by simp
qed

end
