(* ===== verification/Layer_Store.thy ===== *)
theory Layer_Store
  imports Docker_Prelude
begin

text \<open>
  The layer store: \<^verbatim>\<open>src/layer/layer.go\<close> (chain ids), \<^verbatim>\<open>src/layer/ro_layer.go\<close>,
  \<^verbatim>\<open>src/layer/mounted_layer.go\<close> and \<^verbatim>\<open>src/layer/layer_store.go\<close>.

  Read-only layers are shared, mutated objects (their reference counts), reached by
  pointers from the layer map, from child layers and from mounts, so they live in a heap
  \<open>ro\<close> indexed by addresses.  A handle returned to a client is a fresh object: a pair of
  its own address and what it points to.  The graph driver, the metadata store, the tar
  splitter, the digest and the random source are the fields of a \<open>backend\<close>: functions
  that may fail in any way and that act on a world of any type; no assumption is made
  about them here.  A panic is a value of the result type, and the loops that follow
  parent pointers are partial functions, so that both have to be proved absent.
\<close>

section \<open>Chain identifiers\<close>

type_synonym ChainID = string
type_synonym DiffID = string

fun createChainIDFromParent :: "(bytes \<Rightarrow> string) \<Rightarrow> ChainID \<Rightarrow> DiffID list \<Rightarrow> ChainID" where
  "createChainIDFromParent digest parent [] = parent"
| "createChainIDFromParent digest parent (d # ds) =
     (if parent = [] then createChainIDFromParent digest d ds
      else createChainIDFromParent digest (digest (parent @ '' '' @ d)) ds)"

definition CreateChainID :: "(bytes \<Rightarrow> string) \<Rightarrow> DiffID list \<Rightarrow> ChainID" where
  "CreateChainID digest dgsts = createChainIDFromParent digest [] dgsts"

section \<open>State\<close>

datatype ls_error =
    ErrLayerDoesNotExist
  | ErrLayerNotRetained
  | ErrMountDoesNotExist
  | ErrMountNameConflict
  | ErrMaxDepthExceeded
  | ErrBackend string

datatype 'a outcome = Ok 'a | Err ls_error | Panic string

record Descriptor =
  MediaType :: string
  DSize :: int
  Digest :: string
  URLs :: "string list"

definition emptyDescriptor :: Descriptor where
  "emptyDescriptor = \<lparr>MediaType = [], DSize = 0, Digest = [], URLs = []\<rparr>"

record roLayer =
  chainID :: ChainID
  diffID :: DiffID
  parent :: "loc option"
  cacheID :: string
  lsize :: int
  descriptor :: Descriptor
  referenceCount :: int
  references :: "loc set"

record mountedLayer =
  mname :: string
  mountID :: string
  initID :: string
  mparent :: "loc option"
  mreferences :: "loc set"

record Metadata =
  MChainID :: ChainID
  MDiffID :: DiffID
  MSize :: int
  MDiffSize :: int

record 'w layerStore =
  ro :: "loc \<rightharpoonup> roLayer"
  layerMap :: "ChainID \<rightharpoonup> loc"
  mounts :: "string \<rightharpoonup> mountedLayer"
  nextLoc :: loc
  world :: 'w

text \<open>
  A handle: its own address and the layer it embeds (\<open>referencedCacheLayer\<close>), or its own
  address and the name of the mount it embeds (\<open>referencedRWLayer\<close>).
\<close>

type_synonym layerRef = "loc \<times> loc"
type_synonym rwLayerRef = "loc \<times> string"

record 'w backend =
  digestOf :: "bytes \<Rightarrow> string"
  randomID :: "'w \<Rightarrow> string \<times> 'w"
  inputTarStream :: "bytes \<Rightarrow> string + bytes"
  drvCreate :: "string \<Rightarrow> string \<Rightarrow> string \<Rightarrow> (string \<rightharpoonup> string) \<Rightarrow> 'w \<Rightarrow> string option \<times> 'w"
  drvCreateReadWrite :: "string \<Rightarrow> string \<Rightarrow> string \<Rightarrow> (string \<rightharpoonup> string) \<Rightarrow> 'w \<Rightarrow> string option \<times> 'w"
  drvRemove :: "string \<Rightarrow> 'w \<Rightarrow> string option \<times> 'w"
  drvGet :: "string \<Rightarrow> string \<Rightarrow> 'w \<Rightarrow> (string + string) \<times> 'w"
  drvPut :: "string \<Rightarrow> 'w \<Rightarrow> string option \<times> 'w"
  drvApplyDiff :: "string \<Rightarrow> string \<Rightarrow> bytes \<Rightarrow> 'w \<Rightarrow> (string + int) \<times> 'w"
  stStartTransaction :: "'w \<Rightarrow> (string + string) \<times> 'w"
  txTarSplitWriter :: "string \<Rightarrow> 'w \<Rightarrow> string option \<times> 'w"
  txSetDiffID :: "string \<Rightarrow> DiffID \<Rightarrow> 'w \<Rightarrow> string option \<times> 'w"
  txSetSize :: "string \<Rightarrow> int \<Rightarrow> 'w \<Rightarrow> string option \<times> 'w"
  txSetCacheID :: "string \<Rightarrow> string \<Rightarrow> 'w \<Rightarrow> string option \<times> 'w"
  txSetDescriptor :: "string \<Rightarrow> Descriptor \<Rightarrow> 'w \<Rightarrow> string option \<times> 'w"
  txSetParent :: "string \<Rightarrow> ChainID \<Rightarrow> 'w \<Rightarrow> string option \<times> 'w"
  txCommit :: "string \<Rightarrow> ChainID \<Rightarrow> 'w \<Rightarrow> string option \<times> 'w"
  txCancel :: "string \<Rightarrow> 'w \<Rightarrow> string option \<times> 'w"
  stRemove :: "ChainID \<Rightarrow> 'w \<Rightarrow> string option \<times> 'w"
  stSetMountID :: "string \<Rightarrow> string \<Rightarrow> 'w \<Rightarrow> string option \<times> 'w"
  stSetInitID :: "string \<Rightarrow> string \<Rightarrow> 'w \<Rightarrow> string option \<times> 'w"
  stSetMountParent :: "string \<Rightarrow> ChainID \<Rightarrow> 'w \<Rightarrow> string option \<times> 'w"
  stRemoveMount :: "string \<Rightarrow> 'w \<Rightarrow> string option \<times> 'w"

definition maxLayerDepth :: nat where
  "maxLayerDepth = 125"

text \<open>Run a backend call on the world of the store.\<close>

definition callW :: "('w \<Rightarrow> 'x \<times> 'w) \<Rightarrow> 'w layerStore \<Rightarrow> 'x \<times> 'w layerStore" where
  "callW f s = (case f (world s) of (x, w) \<Rightarrow> (x, s\<lparr>world := w\<rparr>))"

definition updRo :: "loc \<Rightarrow> (roLayer \<Rightarrow> roLayer) \<Rightarrow> 'w layerStore \<Rightarrow> 'w layerStore" where
  "updRo a f s = s\<lparr>ro := (ro s)(a := map_option f (ro s a))\<rparr>"

section \<open>Read-only layers\<close>

text \<open>\<open>roLayer.Size\<close> and \<open>roLayer.depth\<close> follow the parent pointers.\<close>

partial_function (option) roLayer_Size :: "(loc \<rightharpoonup> roLayer) \<Rightarrow> loc \<Rightarrow> int option" where
  "roLayer_Size h a =
     (case h a of
        None \<Rightarrow> None
      | Some l \<Rightarrow>
          (case parent l of
             None \<Rightarrow> Some (lsize l)
           | Some p \<Rightarrow> Option.bind (roLayer_Size h p) (\<lambda>n. Some (n + lsize l))))"

partial_function (option) roLayer_depth :: "(loc \<rightharpoonup> roLayer) \<Rightarrow> loc \<Rightarrow> nat option" where
  "roLayer_depth h a =
     (case h a of
        None \<Rightarrow> None
      | Some l \<Rightarrow>
          (case parent l of
             None \<Rightarrow> Some 1
           | Some p \<Rightarrow> Option.bind (roLayer_depth h p) (\<lambda>n. Some (n + 1))))"

definition roLayer_getReference :: "loc \<Rightarrow> 'w layerStore \<Rightarrow> layerRef \<times> 'w layerStore" where
  "roLayer_getReference a s =
     (let r = nextLoc s
      in ((r, a), (updRo a (\<lambda>l. l\<lparr>references := insert r (references l)\<rparr>) s)\<lparr>nextLoc := r + 1\<rparr>))"

definition roLayer_hasReference :: "roLayer \<Rightarrow> layerRef \<Rightarrow> bool" where
  "roLayer_hasReference l r \<longleftrightarrow> fst r \<in> references l"

definition roLayer_hasReferences :: "roLayer \<Rightarrow> bool" where
  "roLayer_hasReferences l \<longleftrightarrow> references l \<noteq> {}"

definition roLayer_deleteReference :: "layerRef \<Rightarrow> roLayer \<Rightarrow> roLayer" where
  "roLayer_deleteReference r l = l\<lparr>references := references l - {fst r}\<rparr>"

definition storeLayer ::
    "'w backend \<Rightarrow> string \<Rightarrow> roLayer \<Rightarrow> ChainID option \<Rightarrow> 'w layerStore \<Rightarrow> ls_error option \<times> 'w layerStore" where
  "storeLayer B tx l parentChain s =
     (case callW (txSetDiffID B tx (diffID l)) s of
        (Some e, s1) \<Rightarrow> (Some (ErrBackend e), s1)
      | (None, s1) \<Rightarrow>
     (case callW (txSetSize B tx (lsize l)) s1 of
        (Some e, s2) \<Rightarrow> (Some (ErrBackend e), s2)
      | (None, s2) \<Rightarrow>
     (case callW (txSetCacheID B tx (cacheID l)) s2 of
        (Some e, s3) \<Rightarrow> (Some (ErrBackend e), s3)
      | (None, s3) \<Rightarrow>
     (case (if Digest (descriptor l) \<noteq> [] then callW (txSetDescriptor B tx (descriptor l)) s3
            else (None, s3)) of
        (Some e, s4) \<Rightarrow> (Some (ErrBackend e), s4)
      | (None, s4) \<Rightarrow>
     (case parentChain of
        None \<Rightarrow> (None, s4)
      | Some pc \<Rightarrow>
          (case callW (txSetParent B tx pc) s4 of
             (Some e, s5) \<Rightarrow> (Some (ErrBackend e), s5)
           | (None, s5) \<Rightarrow> (None, s5)))))))"

section \<open>Lookup and release\<close>

definition layerStore_getWithoutLock :: "ChainID \<Rightarrow> 'w layerStore \<Rightarrow> loc option \<times> 'w layerStore" where
  "layerStore_getWithoutLock c s =
     (case layerMap s c of
        None \<Rightarrow> (None, s)
      | Some a \<Rightarrow> (Some a, updRo a (\<lambda>l. l\<lparr>referenceCount := referenceCount l + 1\<rparr>) s))"

definition layerStore_Get :: "ChainID \<Rightarrow> 'w layerStore \<Rightarrow> layerRef outcome \<times> 'w layerStore" where
  "layerStore_Get c s =
     (case layerStore_getWithoutLock c s of
        (None, s1) \<Rightarrow> (Err ErrLayerDoesNotExist, s1)
      | (Some a, s1) \<Rightarrow> (case roLayer_getReference a s1 of (r, s2) \<Rightarrow> (Ok r, s2)))"

text \<open>\<open>deleteLayer\<close> asks the driver, then the metadata store; \<open>None\<close> only if \<open>Size\<close> does not return.\<close>

definition layerStore_deleteLayer ::
    "'w backend \<Rightarrow> loc \<Rightarrow> roLayer \<Rightarrow> 'w layerStore \<Rightarrow> ((ls_error + Metadata) \<times> 'w layerStore) option" where
  "layerStore_deleteLayer B a l s =
     (case callW (drvRemove B (cacheID l)) s of
        (Some e, s1) \<Rightarrow> Some (Inl (ErrBackend e), s1)
      | (None, s1) \<Rightarrow>
     (case callW (stRemove B (chainID l)) s1 of
        (Some e, s2) \<Rightarrow> Some (Inl (ErrBackend e), s2)
      | (None, s2) \<Rightarrow>
          Option.bind (roLayer_Size (ro s2) a)
            (\<lambda>n. Some (Inr \<lparr>MChainID = chainID l, MDiffID = diffID l, MSize = n, MDiffSize = lsize l\<rparr>,
                       s2))))"

partial_function (option) releaseLoop ::
    "'w backend \<Rightarrow> loc \<Rightarrow> nat \<Rightarrow> Metadata list \<Rightarrow> 'w layerStore \<Rightarrow>
     (Metadata list outcome \<times> 'w layerStore) option" where
  "releaseLoop B a depth removed s =
     (case ro s a of
        None \<Rightarrow> None
      | Some l \<Rightarrow>
          if referenceCount l = 0 then Some (Panic ''layer not retained'', s)
          else if referenceCount l - 1 \<noteq> 0 then
            Some (Ok removed, updRo a (\<lambda>l. l\<lparr>referenceCount := referenceCount l - 1\<rparr>) s)
          else if removed = [] \<and> depth > 0 then
            Some (Panic ''cannot remove layer with child'',
                  updRo a (\<lambda>l. l\<lparr>referenceCount := referenceCount l - 1\<rparr>) s)
          else if roLayer_hasReferences l then
            Some (Panic ''cannot delete referenced layer'',
                  updRo a (\<lambda>l. l\<lparr>referenceCount := referenceCount l - 1\<rparr>) s)
          else
            Option.bind
              (layerStore_deleteLayer B a l (updRo a (\<lambda>l. l\<lparr>referenceCount := referenceCount l - 1\<rparr>) s))
              (\<lambda>(res, s1).
                 case res of
                   Inl e \<Rightarrow> Some (Err e, s1)
                 | Inr md \<Rightarrow>
                     (case parent l of
                        None \<Rightarrow> Some (Ok (removed @ [md]), s1\<lparr>layerMap := (layerMap s1)(chainID l := None)\<rparr>)
                      | Some p \<Rightarrow>
                          releaseLoop B p (depth + 1) (removed @ [md])
                            (s1\<lparr>layerMap := (layerMap s1)(chainID l := None)\<rparr>))))"

definition layerStore_releaseLayer ::
    "'w backend \<Rightarrow> loc \<Rightarrow> 'w layerStore \<Rightarrow> (Metadata list outcome \<times> 'w layerStore) option" where
  "layerStore_releaseLayer B a s = releaseLoop B a 0 [] s"

definition layerStore_Release ::
    "'w backend \<Rightarrow> layerRef \<Rightarrow> 'w layerStore \<Rightarrow> (Metadata list outcome \<times> 'w layerStore) option" where
  "layerStore_Release B r s =
     (case ro s (snd r) of
        None \<Rightarrow> None
      | Some rl \<Rightarrow>
          (case layerMap s (chainID rl) of
             None \<Rightarrow> Some (Ok [], s)
           | Some a \<Rightarrow>
               (case ro s a of
                  None \<Rightarrow> None
                | Some l \<Rightarrow>
                    if \<not> roLayer_hasReference l r then Some (Err ErrLayerNotRetained, s)
                    else layerStore_releaseLayer B a (updRo a (roLayer_deleteReference r) s))))"

section \<open>Registering a layer\<close>

definition layerStore_applyTar ::
    "'w backend \<Rightarrow> string \<Rightarrow> bytes \<Rightarrow> string \<Rightarrow> string \<Rightarrow> 'w layerStore \<Rightarrow>
     (ls_error + int \<times> DiffID) \<times> 'w layerStore" where
  "layerStore_applyTar B tx ts pid cache s =
     (case callW (txTarSplitWriter B tx) s of
        (Some e, s1) \<Rightarrow> (Inl (ErrBackend e), s1)
      | (None, s1) \<Rightarrow>
          (case inputTarStream B ts of
             Inl e \<Rightarrow> (Inl (ErrBackend e), s1)
           | Inr rdr \<Rightarrow>
               (case callW (drvApplyDiff B cache pid rdr) s1 of
                  (Inl e, s2) \<Rightarrow> (Inl (ErrBackend e), s2)
                | (Inr applySize, s2) \<Rightarrow> (Inr (applySize, digestOf B ts), s2))))"

text \<open>The deferred clean-up of the driver layer and of the metadata transaction; errors are only logged.\<close>

definition registerCleanup :: "'w backend \<Rightarrow> string \<Rightarrow> string \<Rightarrow> 'w layerStore \<Rightarrow> 'w layerStore" where
  "registerCleanup B cache tx s = snd (callW (txCancel B tx) (snd (callW (drvRemove B cache) s)))"

text \<open>
  The part of \<open>registerWithDescriptor\<close> under \<open>layerL\<close>.  The Boolean says whether the
  variable \<open>err\<close> is set on return: it triggers the deferred clean-ups, also when the layer
  already exists and a handle is returned.
\<close>

definition registerCommit ::
    "'w backend \<Rightarrow> string \<Rightarrow> roLayer \<Rightarrow> 'w layerStore \<Rightarrow> (bool \<times> layerRef outcome) \<times> 'w layerStore" where
  "registerCommit B tx l s =
     (case layerStore_getWithoutLock (chainID l) s of
        (Some a, s1) \<Rightarrow> (case roLayer_getReference a s1 of (r, s2) \<Rightarrow> ((True, Ok r), s2))
      | (None, s1) \<Rightarrow>
          (case callW (txCommit B tx (chainID l)) s1 of
             (Some e, s2) \<Rightarrow> ((True, Err (ErrBackend e)), s2)
           | (None, s2) \<Rightarrow>
               (let a = nextLoc s2;
                    s3 = s2\<lparr>ro := (ro s2)(a \<mapsto> l), layerMap := (layerMap s2)(chainID l \<mapsto> a),
                            nextLoc := a + 1\<rparr>
                in case roLayer_getReference a s3 of (r, s4) \<Rightarrow> ((False, Ok r), s4))))"

text \<open>Applying the tar stream, writing the metadata and committing, with a transaction open.\<close>

definition registerFill ::
    "'w backend \<Rightarrow> string \<Rightarrow> string \<Rightarrow> loc option \<Rightarrow> roLayer option \<Rightarrow> bytes \<Rightarrow> Descriptor \<Rightarrow> 'w layerStore \<Rightarrow>
     (bool \<times> layerRef outcome) \<times> 'w layerStore" where
  "registerFill B tx cache p pl ts desc s =
     (case layerStore_applyTar B tx ts (case pl of None \<Rightarrow> [] | Some q \<Rightarrow> cacheID q) cache s of
        (Inl e, s3) \<Rightarrow> ((True, Err e), registerCleanup B cache tx s3)
      | (Inr (n, d), s3) \<Rightarrow>
          (let l = \<lparr>chainID = (case pl of None \<Rightarrow> d
                              | Some q \<Rightarrow> createChainIDFromParent (digestOf B) (chainID q) [d]),
                    diffID = d, parent = p, cacheID = cache, lsize = n, descriptor = desc,
                    referenceCount = 1, references = {}\<rparr>
           in case storeLayer B tx l (map_option chainID pl) s3 of
                (Some e, s4) \<Rightarrow> ((True, Err e), registerCleanup B cache tx s4)
              | (None, s4) \<Rightarrow>
                  (case registerCommit B tx l s4 of
                     ((failed, res), s5) \<Rightarrow>
                       ((failed, res), if failed then registerCleanup B cache tx s5 else s5))))"

definition registerBody ::
    "'w backend \<Rightarrow> loc option \<Rightarrow> bytes \<Rightarrow> Descriptor \<Rightarrow> 'w layerStore \<Rightarrow>
     (bool \<times> layerRef outcome) \<times> 'w layerStore" where
  "registerBody B p ts desc s =
     (let pl = Option.bind p (ro s);
          pid = (case pl of None \<Rightarrow> [] | Some l \<Rightarrow> cacheID l)
      in case callW (randomID B) s of
        (cache, s0) \<Rightarrow>
     (case callW (drvCreate B cache pid [] Map.empty) s0 of
        (Some e, s1) \<Rightarrow> ((True, Err (ErrBackend e)), s1)
      | (None, s1) \<Rightarrow>
     (case callW (stStartTransaction B) s1 of
        (Inl e, s2) \<Rightarrow> ((True, Err (ErrBackend e)), s2)
      | (Inr tx, s2) \<Rightarrow> registerFill B tx cache p pl ts desc s2)))"

text \<open>The deferred release of the parent chain; its result is dropped, a panic is not.\<close>

definition releaseParent ::
    "'w backend \<Rightarrow> loc \<Rightarrow> 'r outcome \<Rightarrow> 'w layerStore \<Rightarrow> ('r outcome \<times> 'w layerStore) option" where
  "releaseParent B p res s =
     Option.bind (layerStore_releaseLayer B p s)
       (\<lambda>(r, s'). Some ((case r of Panic m \<Rightarrow> Panic m | _ \<Rightarrow> res), s'))"

definition layerStore_registerWithDescriptor ::
    "'w backend \<Rightarrow> bytes \<Rightarrow> ChainID \<Rightarrow> Descriptor \<Rightarrow> 'w layerStore \<Rightarrow>
     (layerRef outcome \<times> 'w layerStore) option" where
  "layerStore_registerWithDescriptor B ts parentC desc s =
     (if parentC = [] then (case registerBody B None ts desc s of ((_, res), s') \<Rightarrow> Some (res, s'))
      else case layerStore_getWithoutLock parentC s of
        (None, s1) \<Rightarrow> Some (Err ErrLayerDoesNotExist, s1)
      | (Some p, s1) \<Rightarrow>
          Option.bind (roLayer_depth (ro s1) p)
            (\<lambda>d. if maxLayerDepth \<le> d then releaseParent B p (Err ErrMaxDepthExceeded) s1
                 else case registerBody B (Some p) ts desc s1 of
                        ((failed, res), s2) \<Rightarrow>
                          if failed then releaseParent B p res s2 else Some (res, s2)))"

definition layerStore_Register ::
    "'w backend \<Rightarrow> bytes \<Rightarrow> ChainID \<Rightarrow> 'w layerStore \<Rightarrow> (layerRef outcome \<times> 'w layerStore) option" where
  "layerStore_Register B ts parentC s =
     layerStore_registerWithDescriptor B ts parentC emptyDescriptor s"

section \<open>Mounts\<close>

definition mountedLayer_getReference :: "string \<Rightarrow> 'w layerStore \<Rightarrow> rwLayerRef \<times> 'w layerStore" where
  "mountedLayer_getReference name s =
     (let r = nextLoc s
      in ((r, name),
          s\<lparr>mounts := (mounts s)(name := map_option (\<lambda>m. m\<lparr>mreferences := insert r (mreferences m)\<rparr>)
                                         (mounts s name)),
            nextLoc := r + 1\<rparr>))"

definition layerStore_initMount ::
    "'w backend \<Rightarrow> string \<Rightarrow> string \<Rightarrow> string \<Rightarrow> (string \<Rightarrow> 'w \<Rightarrow> string option \<times> 'w) \<Rightarrow>
     (string \<rightharpoonup> string) \<Rightarrow> 'w layerStore \<Rightarrow> (ls_error + string) \<times> 'w layerStore" where
  "layerStore_initMount B graphID pid mountLabel initFunc storageOpt s =
     (let init = graphID @ ''-init''
      in case callW (drvCreate B init pid mountLabel storageOpt) s of
        (Some e, s1) \<Rightarrow> (Inl (ErrBackend e), s1)
      | (None, s1) \<Rightarrow>
     (case callW (drvGet B init []) s1 of
        (Inl e, s2) \<Rightarrow> (Inl (ErrBackend e), s2)
      | (Inr path, s2) \<Rightarrow>
     (case callW (initFunc path) s2 of
        (Some e, s3) \<Rightarrow> (Inl (ErrBackend e), snd (callW (drvPut B init) s3))
      | (None, s3) \<Rightarrow>
          (case callW (drvPut B init) s3 of
             (Some e, s4) \<Rightarrow> (Inl (ErrBackend e), s4)
           | (None, s4) \<Rightarrow> (Inr init, s4)))))"

definition layerStore_saveMount ::
    "'w backend \<Rightarrow> mountedLayer \<Rightarrow> 'w layerStore \<Rightarrow> ls_error option \<times> 'w layerStore" where
  "layerStore_saveMount B m s =
     (case callW (stSetMountID B (mname m) (mountID m)) s of
        (Some e, s1) \<Rightarrow> (Some (ErrBackend e), s1)
      | (None, s1) \<Rightarrow>
     (case (if initID m \<noteq> [] then callW (stSetInitID B (mname m) (initID m)) s1 else (None, s1)) of
        (Some e, s2) \<Rightarrow> (Some (ErrBackend e), s2)
      | (None, s2) \<Rightarrow>
     (case (case Option.bind (mparent m) (ro s2) of
              None \<Rightarrow> (None, s2)
            | Some p \<Rightarrow> callW (stSetMountParent B (mname m) (chainID p)) s2) of
        (Some e, s3) \<Rightarrow> (Some (ErrBackend e), s3)
      | (None, s3) \<Rightarrow> (None, s3\<lparr>mounts := (mounts s3)(mname m \<mapsto> m)\<rparr>))))"

definition createRWBody ::
    "'w backend \<Rightarrow> string \<Rightarrow> loc option \<Rightarrow> string \<Rightarrow> (string \<Rightarrow> 'w \<Rightarrow> string option \<times> 'w) option \<Rightarrow>
     (string \<rightharpoonup> string) \<Rightarrow> 'w layerStore \<Rightarrow> rwLayerRef outcome \<times> 'w layerStore" where
  "createRWBody B name p mountLabel initFunc storageOpt s =
     (let pid = (case Option.bind p (ro s) of None \<Rightarrow> [] | Some l \<Rightarrow> cacheID l)
      in case callW (randomID B) s of
        (mid, s0) \<Rightarrow>
     (case (case initFunc of
              None \<Rightarrow> (Inr (pid, []), s0)
            | Some f \<Rightarrow>
                (case layerStore_initMount B mid pid mountLabel f storageOpt s0 of
                   (Inl e, s1) \<Rightarrow> (Inl e, s1)
                 | (Inr i, s1) \<Rightarrow> (Inr (i, i), s1))) of
        (Inl e, s1) \<Rightarrow> (Err e, s1)
      | (Inr (pid', init), s1) \<Rightarrow>
     (case callW (drvCreateReadWrite B mid pid' [] storageOpt) s1 of
        (Some e, s2) \<Rightarrow> (Err (ErrBackend e), s2)
      | (None, s2) \<Rightarrow>
     (case layerStore_saveMount B \<lparr>mname = name, mountID = mid, initID = init, mparent = p,
                                    mreferences = {}\<rparr> s2 of
        (Some e, s3) \<Rightarrow> (Err e, s3)
      | (None, s3) \<Rightarrow> (case mountedLayer_getReference name s3 of (r, s4) \<Rightarrow> (Ok r, s4))))))"

definition layerStore_CreateRWLayer ::
    "'w backend \<Rightarrow> string \<Rightarrow> ChainID \<Rightarrow> string \<Rightarrow> (string \<Rightarrow> 'w \<Rightarrow> string option \<times> 'w) option \<Rightarrow>
     (string \<rightharpoonup> string) \<Rightarrow> 'w layerStore \<Rightarrow> (rwLayerRef outcome \<times> 'w layerStore) option" where
  "layerStore_CreateRWLayer B name parentC mountLabel initFunc storageOpt s =
     (case mounts s name of
        Some _ \<Rightarrow> Some (Err ErrMountNameConflict, s)
      | None \<Rightarrow>
          if parentC = [] then Some (createRWBody B name None mountLabel initFunc storageOpt s)
          else
            (case layerStore_getWithoutLock parentC s of
               (None, s1) \<Rightarrow> Some (Err ErrLayerDoesNotExist, s1)
             | (Some p, s1) \<Rightarrow>
                 (case createRWBody B name (Some p) mountLabel initFunc storageOpt s1 of
                    (Err e, s2) \<Rightarrow> releaseParent B p (Err e) s2
                  | (res, s2) \<Rightarrow> Some (res, s2))))"

definition layerStore_GetRWLayer :: "string \<Rightarrow> 'w layerStore \<Rightarrow> rwLayerRef outcome \<times> 'w layerStore" where
  "layerStore_GetRWLayer name s =
     (case mounts s name of
        None \<Rightarrow> (Err ErrMountDoesNotExist, s)
      | Some m \<Rightarrow> (case mountedLayer_getReference name s of (r, s1) \<Rightarrow> (Ok r, s1)))"

definition layerStore_GetMountID :: "string \<Rightarrow> 'w layerStore \<Rightarrow> ls_error + string" where
  "layerStore_GetMountID name s =
     (case mounts s name of None \<Rightarrow> Inl ErrMountDoesNotExist | Some m \<Rightarrow> Inr (mountID m))"

definition layerStore_ReleaseRWLayer ::
    "'w backend \<Rightarrow> rwLayerRef \<Rightarrow> 'w layerStore \<Rightarrow> (Metadata list outcome \<times> 'w layerStore) option" where
  "layerStore_ReleaseRWLayer B r s =
     (case mounts s (snd r) of
        None \<Rightarrow> Some (Ok [], s)
      | Some m \<Rightarrow>
          if fst r \<notin> mreferences m then Some (Err ErrLayerNotRetained, s)
          else if mreferences m - {fst r} \<noteq> {} then
            Some (Ok [], s\<lparr>mounts := (mounts s)(snd r \<mapsto> m\<lparr>mreferences := mreferences m - {fst r}\<rparr>)\<rparr>)
          else
            \<comment> \<open>the last handle; on an error of the backend it is retaken\<close>
            (case callW (drvRemove B (mountID m)) s of
               (Some e, s1) \<Rightarrow> Some (Err (ErrBackend e), s1)
             | (None, s1) \<Rightarrow>
            (case (if initID m \<noteq> [] then callW (drvRemove B (initID m)) s1 else (None, s1)) of
               (Some e, s2) \<Rightarrow> Some (Err (ErrBackend e), s2)
             | (None, s2) \<Rightarrow>
            (case callW (stRemoveMount B (mname m)) s2 of
               (Some e, s3) \<Rightarrow> Some (Err (ErrBackend e), s3)
             | (None, s3) \<Rightarrow>
                 (let s4 = s3\<lparr>mounts := (mounts s3)(mname m := None)\<rparr>
                  in case mparent m of
                       None \<Rightarrow> Some (Ok [], s4)
                     | Some p \<Rightarrow> layerStore_releaseLayer B p s4)))))"

end
