(* ===== verification/Layer_Refcount.thy ===== *)
theory Layer_Refcount
  imports Layer_Store
begin

text \<open>
  The reference counts of the layer store.  A layer that is in the layer map counts the
  handles to it, the child layers in the map, the mounts on top of it, and the calls that
  are under way and have taken a count with \<open>get\<close> (the multiset \<open>held\<close>).  Every critical
  section of the code keeps this balance, whatever the driver and the metadata store
  answer; it follows that no panic is reachable and that a layer in use is never removed.
\<close>

section \<open>The balance of the counts\<close>

definition live :: "'w layerStore \<Rightarrow> loc set" where
  "live s = ran (layerMap s)"

definition childrenOf :: "'w layerStore \<Rightarrow> loc \<Rightarrow> loc set" where
  "childrenOf s a = {b \<in> live s. \<exists>l. ro s b = Some l \<and> parent l = Some a}"

definition mountsOf :: "'w layerStore \<Rightarrow> loc \<Rightarrow> string set" where
  "mountsOf s a = {n. \<exists>m. mounts s n = Some m \<and> mparent m = Some a}"

definition layer_ok :: "loc multiset \<Rightarrow> 'w layerStore \<Rightarrow> ChainID \<Rightarrow> loc \<Rightarrow> roLayer \<Rightarrow> bool" where
  "layer_ok held s c a l \<longleftrightarrow>
     chainID l = c \<and> a < nextLoc s \<and> finite (references l) \<and> (\<forall>r \<in> references l. r < nextLoc s) \<and>
     referenceCount l =
       int (card (references l) + card (childrenOf s a) + card (mountsOf s a) + count held a) \<and>
     (\<forall>p. parent l = Some p \<longrightarrow> p < a \<and> p \<in> live s)"

definition ls_inv :: "loc multiset \<Rightarrow> 'w layerStore \<Rightarrow> bool" where
  "ls_inv held s \<longleftrightarrow>
     finite (dom (layerMap s)) \<and> finite (dom (mounts s)) \<and> set_mset held \<subseteq> live s \<and>
     (\<forall>c a. layerMap s c = Some a \<longrightarrow> (\<exists>l. ro s a = Some l \<and> layer_ok held s c a l)) \<and>
     (\<forall>n m. mounts s n = Some m \<longrightarrow> mname m = n \<and> (\<forall>p. mparent m = Some p \<longrightarrow> p \<in> live s))"

lemma ls_invI:
  assumes "finite (dom (layerMap s))" "finite (dom (mounts s))" "set_mset held \<subseteq> live s"
    and "\<And>c a. layerMap s c = Some a \<Longrightarrow> \<exists>l. ro s a = Some l \<and> layer_ok held s c a l"
    and "\<And>n m. mounts s n = Some m \<Longrightarrow> mname m = n"
    and "\<And>n m p. mounts s n = Some m \<Longrightarrow> mparent m = Some p \<Longrightarrow> p \<in> live s"
  shows "ls_inv held s"
  unfolding ls_inv_def using assms by blast

lemma ls_inv_finite: "ls_inv held s \<Longrightarrow> finite (dom (layerMap s))" "ls_inv held s \<Longrightarrow> finite (dom (mounts s))"
  by (simp_all add: ls_inv_def)

lemma ls_inv_mount:
  "ls_inv held s \<Longrightarrow> mounts s n = Some m \<Longrightarrow> mname m = n"
  "ls_inv held s \<Longrightarrow> mounts s n = Some m \<Longrightarrow> mparent m = Some p \<Longrightarrow> p \<in> live s"
  by (auto simp: ls_inv_def)

lemma ls_inv_live:
  assumes "ls_inv held s" and "a \<in> live s"
  obtains c l where "layerMap s c = Some a" "ro s a = Some l" "layer_ok held s c a l"
proof -
  obtain c where c: "layerMap s c = Some a" using assms(2) by (auto simp: live_def ran_def)
  with assms(1) obtain l where "ro s a = Some l" "layer_ok held s c a l"
    unfolding ls_inv_def by blast
  with c show thesis by (rule that)
qed

lemma ls_inv_at:
  assumes "ls_inv held s" and "a \<in> live s" and "ro s a = Some l"
  shows "layerMap s (chainID l) = Some a" and "layer_ok held s (chainID l) a l"
  using ls_inv_live [OF assms(1,2)] assms(3) by (auto simp: layer_ok_def)

lemma ls_inv_chain:
  "ls_inv held s \<Longrightarrow> layerMap s c = Some a \<Longrightarrow> ro s a = Some l \<Longrightarrow> chainID l = c"
  by (auto simp: ls_inv_def layer_ok_def dest!: spec [of _ c] spec [of _ a])

lemma ls_inv_heldD: "ls_inv (add_mset a held) s \<Longrightarrow> a \<in> live s"
  by (simp add: ls_inv_def)

lemma ls_inv_held:
  "ls_inv held s \<Longrightarrow> set_mset held \<subseteq> live s"
  "ls_inv (add_mset a held) s \<Longrightarrow> set_mset held \<subseteq> live s"
  by (simp_all add: ls_inv_def)

lemma live_lt: "ls_inv held s \<Longrightarrow> b \<in> live s \<Longrightarrow> b < nextLoc s"
  by (erule ls_inv_live, assumption) (simp only: layer_ok_def)

lemma finite_live: "ls_inv held s \<Longrightarrow> finite (live s)"
  by (simp add: ls_inv_def live_def finite_ran)

lemma finite_childrenOf: "ls_inv held s \<Longrightarrow> finite (childrenOf s a)"
  by (rule finite_subset [OF _ finite_live]) (auto simp: childrenOf_def)

lemma finite_mountsOf: "ls_inv held s \<Longrightarrow> finite (mountsOf s a)"
  by (rule finite_subset [of _ "dom (mounts s)"]) (auto simp: mountsOf_def ls_inv_def)

subsection \<open>Changes that the balance does not see\<close>

lemma live_world [simp]:
  "live (s\<lparr>world := w\<rparr>) = live s" "childrenOf (s\<lparr>world := w\<rparr>) a = childrenOf s a"
  "mountsOf (s\<lparr>world := w\<rparr>) a = mountsOf s a"
  "layer_ok held (s\<lparr>world := w\<rparr>) c a l = layer_ok held s c a l"
  by (simp_all add: live_def childrenOf_def mountsOf_def layer_ok_def)

lemma ls_inv_world [simp]: "ls_inv held (s\<lparr>world := w\<rparr>) = ls_inv held s"
  by (simp add: ls_inv_def)

lemma callW_world: "callW f s = (x, s') \<Longrightarrow> \<exists>w. s' = s\<lparr>world := w\<rparr>"
  by (auto simp: callW_def split: prod.splits)

lemma snd_callW_world: "\<exists>w. snd (callW f s) = s\<lparr>world := w\<rparr>"
  by (cases "f (world s)") (auto simp: callW_def)

lemma updRo_sel [simp]:
  "ro (updRo a f s) b = (if b = a then map_option f (ro s a) else ro s b)"
  "layerMap (updRo a f s) = layerMap s" "mounts (updRo a f s) = mounts s"
  "nextLoc (updRo a f s) = nextLoc s" "world (updRo a f s) = world s"
  by (simp_all add: updRo_def)

lemma updRo_live [simp]: "live (updRo a f s) = live s" "mountsOf (updRo a f s) b = mountsOf s b"
  by (simp_all add: live_def mountsOf_def)

lemma updRo_childrenOf:
  assumes "\<And>l. ro s a = Some l \<Longrightarrow> parent (f l) = parent l"
  shows "childrenOf (updRo a f s) b = childrenOf s b"
proof -
  have "(\<exists>l. ro (updRo a f s) x = Some l \<and> parent l = Some b) \<longleftrightarrow> (\<exists>l. ro s x = Some l \<and> parent l = Some b)" for x
    using assms by (cases "x = a"; cases "ro s a") auto
  then show ?thesis by (simp add: childrenOf_def)
qed

text \<open>
  One layer changes its count, its handles and the calls that hold it, in step; every
  other part of the balance is as it was.
\<close>

lemma updRo_inv:
  assumes inv: "ls_inv held s" and l: "ro s a = Some l" and a: "a \<in> live s"
    and same: "chainID (f l) = chainID l" "parent (f l) = parent l"
    and refs: "finite (references (f l))" "\<And>r. r \<in> references (f l) \<Longrightarrow> r < nextLoc s"
    and bal: "referenceCount (f l) - int (card (references (f l)) + count held' a)
                = referenceCount l - int (card (references l) + count held a)"
    and held: "\<And>b. b \<noteq> a \<Longrightarrow> count held' b = count held b" "set_mset held' \<subseteq> live s"
  shows "ls_inv held' (updRo a f s)"
proof -
  have ch: "childrenOf (updRo a f s) b = childrenOf s b" for b
    using l same(2) by (intro updRo_childrenOf) auto
  have "\<exists>l'. ro (updRo a f s) b = Some l' \<and> layer_ok held' (updRo a f s) c b l'"
    if c: "layerMap s c = Some b" for b c
  proof -
    from c have "b \<in> live s" by (auto simp: live_def ran_def)
    then obtain k where k: "ro s b = Some k" using inv by (elim ls_inv_live)
    with inv \<open>b \<in> live s\<close> have ok: "layer_ok held s (chainID k) b k" and "chainID k = c"
      using ls_inv_at(2) c ls_inv_def layer_ok_def by (blast, fastforce)
    show ?thesis
    proof (cases "b = a")
      case True
      with k l ok \<open>chainID k = c\<close> same refs bal show ?thesis
        by (auto simp: layer_ok_def ch)
    next
      case False
      with k ok \<open>chainID k = c\<close> held(1) [OF False] show ?thesis
        by (auto simp: layer_ok_def ch)
    qed
  qed
  then show ?thesis
    using inv held(2) by (auto simp: ls_inv_def)
qed

subsection \<open>The moves of one count\<close>

abbreviation incRef :: "roLayer \<Rightarrow> roLayer" where
  "incRef l \<equiv> l\<lparr>referenceCount := referenceCount l + 1\<rparr>"

abbreviation decRef :: "roLayer \<Rightarrow> roLayer" where
  "decRef l \<equiv> l\<lparr>referenceCount := referenceCount l - 1\<rparr>"

lemma inc_inv:
  assumes inv: "ls_inv held s" and c: "layerMap s c = Some a"
  shows "ls_inv (add_mset a held) (updRo a incRef s)"
proof -
  have a: "a \<in> live s" using c by (auto simp: live_def ran_def)
  then obtain l where l: "ro s a = Some l" using inv by (elim ls_inv_live)
  note ok = ls_inv_at(2) [OF inv a l]
  show ?thesis
    using inv a ok by (intro updRo_inv [OF inv l a]) (auto simp: layer_ok_def ls_inv_def)
qed

lemma dec_inv:
  assumes inv: "ls_inv (add_mset a held) s" and l: "ro s a = Some l"
  shows "ls_inv held (updRo a decRef s)" and "1 \<le> referenceCount l"
proof -
  note a = ls_inv_heldD [OF inv]
  note ok = ls_inv_at(2) [OF inv a l]
  show "ls_inv held (updRo a decRef s)"
    using inv ok by (intro updRo_inv [OF inv l a]) (auto simp: layer_ok_def ls_inv_def)
  show "1 \<le> referenceCount l"
    using ok by (simp add: layer_ok_def)
qed

lemma fresh_nextLoc: "ls_inv held s \<Longrightarrow> ls_inv held (s\<lparr>nextLoc := nextLoc s + n\<rparr>)"
proof -
  let ?s = "s\<lparr>nextLoc := nextLoc s + n\<rparr>"
  assume inv: "ls_inv held s"
  have same: "live ?s = live s" "childrenOf ?s a = childrenOf s a" "mountsOf ?s a = mountsOf s a" for a
    by (simp_all add: live_def childrenOf_def mountsOf_def)
  have ok: "layer_ok held ?s c a l" if "layer_ok held s c a l" for c a l
    using that unfolding layer_ok_def same by (simp add: trans_less_add1)
  show ?thesis
    using inv ok unfolding ls_inv_def same by (metis (no_types, lifting) layerStore.select_convs layerStore.update_convs(4) layerStore.surjective)
qed

lemma getReference_inv:
  assumes inv: "ls_inv (add_mset a held) s"
  shows "ls_inv held (snd (roLayer_getReference a s))"
proof -
  let ?s = "s\<lparr>nextLoc := nextLoc s + 1\<rparr>"
  let ?f = "\<lambda>l. l\<lparr>references := insert (nextLoc s) (references l)\<rparr>"
  note a = ls_inv_heldD [OF inv]
  obtain l where l: "ro s a = Some l" using ls_inv_live [OF inv a] by blast
  note ok = ls_inv_at(2) [OF inv a l]
  have inv1: "ls_inv (add_mset a held) ?s" using fresh_nextLoc [OF inv, of 1] by simp
  have l1: "ro ?s a = Some l" and a1: "a \<in> live ?s" using l a by (simp_all add: live_def)
  have new: "nextLoc s \<notin> references l" "finite (references l)" "\<forall>r \<in> references l. r < nextLoc s"
    using ok by (auto simp: layer_ok_def)
  have "ls_inv held (updRo a ?f ?s)"
    using new ls_inv_held(2) [OF inv1] by (intro updRo_inv [OF inv1 l1 a1]) (auto simp: less_Suc_eq)
  also have "updRo a ?f ?s = snd (roLayer_getReference a s)"
    by (simp add: roLayer_getReference_def updRo_def Let_def)
  finally show ?thesis .
qed

lemma deleteReference_inv:
  assumes inv: "ls_inv held s" and c: "layerMap s c = Some a" and l: "ro s a = Some l"
    and r: "roLayer_hasReference l r"
  shows "ls_inv (add_mset a held) (updRo a (roLayer_deleteReference r) s)"
proof -
  have a: "a \<in> live s" using c by (auto simp: live_def ran_def)
  note ok = ls_inv_at(2) [OF inv a l]
  have "card (references l) = Suc (card (references l - {fst r}))"
    using r ok by (metis roLayer_hasReference_def layer_ok_def card_Suc_Diff1)
  with ok a ls_inv_held(1) [OF inv] show ?thesis
    by (intro updRo_inv [OF inv l a]) (auto simp: layer_ok_def roLayer_deleteReference_def)
qed

text \<open>A layer nobody counts on leaves the map; the count it had on its parent becomes a held one.\<close>

abbreviation withParent :: "loc option \<Rightarrow> loc multiset \<Rightarrow> loc multiset" where
  "withParent p held \<equiv> (case p of None \<Rightarrow> held | Some q \<Rightarrow> add_mset q held)"

lemma zero_unused:
  assumes inv: "ls_inv held s" and a: "a \<in> live s" and l: "ro s a = Some l" and z: "referenceCount l = 0"
  shows "references l = {}" "childrenOf s a = {}" "mountsOf s a = {}" "a \<notin># held"
proof -
  note ok = ls_inv_at(2) [OF inv a l]
  then have "card (references l) + card (childrenOf s a) + card (mountsOf s a) + count held a = 0"
    and "finite (references l)"
    using z unfolding layer_ok_def by (metis of_nat_eq_0_iff, blast)
  then show "references l = {}" "childrenOf s a = {}" "mountsOf s a = {}" "a \<notin># held"
    using finite_childrenOf [OF inv, of a] finite_mountsOf [OF inv, of a] by (auto simp: not_in_iff)
qed

lemma live_drop:
  assumes "ls_inv held s" and "a \<in> live s" and "ro s a = Some l"
  shows "live (s\<lparr>layerMap := (layerMap s)(chainID l := None)\<rparr>) = live s - {a}"
proof -
  have only: "layerMap s c = Some a \<longleftrightarrow> c = chainID l" for c
    using ls_inv_at(1) [OF assms] ls_inv_chain [OF assms(1) _ assms(3)] by metis
  have "b \<in> ran ((layerMap s)(chainID l := None)) \<longleftrightarrow> b \<in> ran (layerMap s) \<and> b \<noteq> a" for b
  proof -
    have "(\<exists>c. ((layerMap s)(chainID l := None)) c = Some b) \<longleftrightarrow> (\<exists>c. layerMap s c = Some b \<and> c \<noteq> chainID l)"
      by auto
    also have "\<dots> \<longleftrightarrow> (\<exists>c. layerMap s c = Some b) \<and> b \<noteq> a"
      using only by (metis option.inject)
    finally show ?thesis by (simp add: ran_def)
  qed
  then show ?thesis by (simp add: live_def set_eq_iff)
qed

lemma drop_inv:
  assumes inv: "ls_inv held s" and a: "a \<in> live s" and l: "ro s a = Some l" and z: "referenceCount l = 0"
  shows "ls_inv (withParent (parent l) held) (s\<lparr>layerMap := (layerMap s)(chainID l := None)\<rparr>)"
proof -
  let ?s = "s\<lparr>layerMap := (layerMap s)(chainID l := None)\<rparr>"
  let ?h = "withParent (parent l) held"
  note unused = zero_unused [OF inv a l z] and lv = live_drop [OF inv a l]
  note okl = ls_inv_at(2) [OF inv a l]
  have ch: "childrenOf ?s b = childrenOf s b - {a}" for b
    by (auto simp: childrenOf_def lv)
  have par: "parent k \<noteq> Some a" if "b \<in> live s" "ro s b = Some k" for b k
    using unused(2) that by (auto simp: childrenOf_def)
  have layers: "\<exists>k. ro ?s b = Some k \<and> layer_ok ?h ?s c b k" if c: "layerMap ?s c = Some b" for b c
  proof -
    from c have c': "layerMap s c = Some b" "c \<noteq> chainID l" by (auto split: if_splits)
    then have b: "b \<in> live s" by (auto simp: live_def ran_def)
    then obtain k where k: "ro s b = Some k" using inv by (elim ls_inv_live)
    note ok = ls_inv_at(2) [OF inv b k]
    have ck: "chainID k = c" by (rule ls_inv_chain [OF inv c'(1) k])
    have mem: "a \<in> childrenOf s b \<longleftrightarrow> parent l = Some b"
      using a l by (simp add: childrenOf_def)
    have "card (childrenOf s b) + count held b = card (childrenOf ?s b) + count ?h b"
    proof (cases "parent l = Some b")
      case True
      with mem have "Suc (card (childrenOf s b - {a})) = card (childrenOf s b)"
        using finite_childrenOf [OF inv] by (intro card_Suc_Diff1) simp_all
      with True show ?thesis unfolding ch by simp
    next
      case False
      with mem have "childrenOf s b - {a} = childrenOf s b" by blast
      with False show ?thesis unfolding ch by (cases "parent l") simp_all
    qed
    moreover have "mountsOf ?s b = mountsOf s b" by (simp add: mountsOf_def)
    ultimately have "referenceCount k =
        int (card (references k) + card (childrenOf ?s b) + card (mountsOf ?s b) + count ?h b)"
      using ok by (simp add: layer_ok_def)
    moreover have "\<forall>p. parent k = Some p \<longrightarrow> p < b \<and> p \<in> live ?s"
      using ok par [OF b k] unfolding layer_ok_def lv by blast
    ultimately have "layer_ok ?h ?s c b k"
      using ok ck unfolding layer_ok_def by simp
    with k show ?thesis by simp
  qed
  have "set_mset held \<subseteq> live s - {a}" "\<And>p. parent l = Some p \<Longrightarrow> p \<in> live s - {a}"
    using inv unused(4) okl unfolding ls_inv_def layer_ok_def by (blast, blast)
  then have held: "set_mset ?h \<subseteq> live ?s"
    unfolding lv by (cases "parent l") simp_all
  have mount: "p \<in> live ?s" if "mounts s n = Some m" "mparent m = Some p" for n m p
    using ls_inv_mount(2) [OF inv that] unused(3) that unfolding lv mountsOf_def by blast
  show ?thesis
    by (rule ls_invI, simp add: ls_inv_finite [OF inv], simp add: ls_inv_finite [OF inv],
        rule held, erule layers, simp add: ls_inv_mount(1) [OF inv], simp add: mount)
qed

subsection \<open>The loops over parent pointers return\<close>

lemma parent_live:
  assumes "ls_inv held s" and "a \<in> live s" and "ro s a = Some l" and "parent l = Some p"
  shows "p < a" and "p \<in> live s"
  using ls_inv_at(2) [OF assms(1-3)] assms(4) by (simp_all add: layer_ok_def)

lemma parents_terminate:
  assumes inv: "ls_inv held s" and a: "a \<in> live s"
  shows Size_total: "\<exists>n. roLayer_Size (ro s) a = Some n"
    and depth_total: "\<exists>n > 0. roLayer_depth (ro s) a = Some n"
proof -
  have "(\<exists>n. roLayer_Size (ro s) a = Some n) \<and> (\<exists>n > 0. roLayer_depth (ro s) a = Some n)"
    using a
  proof (induction a rule: less_induct)
    case (less a)
    then obtain l where l: "ro s a = Some l" using inv by (elim ls_inv_live)
    show ?case
    proof (cases "parent l")
      case None
      with l show ?thesis by (simp add: roLayer_Size.simps [of _ a] roLayer_depth.simps [of _ a])
    next
      case (Some p)
      obtain n d where "roLayer_Size (ro s) p = Some n" "roLayer_depth (ro s) p = Some d"
        using less.IH [OF parent_live [OF inv less.prems l Some]] by blast
      with Some l show ?thesis
        by (simp add: roLayer_Size.simps [of _ a] roLayer_depth.simps [of _ a])
    qed
  qed
  then show "\<exists>n. roLayer_Size (ro s) a = Some n" "\<exists>n > 0. roLayer_depth (ro s) a = Some n" by blast+
qed

section \<open>Releasing a layer\<close>

text \<open>
  What a release may do to the store: layers leave the map only when no handle, no mount and
  no call in flight counts on them; of the layers only the reference counts change.
\<close>

definition same_layers :: "'w layerStore \<Rightarrow> 'w layerStore \<Rightarrow> bool" where
  "same_layers s s' \<longleftrightarrow>
     (\<forall>b. map_option (referenceCount_update (\<lambda>_. 0)) (ro s' b) = map_option (referenceCount_update (\<lambda>_. 0)) (ro s b))"

definition unused :: "loc multiset \<Rightarrow> 'w layerStore \<Rightarrow> loc \<Rightarrow> bool" where
  "unused held s b \<longleftrightarrow> b \<notin># held \<and> mountsOf s b = {} \<and> (\<forall>l. ro s b = Some l \<longrightarrow> references l = {})"

definition released :: "loc multiset \<Rightarrow> 'w layerStore \<Rightarrow> 'w layerStore \<Rightarrow> bool" where
  "released held s s' \<longleftrightarrow>
     layerMap s' \<subseteq>\<^sub>m layerMap s \<and> mounts s' = mounts s \<and> nextLoc s' = nextLoc s \<and> same_layers s s' \<and>
     (\<forall>b \<in> live s - live s'. unused held s b)"

lemma map_le_live: "layerMap s' \<subseteq>\<^sub>m layerMap s \<Longrightarrow> live s' \<subseteq> live s"
  by (auto simp: live_def ran_def map_le_def dom_def) (metis option.distinct(1))

lemma same_layers_sel:
  assumes "same_layers s s'"
  shows "ro s' b = None \<longleftrightarrow> ro s b = None"
    and "ro s b = Some l \<Longrightarrow> ro s' b = Some l' \<Longrightarrow>
           references l' = references l \<and> parent l' = parent l \<and> chainID l' = chainID l"
proof -
  have eq: "map_option (referenceCount_update (\<lambda>_. 0)) (ro s' b) = map_option (referenceCount_update (\<lambda>_. 0)) (ro s b)"
    using assms unfolding same_layers_def by blast
  then show "ro s' b = None \<longleftrightarrow> ro s b = None"
    by (cases "ro s b"; cases "ro s' b") simp_all
  assume "ro s b = Some l" "ro s' b = Some l'"
  with eq have "l'\<lparr>referenceCount := 0\<rparr> = l\<lparr>referenceCount := 0\<rparr>" by simp
  then show "references l' = references l \<and> parent l' = parent l \<and> chainID l' = chainID l"
    by (metis (no_types, lifting) roLayer.select_convs roLayer.surjective roLayer.update_convs(7))
qed

lemma same_layers_trans: "same_layers s s1 \<Longrightarrow> same_layers s1 s2 \<Longrightarrow> same_layers s s2"
  by (simp add: same_layers_def)

lemma same_layers_refl [simp]:
  "same_layers s s" "same_layers s (s1\<lparr>world := w\<rparr>) = same_layers s s1"
  "same_layers s (s1\<lparr>layerMap := m\<rparr>) = same_layers s s1"
  "same_layers s (s1\<lparr>mounts := t\<rparr>) = same_layers s s1"
  by (simp_all add: same_layers_def)

lemma same_layers_updRo: "same_layers s (updRo a incRef s)" "same_layers s (updRo a decRef s)"
  by (cases "ro s a"; simp add: same_layers_def)+

lemma same_layers_mono:
  assumes "same_layers s s1" and "mounts s1 = mounts s" and "unused held s1 b"
  shows "unused held s b"
proof -
  have "references l = {}" if l: "ro s b = Some l" for l
  proof -
    obtain l' where l': "ro s1 b = Some l'" using same_layers_sel(1) [OF assms(1), of b] l by auto
    with same_layers_sel(2) [OF assms(1) l l'] assms(3) show ?thesis by (simp add: unused_def)
  qed
  then show ?thesis using assms(2,3) by (simp add: unused_def mountsOf_def)
qed

lemma released_trans:
  assumes "released held s s1" and "released held s1 s2"
  shows "released held s s2"
proof -
  have "unused held s b" if "b \<in> live s - live s2" for b
    using assms same_layers_mono [of s s1 held b] that unfolding released_def by blast
  moreover have "same_layers s s2" "layerMap s2 \<subseteq>\<^sub>m layerMap s"
    using assms same_layers_trans [of s s1 s2] map_le_trans [of "layerMap s2" "layerMap s1" "layerMap s"]
    unfolding released_def by blast+
  ultimately show ?thesis using assms by (simp add: released_def)
qed

definition release_ok ::
    "loc multiset \<Rightarrow> Metadata list \<Rightarrow> 'w layerStore \<Rightarrow> Metadata list outcome \<Rightarrow> 'w layerStore \<Rightarrow> bool" where
  "release_ok held removed s r s' \<longleftrightarrow>
     ls_inv held s' \<and> released held s s' \<and>
     (case r of
        Ok out \<Rightarrow> \<exists>mds. out = removed @ mds \<and> layerMap s' = layerMap s |` (- MChainID ` set mds)
      | Err e \<Rightarrow> True
      | Panic m \<Rightarrow> False)"

lemma deleteLayer_spec:
  assumes inv: "ls_inv held s" and a: "a \<in> live s"
  obtains r w where "layerStore_deleteLayer B a l s = Some (r, s\<lparr>world := w\<rparr>)"
    and "\<And>md. r = Inr md \<Longrightarrow> MChainID md = chainID l"
proof -
  obtain n where n: "roLayer_Size (ro s) a = Some n" using Size_total [OF inv a] by blast
  obtain e1 w1 where c1: "drvRemove B (cacheID l) (world s) = (e1, w1)" by (rule prod.exhaust)
  obtain e2 w2 where c2: "stRemove B (chainID l) w1 = (e2, w2)" by (rule prod.exhaust)
  note calls = layerStore_deleteLayer_def callW_def c1 c2 n
  show thesis
  proof (cases e1)
    case (Some e)
    then show thesis using that [of "Inl (ErrBackend e)" w1] by (simp add: calls)
  next
    case None
    note e1 = None
    show thesis
    proof (cases e2)
      case (Some e)
      then show thesis using e1 that [of "Inl (ErrBackend e)" w2] by (simp add: calls)
    next
      case None
      then show thesis using e1 by (intro that) (auto simp: calls)
    qed
  qed
qed

lemma release_drop:
  assumes inv: "ls_inv held s" and a: "a \<in> live s" and l: "ro s a = Some l" and z: "referenceCount l = 0"
  shows "released held s (s\<lparr>layerMap := (layerMap s)(chainID l := None)\<rparr>)"
proof -
  have "unused held s a"
    using zero_unused [OF inv a l z] l by (simp add: unused_def)
  then show ?thesis
    using live_drop [OF inv a l] by (auto simp: released_def map_le_def)
qed

lemma release_ok_step:
  assumes "released held s sd" and "layerMap sd = (layerMap s)(MChainID m := None)"
    and "release_ok held (removed @ [m]) sd r s'"
  shows "release_ok held removed s r s'"
proof -
  have "(layerMap s)(MChainID m := None) |` (- MChainID ` set mds) = layerMap s |` (- MChainID ` set (m # mds))" for mds
    by (rule ext) (simp add: restrict_map_def)
  note restrict = this
  have out: "\<exists>mds. out = removed @ mds \<and> layerMap s' = layerMap s |` (- MChainID ` set mds)" if "r = Ok out" for out
  proof -
    obtain mds where "out = removed @ (m # mds)" "layerMap s' = layerMap s |` (- MChainID ` set (m # mds))"
      using assms(3) \<open>r = Ok out\<close> unfolding release_ok_def assms(2) restrict by auto
    then show ?thesis by blast
  qed
  have "released held s s'" "ls_inv held s'" "\<And>m. r \<noteq> Panic m"
    using released_trans [OF assms(1)] assms(3) unfolding release_ok_def by (blast, blast, auto)
  with out show ?thesis unfolding release_ok_def by (cases r) auto
qed

lemma map_restrict_UNIV [simp]: "m |` UNIV = m"
  by (simp add: restrict_map_def)

lemma releaseLoop_spec:
  assumes "ls_inv (add_mset a held) s" and "depth > 0 \<Longrightarrow> removed \<noteq> []"
  shows "\<exists>r s'. releaseLoop B a depth removed s = Some (r, s') \<and> release_ok held removed s r s'"
  using assms
proof (induction a arbitrary: depth removed s rule: less_induct)
  case (less a)
  note inv = less.prems(1)
  note a = ls_inv_heldD [OF inv]
  obtain l where l: "ro s a = Some l" using ls_inv_live [OF inv a] by blast
  let ?s1 = "updRo a decRef s"
  have inv1: "ls_inv held ?s1" and pos: "1 \<le> referenceCount l" using dec_inv [OF inv l] by simp_all
  have rel1: "released held s ?s1" by (simp add: released_def same_layers_updRo)
  have a1: "a \<in> live ?s1" and l1: "ro ?s1 a = Some (decRef l)" using a l by simp_all
  show ?case
  proof (cases "referenceCount l = 1")
    case False
    with pos l have "releaseLoop B a depth removed s = Some (Ok removed, ?s1)"
      by (simp add: releaseLoop.simps [of B a])
    moreover have "release_ok held removed s (Ok removed) ?s1"
      using inv1 rel1 by (simp add: release_ok_def exI [of _ "[]"])
    ultimately show ?thesis by blast
  next
    case True
    have z: "referenceCount (decRef l) = 0" using True by simp
    have none: "\<not> roLayer_hasReferences l"
      using zero_unused(1) [OF inv1 a1 l1 z] by (simp add: roLayer_hasReferences_def)
    have guard: "\<not> (removed = [] \<and> 0 < depth)" using less.prems(2) by blast
    obtain r w where del: "layerStore_deleteLayer B a l ?s1 = Some (r, ?s1\<lparr>world := w\<rparr>)"
      and md: "\<And>md. r = Inr md \<Longrightarrow> MChainID md = chainID l"
      using deleteLayer_spec [OF inv1 a1] by blast
    let ?s2 = "?s1\<lparr>world := w\<rparr>"
    let ?drop = "?s2\<lparr>layerMap := (layerMap s)(chainID l := None)\<rparr>"
    have inv2: "ls_inv held ?s2" and a2: "a \<in> live ?s2" and l2: "ro ?s2 a = Some (decRef l)"
      and rel2: "released held s ?s2"
      using inv1 a1 l1 rel1 by (simp_all add: released_def)
    have invd: "ls_inv (withParent (parent l) held) ?drop"
      using drop_inv [OF inv2 a2 l2 z] by (simp cong: option.case_cong)
    have reld: "released held s ?drop"
      using released_trans [OF rel2 release_drop [OF inv2 a2 l2 z]] by simp
    note unfold = releaseLoop.simps [of B a depth removed s] l True none guard del
    show ?thesis
    proof (cases r)
      case (Inl e)
      with inv2 rel2 have "release_ok held removed s (Err e) ?s2"
        by (simp add: release_ok_def)
      with unfold Inl show ?thesis by simp
    next
      case (Inr m)
      show ?thesis
      proof (cases "parent l")
        case None
        have "layerMap ?drop = layerMap s |` (- MChainID ` set [m])"
          using md [OF Inr] by (simp add: restrict_map_def fun_eq_iff)
        with None invd reld have "release_ok held removed s (Ok (removed @ [m])) ?drop"
          unfolding release_ok_def by auto
        with unfold Inr None show ?thesis by simp
      next
        case (Some p)
        have "p < a" using parent_live(1) [OF inv a l Some] .
        moreover have "ls_inv (add_mset p held) ?drop" using invd Some by simp
        ultimately obtain r' s' where run: "releaseLoop B p (depth + 1) (removed @ [m]) ?drop = Some (r', s')"
          and ok: "release_ok held (removed @ [m]) ?drop r' s'"
          using less.IH [of p ?drop "depth + 1" "removed @ [m]"] by auto
        have "release_ok held removed s r' s'"
          using release_ok_step [OF reld _ ok] md [OF Inr] by simp
        with unfold Inr Some run show ?thesis by simp
      qed
    qed
  qed
qed

section \<open>Adding a layer, adding and removing a mount\<close>

lemma withParent_count [simp]:
  "count (withParent p held) b = count held b + (if p = Some b then 1 else 0)"
  by (cases p) simp_all

lemma withParent_set [simp]: "set_mset (withParent p held) = set_mset held \<union> set_option p"
  by (cases p) auto

lemma insert_inv:
  assumes inv: "ls_inv (withParent (parent l) held) s" and new: "layerMap s (chainID l) = None"
    and one: "referenceCount l = 1" "references l = {}" and a: "a = nextLoc s"
  shows "ls_inv (add_mset a held)
           (s\<lparr>ro := (ro s)(a \<mapsto> l), layerMap := (layerMap s)(chainID l \<mapsto> a), nextLoc := a + 1\<rparr>)"
    (is "ls_inv _ ?s")
proof -
  have lt: "b < a" if "b \<in> live s" for b
    using live_lt [OF inv that] a by simp
  have pl: "p \<in> live s" if "parent l = Some p" for p
    using ls_inv_held(1) [OF inv] that by simp
  have lv: "live ?s = insert a (live s)" using new by (simp add: live_def)
  have na: "a \<notin> live s" using lt [of a] by blast
  have par: "parent k \<noteq> Some a" if b: "b \<in> live s" "ro s b = Some k" for b k
    using parent_live(2) [OF inv b] lt by blast
  have ch: "childrenOf ?s b = childrenOf s b \<union> (if parent l = Some b then {a} else {})" for b
    using lt unfolding childrenOf_def lv by auto
  have ch_new: "childrenOf s a = {}" "mountsOf s a = {}" "a \<notin># held"
    using par na ls_inv_mount(2) [OF inv] ls_inv_held(1) [OF inv]
    unfolding childrenOf_def mountsOf_def by (blast, blast, auto)
  have mt: "mountsOf ?s b = mountsOf s b" for b by (simp add: mountsOf_def)
  have card_ch: "card (childrenOf ?s b) = card (childrenOf s b) + (if parent l = Some b then 1 else 0)" for b
    using finite_childrenOf [OF inv, of b] na unfolding ch by (auto simp: childrenOf_def)
  have old: "layer_ok (add_mset a held) ?s c b k"
    if c: "layerMap s c = Some b" and k: "ro s b = Some k" for c b k
  proof -
    have b: "b \<in> live s" using c by (auto simp: live_def ran_def)
    have "layer_ok (withParent (parent l) held) s c b k"
      using ls_inv_at(2) [OF inv b k] ls_inv_chain [OF inv c k] by simp
    moreover have "b \<noteq> a" using lt [OF b] by simp
    ultimately show ?thesis
      unfolding layer_ok_def lv mt card_ch using a by (auto simp: less_Suc_eq)
  qed
  have "layer_ok (add_mset a held) ?s (chainID l) a l"
    using one pl lt ch_new unfolding layer_ok_def lv mt card_ch by (auto simp: not_in_iff)
  then have layers: "\<exists>k. ro ?s b = Some k \<and> layer_ok (add_mset a held) ?s c b k"
    if c: "layerMap ?s c = Some b" for c b
  proof (cases "c = chainID l")
    case False
    with c have c': "layerMap s c = Some b" by simp
    then have b: "b \<in> live s" by (auto simp: live_def ran_def)
    obtain k where k: "ro s b = Some k" using ls_inv_live [OF inv b] by blast
    with old [OF c' k] lt [OF b] show ?thesis by simp
  qed (use c in simp)
  have held: "set_mset (add_mset a held) \<subseteq> live ?s" using ls_inv_held(1) [OF inv] unfolding lv by auto
  have mount: "p \<in> live ?s" if "mounts s n = Some m" "mparent m = Some p" for n m p
    using ls_inv_mount(2) [OF inv that] unfolding lv by simp
  show ?thesis
    by (rule ls_invI, simp add: ls_inv_finite [OF inv], simp add: ls_inv_finite [OF inv],
        rule held, erule layers, simp add: ls_inv_mount(1) [OF inv], rule mount, simp_all)
qed

lemma mounts_inv:
  assumes inv: "ls_inv held s" and fin: "finite (dom f)"
    and mnts: "\<And>n m. f n = Some m \<Longrightarrow> mname m = n" "\<And>n m p. f n = Some m \<Longrightarrow> mparent m = Some p \<Longrightarrow> p \<in> live s"
    and held: "set_mset held' \<subseteq> live s"
    and bal: "\<And>b. card (mountsOf (s\<lparr>mounts := f\<rparr>) b) + count held' b = card (mountsOf s b) + count held b"
  shows "ls_inv held' (s\<lparr>mounts := f\<rparr>)"
proof -
  let ?s = "s\<lparr>mounts := f\<rparr>"
  have same: "live ?s = live s" "childrenOf ?s b = childrenOf s b" for b
    by (simp_all add: live_def childrenOf_def)
  have "layer_ok held' ?s c b k" if "layer_ok held s c b k" for c b k
    using that bal [of b] unfolding layer_ok_def same by (simp add: add.assoc flip: of_nat_add)
  then have layers: "\<exists>k. ro s b = Some k \<and> layer_ok held' ?s c b k" if "layerMap s c = Some b" for c b
    using inv that unfolding ls_inv_def by blast
  show ?thesis
    by (rule ls_invI, simp add: ls_inv_finite [OF inv], simp add: fin, simp add: same held,
        simp add: layers, simp add: mnts(1), simp add: same mnts(2))
qed

end
