(* ===== verification/Layer_Safety.thy ===== *)
theory Layer_Safety
  imports Layer_Refcount "HOL-Library.Transitive_Closure_Table"
begin

text \<open>
  The layer store under concurrency.  \<open>layerL\<close> and \<open>mountL\<close> protect short critical sections;
  between them a call of \<open>Register\<close>, \<open>CreateRWLayer\<close> or \<open>ReleaseRWLayer\<close> holds counts on
  layers it has looked up, and other calls run.  The step relation has one rule per critical
  section and one for the driver and metadata work outside of them.  The sequential
  operations of \<open>Layer_Store\<close> are shown to be sequences of these steps, so that what holds
  for the steps holds for them too, in every interleaving.
\<close>

section \<open>Work that only touches the world\<close>

definition world_only :: "'w layerStore \<Rightarrow> 'w layerStore \<Rightarrow> bool" where
  "world_only s s' \<longleftrightarrow> (\<exists>w. s' = s\<lparr>world := w\<rparr>)"

lemma world_only_refl [simp]: "world_only s s"
  unfolding world_only_def by (rule exI [of _ "world s"]) simp

lemma world_only_trans [trans]: "world_only s s1 \<Longrightarrow> world_only s1 s2 \<Longrightarrow> world_only s s2"
  by (auto simp: world_only_def)

lemma world_only_sel:
  assumes "world_only s s'"
  shows "ro s' = ro s" "layerMap s' = layerMap s" "mounts s' = mounts s" "nextLoc s' = nextLoc s"
  using assms by (auto simp: world_only_def)

lemma world_only_callW: "callW f s = (x, s') \<Longrightarrow> world_only s s'" "world_only s (snd (callW f s))"
  using callW_world [of f s] snd_callW_world [of f s] by (auto simp: world_only_def)

lemma world_only_storeLayer: "storeLayer B tx l pc s = (e, s') \<Longrightarrow> world_only s s'"
  by (auto simp: storeLayer_def callW_def world_only_def split: prod.splits option.splits if_splits)

lemma world_only_applyTar: "layerStore_applyTar B tx ts pid cache s = (x, s') \<Longrightarrow> world_only s s'"
  by (auto simp: layerStore_applyTar_def callW_def world_only_def split: prod.splits option.splits sum.splits)

lemma world_only_cleanup: "world_only s (registerCleanup B cache tx s)"
  unfolding registerCleanup_def by (rule world_only_trans [OF world_only_callW(2) world_only_callW(2)])

lemma world_only_initMount: "layerStore_initMount B g pid lbl f opt s = (x, s') \<Longrightarrow> world_only s s'"
  by (auto simp: layerStore_initMount_def callW_def world_only_def Let_def
      split: prod.splits option.splits sum.splits)

section \<open>Steps\<close>

text \<open>The check that \<open>registerWithDescriptor\<close> makes on the parent it has looked up.\<close>

definition depth_below :: "'w layerStore \<Rightarrow> loc option \<Rightarrow> bool" where
  "depth_below s p \<longleftrightarrow> (case p of None \<Rightarrow> True | Some a \<Rightarrow> \<exists>d < maxLayerDepth. roLayer_depth (ro s) a = Some d)"

record 'w lconfig =
  held :: "loc multiset"
  creating :: "string option"
  store :: "'w layerStore"

text \<open>
  \<open>held\<close>: the counts taken by calls in flight; \<open>creating\<close>: the name a \<open>CreateRWLayer\<close> that
  owns \<open>mountL\<close> has found free.
\<close>

inductive lstep :: "'w backend \<Rightarrow> 'w lconfig \<Rightarrow> 'w lconfig \<Rightarrow> bool" for B where
  env: "lstep B \<lparr>held = h, creating = k, store = s\<rparr> \<lparr>held = h, creating = k, store = s\<lparr>world := w\<rparr>\<rparr>"
| get: "layerStore_Get c s = (res, s') \<Longrightarrow>
    lstep B \<lparr>held = h, creating = k, store = s\<rparr> \<lparr>held = h, creating = k, store = s'\<rparr>"
| release: "layerStore_Release B r s = Some (res, s') \<Longrightarrow>
    lstep B \<lparr>held = h, creating = k, store = s\<rparr> \<lparr>held = h, creating = k, store = s'\<rparr>"
| acquire: "layerStore_getWithoutLock c s = (Some p, s') \<Longrightarrow>
    lstep B \<lparr>held = h, creating = k, store = s\<rparr> \<lparr>held = add_mset p h, creating = k, store = s'\<rparr>"
| abandon: "layerStore_releaseLayer B p s = Some (res, s') \<Longrightarrow>
    lstep B \<lparr>held = add_mset p h, creating = k, store = s\<rparr> \<lparr>held = h, creating = k, store = s'\<rparr>"
| commit: "registerCommit B tx l s = ((failed, res), s') \<Longrightarrow> referenceCount l = 1 \<Longrightarrow> references l = {} \<Longrightarrow>
    depth_below s (parent l) \<Longrightarrow>
    lstep B \<lparr>held = withParent (parent l) h, creating = k, store = s\<rparr>
            \<lparr>held = (if failed then withParent (parent l) h else h), creating = k, store = s'\<rparr>"
| createRW: "mounts s n = None \<Longrightarrow>
    lstep B \<lparr>held = h, creating = None, store = s\<rparr> \<lparr>held = h, creating = Some n, store = s\<rparr>"
| saveRW: "layerStore_saveMount B m s = (None, s1) \<Longrightarrow> mountedLayer_getReference (mname m) s1 = (r, s') \<Longrightarrow>
    lstep B \<lparr>held = withParent (mparent m) h, creating = Some (mname m), store = s\<rparr>
            \<lparr>held = h, creating = None, store = s'\<rparr>"
| endRW: "lstep B \<lparr>held = h, creating = Some n, store = s\<rparr> \<lparr>held = h, creating = None, store = s\<rparr>"
| getRW: "layerStore_GetRWLayer n s = (res, s') \<Longrightarrow>
    lstep B \<lparr>held = h, creating = None, store = s\<rparr> \<lparr>held = h, creating = None, store = s'\<rparr>"
| dropRW: "mounts s (snd r) = Some m \<Longrightarrow> fst r \<in> mreferences m \<Longrightarrow> mreferences m - {fst r} \<noteq> {} \<Longrightarrow>
    lstep B \<lparr>held = h, creating = None, store = s\<rparr>
            \<lparr>held = h, creating = None,
             store = s\<lparr>mounts := (mounts s)(snd r \<mapsto> m\<lparr>mreferences := mreferences m - {fst r}\<rparr>)\<rparr>\<rparr>"
| unlinkRW: "mounts s n = Some m \<Longrightarrow> mreferences m \<subseteq> {r} \<Longrightarrow>
    lstep B \<lparr>held = h, creating = None, store = s\<rparr>
            \<lparr>held = withParent (mparent m) h, creating = None, store = s\<lparr>mounts := (mounts s)(n := None)\<rparr>\<rparr>"

definition depths_ok :: "'w layerStore \<Rightarrow> bool" where
  "depths_ok s \<longleftrightarrow> (\<forall>a \<in> live s. \<exists>d \<le> maxLayerDepth. roLayer_depth (ro s) a = Some d)"

definition cfg_inv :: "'w lconfig \<Rightarrow> bool" where
  "cfg_inv cf \<longleftrightarrow>
     ls_inv (held cf) (store cf) \<and> (\<forall>n. creating cf = Some n \<longrightarrow> mounts (store cf) n = None) \<and>
     depths_ok (store cf)"
subsection \<open>What each critical section keeps\<close>

lemma getWithoutLock_inv:
  assumes "ls_inv h s" and "layerStore_getWithoutLock c s = (Some p, s')"
  shows "ls_inv (add_mset p h) s'" and "layerMap s c = Some p" and "s' = updRo p incRef s"
  using assms inc_inv [OF assms(1)] by (auto simp: layerStore_getWithoutLock_def split: option.splits)

lemma getWithoutLock_None: "layerStore_getWithoutLock c s = (None, s') \<longleftrightarrow> layerMap s c = None \<and> s' = s"
  by (auto simp: layerStore_getWithoutLock_def split: option.splits)

lemma Get_inv:
  assumes "ls_inv h s" and "layerStore_Get c s = (res, s')"
  shows "ls_inv h s'"
proof (cases "layerStore_getWithoutLock c s")
  case (Pair p s1)
  show ?thesis
  proof (cases p)
    case None
    with Pair assms have "layerMap s c = None \<and> s1 = s" "s' = s1"
      by (simp_all add: layerStore_Get_def flip: getWithoutLock_None)
    with assms(1) show ?thesis by simp
  next
    case (Some a)
    with Pair assms have "s' = snd (roLayer_getReference a s1)"
      by (auto simp: layerStore_Get_def split: prod.splits)
    with getReference_inv getWithoutLock_inv(1) [OF assms(1)] Pair Some show ?thesis by blast
  qed
qed

lemma releaseLayer_spec:
  assumes "ls_inv (add_mset a h) s"
  shows "\<exists>r s'. layerStore_releaseLayer B a s = Some (r, s') \<and> release_ok h [] s r s'"
  unfolding layerStore_releaseLayer_def by (rule releaseLoop_spec [OF assms]) simp

text \<open>
  A release of a handle returns, does not panic, and takes only unused layers away; the
  handle itself may be stale or unknown.
\<close>

lemma Release_spec:
  assumes inv: "ls_inv h s" and r: "ro s (snd r) \<noteq> None"
  shows "\<exists>res s'. layerStore_Release B r s = Some (res, s') \<and> ls_inv h s' \<and> (\<forall>m. res \<noteq> Panic m) \<and>
           (s' = s \<or> (\<exists>a. released h (updRo a (roLayer_deleteReference r) s) s'))"
proof -
  obtain rl where rl: "ro s (snd r) = Some rl" using r by blast
  note unfold = layerStore_Release_def rl
  show ?thesis
  proof (cases "layerMap s (chainID rl)")
    case None
    with inv show ?thesis by (simp add: unfold)
  next
    case (Some a)
    then have a: "a \<in> live s" by (auto simp: live_def ran_def)
    obtain l where l: "ro s a = Some l" using ls_inv_live [OF inv a] by blast
    show ?thesis
    proof (cases "roLayer_hasReference l r")
      case False
      with Some l inv show ?thesis by (simp add: unfold)
    next
      case True
      obtain res s' where "layerStore_releaseLayer B a (updRo a (roLayer_deleteReference r) s) = Some (res, s')"
        and "release_ok h [] (updRo a (roLayer_deleteReference r) s) res s'"
        using releaseLayer_spec [OF deleteReference_inv [OF inv Some l True]] by blast
      with True Some l show ?thesis
        by (cases res) (simp_all add: unfold release_ok_def, blast+)
    qed
  qed
qed

lemma registerCommit_inv:
  assumes inv: "ls_inv (withParent (parent l) h) s" and new: "referenceCount l = 1" "references l = {}"
    and run: "registerCommit B tx l s = ((failed, res), s')"
  shows "ls_inv (if failed then withParent (parent l) h else h) s'" and "res \<noteq> Panic m"
proof -
  have "ls_inv (if failed then withParent (parent l) h else h) s' \<and> res \<noteq> Panic m"
  proof (cases "layerMap s (chainID l)")
    case (Some a)
    let ?s1 = "updRo a incRef s"
    have "ls_inv (withParent (parent l) h) (snd (roLayer_getReference a ?s1))"
      by (rule getReference_inv [OF inc_inv [OF inv Some]])
    with Some run show ?thesis
      by (auto simp: registerCommit_def layerStore_getWithoutLock_def split: prod.splits)
  next
    case None
    obtain e w where call: "txCommit B tx (chainID l) (world s) = (e, w)" by (rule prod.exhaust)
    let ?s2 = "s\<lparr>world := w\<rparr>"
    have inv2: "ls_inv (withParent (parent l) h) ?s2" and none2: "layerMap ?s2 (chainID l) = None"
      using inv None by simp_all
    note unfold = registerCommit_def layerStore_getWithoutLock_def callW_def None call
    show ?thesis
    proof (cases e)
      case (Some x)
      with run inv show ?thesis by (auto simp: unfold)
    next
      case None
      then show ?thesis
        using run getReference_inv [OF insert_inv [OF inv2 none2 new refl]]
        by (auto simp: unfold Let_def split: prod.splits)
    qed
  qed
  then show "ls_inv (if failed then withParent (parent l) h else h) s'" "res \<noteq> Panic m" by blast+
qed

lemma mountsOf_upd:
  "mountsOf (s\<lparr>mounts := (mounts s)(n := v)\<rparr>) b =
     mountsOf s b - {n} \<union> (if Option.bind v mparent = Some b then {n} else {})"
  by (cases v) (auto simp: mountsOf_def)

lemma mountsOf_mem: "n \<in> mountsOf s b \<longleftrightarrow> Option.bind (mounts s n) mparent = Some b"
  by (cases "mounts s n") (auto simp: mountsOf_def)

lemma card_mountsOf_upd:
  assumes "ls_inv h s"
  shows "card (mountsOf (s\<lparr>mounts := (mounts s)(n := v)\<rparr>) b) + (if Option.bind (mounts s n) mparent = Some b then 1 else 0) =
         card (mountsOf s b) + (if Option.bind v mparent = Some b then 1 else 0)"
proof -
  have fin: "finite (mountsOf s b)" by (rule finite_mountsOf [OF assms])
  have "card (mountsOf s b - {n}) + (if n \<in> mountsOf s b then 1 else 0) = card (mountsOf s b)"
    using fin card_Suc_Diff1 [of "mountsOf s b" n] by auto
  moreover have "card (mountsOf s b - {n} \<union> (if Option.bind v mparent = Some b then {n} else {})) =
      card (mountsOf s b - {n}) + (if Option.bind v mparent = Some b then 1 else 0)"
    using fin by (subst card_Un_disjoint) auto
  ultimately show ?thesis unfolding mountsOf_upd mountsOf_mem [symmetric] by simp
qed

lemma mount_change_inv:
  assumes inv: "ls_inv h s"
    and v: "\<And>m. v = Some m \<Longrightarrow> mname m = n \<and> set_option (mparent m) \<subseteq> live s"
    and held: "set_mset h' \<subseteq> live s"
      "\<And>b. count h' b + (if Option.bind v mparent = Some b then 1 else 0) =
           count h b + (if Option.bind (mounts s n) mparent = Some b then 1 else 0)"
  shows "ls_inv h' (s\<lparr>mounts := (mounts s)(n := v)\<rparr>)"
proof (rule mounts_inv [OF inv])
  show "finite (dom ((mounts s)(n := v)))" using ls_inv_finite(2) [OF inv] by (cases v) simp_all
  show "mname m = k" if "((mounts s)(n := v)) k = Some m" for k m
    using v that ls_inv_mount(1) [OF inv] by (cases "k = n") simp_all
  show "p \<in> live s" if "((mounts s)(n := v)) k = Some m" "mparent m = Some p" for k m p
    using v that ls_inv_mount(2) [OF inv] by (cases "k = n") fastforce+
  show "card (mountsOf (s\<lparr>mounts := (mounts s)(n := v)\<rparr>) b) + count h' b = card (mountsOf s b) + count h b" for b
    using card_mountsOf_upd [OF inv, of n v b] held(2) [of b] by linarith
qed (rule held)

lemma mount_add_inv:
  assumes inv: "ls_inv (withParent (mparent m) h) s" and "mounts s (mname m) = None"
  shows "ls_inv h (s\<lparr>mounts := (mounts s)(mname m \<mapsto> m)\<rparr>)"
  using assms ls_inv_held(1) [OF inv] by (intro mount_change_inv [OF inv]) simp_all

lemma mount_del_inv:
  assumes inv: "ls_inv h s" and m: "mounts s n = Some m"
  shows "ls_inv (withParent (mparent m) h) (s\<lparr>mounts := (mounts s)(n := None)\<rparr>)"
  using ls_inv_held(1) [OF inv] ls_inv_mount(2) [OF inv m] m
  by (intro mount_change_inv [OF inv]) (auto simp: elem_set)

lemma mount_upd_inv:
  assumes inv: "ls_inv h s" and m: "mounts s n = Some m" and "mname m' = mname m" "mparent m' = mparent m"
  shows "ls_inv h (s\<lparr>mounts := (mounts s)(n \<mapsto> m')\<rparr>)"
  using ls_inv_held(1) [OF inv] ls_inv_mount [OF inv m] assms
  by (intro mount_change_inv [OF inv]) (auto simp: elem_set)

lemma mount_getReference_inv:
  assumes inv: "ls_inv h s" and m: "mounts s n = Some m"
  shows "ls_inv h (snd (mountedLayer_getReference n s))"
  using fresh_nextLoc [OF mount_upd_inv [OF inv m, of "m\<lparr>mreferences := insert (nextLoc s) (mreferences m)\<rparr>"], of 1] m
  by (simp add: mountedLayer_getReference_def Let_def)

lemma saveMount_spec:
  assumes "layerStore_saveMount B m s = (e, s')"
  shows "\<exists>w. s' = (if e = None then s\<lparr>world := w, mounts := (mounts s)(mname m \<mapsto> m)\<rparr> else s\<lparr>world := w\<rparr>)"
  using assms by (auto simp: layerStore_saveMount_def callW_def split: prod.splits option.splits if_splits)

subsection \<open>Depth\<close>

definition keeps :: "'w layerStore \<Rightarrow> 'w layerStore \<Rightarrow> bool" where
  "keeps s s' \<longleftrightarrow> (\<forall>b \<in> live s. map_option parent (ro s' b) = map_option parent (ro s b))"

lemma depth_keeps:
  assumes inv: "ls_inv h s" and k: "keeps s s'" and a: "a \<in> live s"
  shows "roLayer_depth (ro s') a = roLayer_depth (ro s) a"
  using a
proof (induction a rule: less_induct)
  case (less a)
  obtain l where l: "ro s a = Some l" using ls_inv_live [OF inv less.prems] by blast
  with k less.prems obtain l' where l': "ro s' a = Some l'" "parent l' = parent l"
    by (fastforce simp: keeps_def)
  show ?case
    using less.IH [OF parent_live [OF inv less.prems l]]
    by (cases "parent l") (simp_all add: l l' roLayer_depth.simps [of _ a])
qed

lemma depths_ok_keeps:
  assumes "ls_inv h s" and "depths_ok s" and "keeps s s'" and "live s' \<subseteq> live s"
  shows "depths_ok s'"
  unfolding depths_ok_def
proof
  fix a assume "a \<in> live s'"
  then have "a \<in> live s" using assms(4) by blast
  with assms(2) depth_keeps [OF assms(1,3)]
  show "\<exists>d \<le> maxLayerDepth. roLayer_depth (ro s') a = Some d" by (simp add: depths_ok_def)
qed

lemma same_layers_keeps: "same_layers s s' \<Longrightarrow> keeps s s'"
  unfolding keeps_def
proof
  fix b assume same: "same_layers s s'"
  have "map_option parent (ro t b) = map_option parent (map_option (referenceCount_update (\<lambda>_. 0)) (ro t b))" for t
    by (simp add: option.map_comp comp_def)
  with same show "map_option parent (ro s' b) = map_option parent (ro s b)"
    by (metis same_layers_def)
qed

lemma keeps_same_ro: "ro s' = ro s \<Longrightarrow> keeps s s'"
  by (simp add: keeps_def)

lemma keeps_updRo: "(\<And>l. parent (f l) = parent l) \<Longrightarrow> keeps s (updRo a f s)"
  by (auto simp: keeps_def option.map_comp comp_def)

lemma keeps_trans: "keeps s s1 \<Longrightarrow> live s \<subseteq> live s1 \<Longrightarrow> keeps s1 s2 \<Longrightarrow> keeps s s2"
  by (auto simp: keeps_def)

lemma keeps_getReference:
  "keeps s (snd (roLayer_getReference a s))" "live (snd (roLayer_getReference a s)) = live s"
  by (simp_all add: roLayer_getReference_def Let_def keeps_def live_def option.map_comp comp_def)

lemma Get_keeps:
  assumes "layerStore_Get c s = (res, s')"
  shows "keeps s s'" and "live s' = live s"
proof -
  have "keeps s s' \<and> live s' = live s"
  proof (cases "layerMap s c")
    case None
    with assms show ?thesis
      by (simp add: layerStore_Get_def layerStore_getWithoutLock_def keeps_same_ro)
  next
    case (Some a)
    let ?s1 = "updRo a incRef s"
    have "s' = snd (roLayer_getReference a ?s1)"
      using assms Some by (auto simp: layerStore_Get_def layerStore_getWithoutLock_def split: prod.splits)
    moreover have "keeps s ?s1" "live ?s1 = live s" by (simp_all add: keeps_updRo)
    ultimately show ?thesis
      using keeps_trans [of s ?s1] keeps_getReference [where s = ?s1 and a = a] by simp
  qed
  then show "keeps s s'" "live s' = live s" by blast+
qed

lemma released_depths:
  assumes "ls_inv h s" and "depths_ok s" and "released g s s'"
  shows "depths_ok s'"
  using assms(3) unfolding released_def
  by (intro depths_ok_keeps [OF assms(1,2)] same_layers_keeps map_le_live) blast+

lemma commit_depths:
  assumes inv: "ls_inv (withParent (parent l) h) s" and ok: "depths_ok s" and below: "depth_below s (parent l)"
    and run: "registerCommit B tx l s = ((failed, res), s')"
  shows "depths_ok s'"
proof (cases "layerMap s (chainID l)")
  case (Some a)
  then have "layerStore_Get (chainID l) s = (res, s')"
    using run by (auto simp: registerCommit_def layerStore_Get_def layerStore_getWithoutLock_def split: prod.splits)
  then show ?thesis using depths_ok_keeps [OF inv ok] Get_keeps by blast
next
  case None
  obtain e w where call: "txCommit B tx (chainID l) (world s) = (e, w)" by (rule prod.exhaust)
  let ?a = "nextLoc s"
  let ?s3 = "s\<lparr>world := w, ro := (ro s)(?a \<mapsto> l), layerMap := (layerMap s)(chainID l \<mapsto> ?a), nextLoc := ?a + 1\<rparr>"
  note unfold = registerCommit_def layerStore_getWithoutLock_def callW_def None call
  show ?thesis
  proof (cases e)
    case (Some x)
    with run have "s' = s\<lparr>world := w\<rparr>" by (simp add: unfold)
    with ok show ?thesis by (simp add: depths_ok_def)
  next
    case None
    let ?s4 = "snd (roLayer_getReference ?a ?s3)"
    have s': "s' = ?s4"
      using None run by (auto simp: unfold Let_def split: prod.splits)
    have ro4: "map_option parent (ro ?s4 b) = map_option parent (if b = ?a then Some l else ro s b)" for b
      by (simp add: roLayer_getReference_def Let_def)
    have lv: "live ?s4 = insert ?a (live s)"
      using \<open>layerMap s (chainID l) = None\<close> by (simp add: keeps_getReference) (simp add: live_def)
    have "b \<noteq> ?a" if "b \<in> live s" for b using live_lt [OF inv that] by simp
    then have "keeps s ?s4" unfolding keeps_def ro4 by simp
    note old = depth_keeps [OF inv this]
    obtain l' where l': "ro ?s4 ?a = Some l'" "parent l' = parent l"
      by (simp add: roLayer_getReference_def Let_def)
    have new: "\<exists>d \<le> maxLayerDepth. roLayer_depth (ro ?s4) ?a = Some d"
    proof (cases "parent l")
      case None
      then have "roLayer_depth (ro ?s4) ?a = Some 1"
        by (subst roLayer_depth.simps) (simp only: l' option.case)
      then show ?thesis by (simp add: maxLayerDepth_def)
    next
      case (Some p)
      then have p: "p \<in> live s" using ls_inv_held(1) [OF inv] by simp
      obtain d where d: "d < maxLayerDepth" "roLayer_depth (ro ?s4) p = Some d"
        using Some below unfolding depth_below_def old [OF p] by auto
      then have "roLayer_depth (ro ?s4) ?a = Some (d + 1)"
        using Some by (subst roLayer_depth.simps) (simp only: l' option.case bind.bind_lunit)
      with d show ?thesis by auto
    qed
    have "\<exists>d \<le> maxLayerDepth. roLayer_depth (ro ?s4) b = Some d" if "b \<in> live s" for b
      using ok that unfolding depths_ok_def old [OF that] by blast
    with new show ?thesis unfolding depths_ok_def s' lv by blast
  qed
qed

lemma depths_ok_same:
  "depths_ok (s\<lparr>mounts := f\<rparr>) = depths_ok s" "depths_ok (s\<lparr>nextLoc := n\<rparr>) = depths_ok s"
  "depths_ok (s\<lparr>world := w\<rparr>) = depths_ok s"
  by (simp_all add: depths_ok_def live_def)

lemma Get_depths:
  assumes "ls_inv h s" and "depths_ok s" and "layerStore_Get c s = (res, s')"
  shows "depths_ok s'"
  using depths_ok_keeps [OF assms(1,2) Get_keeps(1) [OF assms(3)]] Get_keeps(2) [OF assms(3)] by simp

lemma Release_depths:
  assumes inv: "ls_inv h s" and ok: "depths_ok s" and run: "layerStore_Release B r s = Some (res, s')"
  shows "depths_ok s'"
proof -
  have "ro s (snd r) \<noteq> None" using run by (auto simp: layerStore_Release_def split: option.splits)
  then have "s' = s \<or> (\<exists>a. released h (updRo a (roLayer_deleteReference r) s) s')"
    using Release_spec [OF inv, of r B] run by auto
  then show ?thesis
  proof
    assume "\<exists>a. released h (updRo a (roLayer_deleteReference r) s) s'"
    then obtain a where rel: "released h (updRo a (roLayer_deleteReference r) s) s'" ..
    have "keeps s (updRo a (roLayer_deleteReference r) s)"
      by (rule keeps_updRo) (simp add: roLayer_deleteReference_def)
    moreover have "keeps (updRo a (roLayer_deleteReference r) s) s'"
      using rel same_layers_keeps by (auto simp: released_def)
    ultimately have "keeps s s'" using keeps_trans by fastforce
    moreover have "live s' \<subseteq> live s" using rel map_le_live [of s' s] by (simp add: released_def)
    ultimately show ?thesis by (rule depths_ok_keeps [OF inv ok])
  qed (use ok in simp)
qed

lemma Release_mounts:
  assumes inv: "ls_inv h s" and run: "layerStore_Release B r s = Some (res, s')"
  shows "ls_inv h s'" and "mounts s' = mounts s"
proof -
  have "ro s (snd r) \<noteq> None" using run by (auto simp: layerStore_Release_def split: option.splits)
  then show "ls_inv h s'" "mounts s' = mounts s"
    using Release_spec [OF inv, of r B] run by (auto simp: released_def)
qed

lemma saveRW_inv:
  assumes inv: "ls_inv (withParent (mparent m) h) s" and free: "mounts s (mname m) = None"
    and run: "layerStore_saveMount B m s = (None, s1)"
  shows "ls_inv h (snd (mountedLayer_getReference (mname m) s1))"
    and "depths_ok (snd (mountedLayer_getReference (mname m) s1)) = depths_ok s"
proof -
  obtain w where s1: "s1 = s\<lparr>world := w, mounts := (mounts s)(mname m \<mapsto> m)\<rparr>"
    using saveMount_spec [OF run] by auto
  have "ls_inv h s1"
    using mount_add_inv [where m = m and h = h and s = "s\<lparr>world := w\<rparr>"] inv free unfolding s1 by simp
  moreover have "mounts s1 (mname m) = Some m" by (simp add: s1)
  ultimately show "ls_inv h (snd (mountedLayer_getReference (mname m) s1))"
    by (rule mount_getReference_inv)
  show "depths_ok (snd (mountedLayer_getReference (mname m) s1)) = depths_ok s"
    by (simp add: mountedLayer_getReference_def Let_def s1 depths_ok_same)
qed

lemma cfg_invI:
  "ls_inv h s \<Longrightarrow> (\<And>n. k = Some n \<Longrightarrow> mounts s n = None) \<Longrightarrow> depths_ok s \<Longrightarrow>
   cfg_inv \<lparr>held = h, creating = k, store = s\<rparr>"
  by (simp add: cfg_inv_def)

lemma cfg_invD:
  assumes "cfg_inv \<lparr>held = h, creating = k, store = s\<rparr>"
  shows "ls_inv h s" and "k = Some n \<Longrightarrow> mounts s n = None" and "depths_ok s"
  using assms by (simp_all add: cfg_inv_def)

lemma critical_sections_keep_mounts:
  "layerStore_Get c s = (res, s') \<Longrightarrow> mounts s' = mounts s"
  "registerCommit B tx l s = ((failed, res'), s') \<Longrightarrow> mounts s' = mounts s"
  by (auto simp: layerStore_Get_def registerCommit_def layerStore_getWithoutLock_def roLayer_getReference_def
      callW_def Let_def split: option.splits prod.splits)

lemma lstep_inv:
  assumes "lstep B cf cf'" and "cfg_inv cf"
  shows "cfg_inv cf'"
  using assms
proof (induction rule: lstep.induct)
  case (env h k s w)
  then show ?case by (simp add: cfg_inv_def depths_ok_same)
next
  case (get c s res s' h k)
  note inv = cfg_invD [OF get.prems]
  show ?case
    using Get_inv [OF inv(1) get.hyps] Get_depths [OF inv(1,3) get.hyps] inv(2)
      critical_sections_keep_mounts(1) [OF get.hyps] by (intro cfg_invI) simp_all
next
  case (release r s res s' h k)
  note inv = cfg_invD [OF release.prems]
  show ?case
    using Release_mounts [OF inv(1) release.hyps] Release_depths [OF inv(1,3) release.hyps] inv(2)
    by (intro cfg_invI) simp_all
next
  case (acquire c s p s' h k)
  note inv = cfg_invD [OF acquire.prems] and g = getWithoutLock_inv [OF cfg_invD(1) [OF acquire.prems] acquire.hyps]
  show ?case
    using g(1) inv(2) depths_ok_keeps [OF inv(1,3), of s'] keeps_updRo [of incRef s p]
    by (intro cfg_invI) (simp_all add: g(3))
next
  case (abandon p s res s' h k)
  note inv = cfg_invD [OF abandon.prems]
  have ok: "release_ok h [] s res s'"
    using releaseLayer_spec [OF inv(1), of B] abandon.hyps by auto
  then show ?case
    using released_depths [OF inv(1,3)] inv(2)
    by (intro cfg_invI) (auto simp: release_ok_def released_def)
next
  case (commit tx l s failed res s' h k)
  note inv = cfg_invD [OF commit.prems]
  show ?case
    using registerCommit_inv(1) [OF inv(1) commit.hyps(2,3,1)] commit_depths [OF inv(1,3) commit.hyps(4,1)]
      inv(2) critical_sections_keep_mounts(2) [OF commit.hyps(1)] by (intro cfg_invI) simp_all
next
  case (saveRW m s s1 r s' h)
  note inv = cfg_invD [OF saveRW.prems]
  show ?case
    using saveRW_inv [OF inv(1) inv(2) [OF refl] saveRW.hyps(1)] saveRW.hyps(2) inv(3)
    by (intro cfg_invI) simp_all
next
  case (getRW n s res s' h)
  note inv = cfg_invD [OF getRW.prems]
  show ?case
    using getRW.hyps inv mount_getReference_inv [OF inv(1)]
    by (intro cfg_invI)
      (auto simp: layerStore_GetRWLayer_def mountedLayer_getReference_def Let_def depths_ok_same split: option.splits)
next
  case (dropRW s r m h)
  note inv = cfg_invD [OF dropRW.prems]
  show ?case
    using mount_upd_inv [OF inv(1) dropRW.hyps(1)] inv(3) by (intro cfg_invI) (simp_all add: depths_ok_same)
next
  case (unlinkRW s n m r h)
  note inv = cfg_invD [OF unlinkRW.prems]
  show ?case
    using mount_del_inv [OF inv(1) unlinkRW.hyps(1)] inv(3) by (intro cfg_invI) (simp_all add: depths_ok_same)
qed (simp_all add: cfg_inv_def)

section \<open>The operations are sequences of steps\<close>

abbreviation cfg :: "loc multiset \<Rightarrow> string option \<Rightarrow> 'w layerStore \<Rightarrow> 'w lconfig" where
  "cfg h k s \<equiv> \<lparr>held = h, creating = k, store = s\<rparr>"

lemma world_only_steps: "world_only s s' \<Longrightarrow> (lstep B)\<^sup>*\<^sup>* (cfg h k s) (cfg h k s')"
  by (auto simp: world_only_def intro: lstep.env)

text \<open>
  What \<open>registerBody\<close> does: driver and metadata work, then at most one commit of a layer with
  the content's chain id on top of the parent, then clean-up.
\<close>

definition commits ::
    "'w backend \<Rightarrow> loc option \<Rightarrow> roLayer option \<Rightarrow> bytes \<Rightarrow> 'w layerStore \<Rightarrow> bool \<Rightarrow> layerRef outcome \<Rightarrow> 'w layerStore \<Rightarrow> bool" where
  "commits B p pl ts s failed res s' \<longleftrightarrow>
     (\<exists>s1 l tx s2. world_only s s1 \<and> registerCommit B tx l s1 = ((failed, res), s2) \<and> world_only s2 s' \<and>
        parent l = p \<and> referenceCount l = 1 \<and> references l = {} \<and>
        chainID l = (case pl of None \<Rightarrow> digestOf B ts
                     | Some q \<Rightarrow> createChainIDFromParent (digestOf B) (chainID q) [digestOf B ts]))"

definition fails :: "'w layerStore \<Rightarrow> bool \<Rightarrow> layerRef outcome \<Rightarrow> 'w layerStore \<Rightarrow> bool" where
  "fails s failed res s' \<longleftrightarrow> world_only s s' \<and> failed \<and> (\<exists>e. res = Err e)"

lemma registerFill_split:
  assumes "registerFill B tx cache p pl ts desc s = ((failed, res), s')"
  shows "fails s failed res s' \<or> commits B p pl ts s failed res s'"
proof -
  let ?pid = "case pl of None \<Rightarrow> [] | Some l \<Rightarrow> cacheID l"
  obtain a s3 where c3: "layerStore_applyTar B tx ts ?pid cache s = (a, s3)" by (rule prod.exhaust)
  note w3 = world_only_applyTar [OF c3]
  note body = assms [unfolded registerFill_def c3, simplified]
  show ?thesis
  proof (cases a)
    case (Inl e)
    with body show ?thesis by (auto simp: fails_def intro: world_only_trans [OF w3 world_only_cleanup])
  next
    case (Inr nd)
    obtain n d where nd: "nd = (n, d)" by (rule prod.exhaust)
    have d: "d = digestOf B ts"
      using c3 Inr nd by (auto simp: layerStore_applyTar_def split: prod.splits option.splits sum.splits)
    let ?l = "\<lparr>chainID = (case pl of None \<Rightarrow> d | Some q \<Rightarrow> createChainIDFromParent (digestOf B) (chainID q) [d]),
                diffID = d, parent = p, cacheID = cache, lsize = n, descriptor = desc,
                referenceCount = 1, references = {}\<rparr>"
    obtain e4 s4 where c4: "storeLayer B tx ?l (map_option chainID pl) s3 = (e4, s4)" by (rule prod.exhaust)
    note w4 = world_only_trans [OF w3 world_only_storeLayer [OF c4]]
    obtain f r s5 where c5: "registerCommit B tx ?l s4 = ((f, r), s5)" by (metis prod.exhaust)
    have eq: "((failed, res), s') = (case e4 of
        Some e \<Rightarrow> ((True, Err e), registerCleanup B cache tx s4)
      | None \<Rightarrow> ((f, r), if f then registerCleanup B cache tx s5 else s5))"
      using body Inr nd c4 c5 by (cases e4) (auto simp: Let_def)
    show ?thesis
    proof (cases e4)
      case (Some e)
      with eq show ?thesis by (auto simp: fails_def intro: world_only_trans [OF w4 world_only_cleanup])
    next
      case None
      with eq have "failed = f" "res = r" "world_only s5 s'" by (simp_all add: world_only_cleanup)
      then have "commits B p pl ts s failed res s'"
        using c5 w4 unfolding commits_def d
        by - (rule exI [of _ s4], rule exI, rule exI [of _ tx], rule exI [of _ s5], auto)
      then show ?thesis ..
    qed
  qed
qed

lemma registerBody_split:
  assumes "registerBody B p ts desc s = ((failed, res), s')"
  shows "fails s failed res s' \<or> commits B p (Option.bind p (ro s)) ts s failed res s'"
proof -
  let ?pl = "Option.bind p (ro s)"
  let ?pid = "case ?pl of None \<Rightarrow> [] | Some l \<Rightarrow> cacheID l"
  obtain cache s0 where c0: "callW (randomID B) s = (cache, s0)" by (rule prod.exhaust)
  obtain e1 s1 where c1: "callW (drvCreate B cache ?pid [] Map.empty) s0 = (e1, s1)" by (rule prod.exhaust)
  obtain t s2 where c2: "callW (stStartTransaction B) s1 = (t, s2)" by (rule prod.exhaust)
  note w1 = world_only_trans [OF world_only_callW(1) [OF c0] world_only_callW(1) [OF c1]]
  note w2 = world_only_trans [OF w1 world_only_callW(1) [OF c2]]
  have eq: "((failed, res), s') = (case e1 of
        Some e \<Rightarrow> ((True, Err (ErrBackend e)), s1)
      | None \<Rightarrow> (case t of Inl e \<Rightarrow> ((True, Err (ErrBackend e)), s2)
                | Inr tx \<Rightarrow> registerFill B tx cache p ?pl ts desc s2))"
    using assms c0 c1 c2 unfolding registerBody_def Let_def by (cases e1; cases t) simp_all
  have lift: "commits B p ?pl ts s2 failed res s' \<Longrightarrow> commits B p ?pl ts s failed res s'"
    "fails s2 failed res s' \<Longrightarrow> fails s failed res s'"
    using world_only_trans [OF w2] unfolding commits_def fails_def by blast+
  show ?thesis
  proof (cases e1)
    case (Some e)
    with eq w1 show ?thesis by (simp add: fails_def)
  next
    case None
    with eq w2 show ?thesis
    proof (cases t)
      case (Inr tx)
      with eq None have "registerFill B tx cache p ?pl ts desc s2 = ((failed, res), s')" by simp
      from registerFill_split [OF this] lift show ?thesis by blast
    qed (simp add: fails_def)
  qed
qed

lemma lstep_first: "lstep B cf cf1 \<Longrightarrow> (lstep B)\<^sup>*\<^sup>* cf1 cf2 \<Longrightarrow> (lstep B)\<^sup>*\<^sup>* cf cf2"
  by (rule converse_rtranclp_into_rtranclp)

lemma steps_inv: "(lstep B)\<^sup>*\<^sup>* cf cf' \<Longrightarrow> cfg_inv cf \<Longrightarrow> cfg_inv cf'"
  by (induction rule: rtranclp_induct) (auto dest: lstep_inv)

lemma depth_below_world: "world_only s s' \<Longrightarrow> depth_below s' p = depth_below s p"
  by (cases p) (simp_all add: depth_below_def world_only_sel)

definition no_panic :: "'r outcome \<Rightarrow> bool" where
  "no_panic res \<longleftrightarrow> (case res of Panic m \<Rightarrow> False | _ \<Rightarrow> True)"

lemma no_panic_simps [simp]: "no_panic (Ok x)" "no_panic (Err e)" "\<not> no_panic (Panic m)"
  by (simp_all add: no_panic_def)

lemma registerBody_steps:
  assumes run: "registerBody B p ts desc s = ((failed, res), s')" and inv: "cfg_inv (cfg (withParent p h) k s)"
    and below: "depth_below s p"
  shows "(lstep B)\<^sup>*\<^sup>* (cfg (withParent p h) k s) (cfg (if failed then withParent p h else h) k s') \<and> no_panic res"
  using registerBody_split [OF run]
proof
  assume "fails s failed res s'"
  then show ?thesis by (auto simp: fails_def no_panic_def world_only_steps)
next
  assume "commits B p (Option.bind p (ro s)) ts s failed res s'"
  then obtain s1 l tx s2 where w: "world_only s s1" "world_only s2 s'"
    and c: "registerCommit B tx l s1 = ((failed, res), s2)"
    and l: "parent l = p" "referenceCount l = 1" "references l = {}"
    unfolding commits_def by blast
  have "(lstep B)\<^sup>*\<^sup>* (cfg (withParent p h) k s) (cfg (withParent p h) k s1)"
    by (rule world_only_steps [OF w(1)])
  also have "lstep B \<dots> (cfg (if failed then withParent p h else h) k s2)"
    using lstep.commit [OF c l(2,3), where h = h and k = k, unfolded l(1)] below depth_below_world [OF w(1)]
    by (simp only:)
  also have "(lstep B)\<^sup>*\<^sup>* \<dots> (cfg (if failed then withParent p h else h) k s')"
    by (rule world_only_steps [OF w(2)])
  finally have "(lstep B)\<^sup>*\<^sup>* (cfg (withParent p h) k s) (cfg (if failed then withParent p h else h) k s')" .
  moreover have "ls_inv (withParent (parent l) h) s1"
    using steps_inv [OF world_only_steps [OF w(1)] inv] by (simp add: cfg_inv_def l(1))
  ultimately show ?thesis
    using registerCommit_inv(2) [OF _ l(2,3) c] by (cases res) (auto simp: no_panic_def)
qed

lemma releaseParent_steps:
  assumes inv: "cfg_inv (cfg (add_mset p h) k s)" and ok: "no_panic res"
  shows "\<exists>s'. releaseParent B p res s = Some (res, s') \<and> (lstep B)\<^sup>*\<^sup>* (cfg (add_mset p h) k s) (cfg h k s')"
proof -
  obtain r s' where run: "layerStore_releaseLayer B p s = Some (r, s')" and r: "release_ok h [] s r s'"
    using releaseLayer_spec [OF cfg_invD(1) [OF inv]] by blast
  then have "releaseParent B p res s = Some (res, s')"
    by (cases r) (simp_all add: releaseParent_def release_ok_def)
  with lstep.abandon [OF run] show ?thesis by blast
qed

lemma register_steps:
  assumes inv: "cfg_inv (cfg h k s)"
  shows "\<exists>res s'. layerStore_registerWithDescriptor B ts c desc s = Some (res, s') \<and> no_panic res \<and>
           (lstep B)\<^sup>*\<^sup>* (cfg h k s) (cfg h k s')"
proof (cases "c = []")
  case True
  obtain failed res s' where run: "registerBody B None ts desc s = ((failed, res), s')" by (metis prod.exhaust)
  with registerBody_steps [OF run, of h k] inv True show ?thesis
    by (cases failed) (auto simp: layerStore_registerWithDescriptor_def depth_below_def)
next
  case False
  obtain p s1 where g: "layerStore_getWithoutLock c s = (p, s1)" by (rule prod.exhaust)
  show ?thesis
  proof (cases p)
    case None
    with g have "s1 = s" by (simp add: getWithoutLock_None)
    with g None False show ?thesis by (simp add: layerStore_registerWithDescriptor_def no_panic_def)
  next
    case (Some a)
    have acq: "lstep B (cfg h k s) (cfg (add_mset a h) k s1)" by (rule lstep.acquire [of c]) (simp add: g Some)
    note inv1 = lstep_inv [OF acq inv]
    have a1: "a \<in> live s1" using cfg_invD(1) [OF inv1] by (rule ls_inv_heldD)
    obtain d where d: "roLayer_depth (ro s1) a = Some d"
      using depth_total [OF cfg_invD(1) [OF inv1] a1] by blast
    note unfold = layerStore_registerWithDescriptor_def False g Some d
    show ?thesis
    proof (cases "maxLayerDepth \<le> d")
      case True
      obtain s2 where "releaseParent B a (Err ErrMaxDepthExceeded :: layerRef outcome) s1 = Some (Err ErrMaxDepthExceeded, s2)"
        "(lstep B)\<^sup>*\<^sup>* (cfg (add_mset a h) k s1) (cfg h k s2)"
        using releaseParent_steps [OF inv1] no_panic_simps(2) by blast
      with True lstep_first [OF acq] show ?thesis
        by (intro exI [of _ "Err ErrMaxDepthExceeded"] exI [of _ s2]) (simp add: unfold)
    next
      case below: False
      obtain failed res s2 where run: "registerBody B (Some a) ts desc s1 = ((failed, res), s2)" by (metis prod.exhaust)
      have body: "(lstep B)\<^sup>*\<^sup>* (cfg (add_mset a h) k s1) (cfg (if failed then add_mset a h else h) k s2)"
        and np: "no_panic res"
        using registerBody_steps [OF run, of h k] inv1 below d by (auto simp: depth_below_def)
      show ?thesis
      proof (cases failed)
        case True
        then obtain s3 where "releaseParent B a res s2 = Some (res, s3)"
          and "(lstep B)\<^sup>*\<^sup>* (cfg (add_mset a h) k s2) (cfg h k s3)"
          using releaseParent_steps [OF _ np, of a h k s2 B] steps_inv [OF body inv1] by auto
        moreover have "(lstep B)\<^sup>*\<^sup>* (cfg h k s) (cfg (add_mset a h) k s2)"
          using lstep_first [OF acq body] True by simp
        ultimately show ?thesis
          using True np below by (intro exI [of _ res] exI [of _ s3]) (simp add: unfold run)
      next
        case False
        with lstep_first [OF acq body] np below show ?thesis
          by (intro exI [of _ res] exI [of _ s2]) (simp add: unfold run)
      qed
    qed
  qed
qed

lemma createRWBody_steps:
  assumes run: "createRWBody B n p lbl f opt s = (res, s')"
  shows "(\<exists>e. res = Err e) \<and> world_only s s' \<or>
         (\<exists>r. res = Ok r) \<and> (lstep B)\<^sup>*\<^sup>* (cfg (withParent p h) (Some n) s) (cfg h None s')"
proof -
  let ?pid = "case Option.bind p (ro s) of None \<Rightarrow> [] | Some l \<Rightarrow> cacheID l"
  obtain mid s0 where c0: "callW (randomID B) s = (mid, s0)" by (rule prod.exhaust)
  define im where "im = (case f of None \<Rightarrow> (Inr (?pid, []), s0)
    | Some g \<Rightarrow> (case layerStore_initMount B mid ?pid lbl g opt s0 of
                  (Inl e, s1) \<Rightarrow> (Inl e, s1) | (Inr i, s1) \<Rightarrow> (Inr (i, i), s1)))"
  obtain x s1 where im: "im = (x, s1)" by (rule prod.exhaust)
  have "world_only s0 s1"
    using im unfolding im_def by (auto split: option.splits prod.splits sum.splits dest: world_only_initMount)
  with world_only_callW(1) [OF c0] have w1: "world_only s s1" by (rule world_only_trans)
  note body = run [unfolded createRWBody_def Let_def, unfolded c0, simplified, folded im_def, unfolded im, simplified]
  show ?thesis
  proof (cases x)
    case (Inl e)
    with body w1 show ?thesis by auto
  next
    case (Inr pi)
    obtain pid' i where pi: "pi = (pid', i)" by (rule prod.exhaust)
    obtain e2 s2 where c2: "callW (drvCreateReadWrite B mid pid' [] opt) s1 = (e2, s2)" by (rule prod.exhaust)
    note w2 = world_only_trans [OF w1 world_only_callW(1) [OF c2]]
    let ?m = "\<lparr>mname = n, mountID = mid, initID = i, mparent = p, mreferences = {}\<rparr>"
    obtain e3 s3 where c3: "layerStore_saveMount B ?m s2 = (e3, s3)" by (rule prod.exhaust)
    obtain r s4 where c4: "mountedLayer_getReference n s3 = (r, s4)" by (rule prod.exhaust)
    have eq: "(res, s') = (case e2 of Some e \<Rightarrow> (Err (ErrBackend e), s2)
        | None \<Rightarrow> (case e3 of Some e \<Rightarrow> (Err e, s3) | None \<Rightarrow> (Ok r, s4)))"
      using body Inr pi c2 c3 c4 by (cases e2; cases e3) simp_all
    have w3: "world_only s s3" if "e3 \<noteq> None"
      using saveMount_spec [OF c3] that w2 by (auto simp: world_only_def)
    have "(lstep B)\<^sup>*\<^sup>* (cfg (withParent p h) (Some n) s) (cfg h None s4)" if "e3 = None"
    proof -
      have "lstep B (cfg (withParent p h) (Some n) s2) (cfg h None s4)"
        using lstep.saveRW [of B ?m s2 s3 r s4 h] c3 c4 that by simp
      with world_only_steps [OF w2] show ?thesis by (rule rtranclp.rtrancl_into_rtrancl)
    qed
    with eq w2 w3 show ?thesis by (cases e2; cases e3) auto
  qed
qed

lemma CreateRWLayer_steps:
  assumes inv: "cfg_inv (cfg h None s)"
  shows "\<exists>res s'. layerStore_CreateRWLayer B n c lbl f opt s = Some (res, s') \<and> no_panic res \<and>
           (lstep B)\<^sup>*\<^sup>* (cfg h None s) (cfg h None s')"
proof (cases "mounts s n")
  case (Some m)
  then show ?thesis by (simp add: layerStore_CreateRWLayer_def exI [of _ "Err _"])
next
  case None
  have start: "lstep B (cfg h None s) (cfg h (Some n) s)" by (rule lstep.createRW [OF None])
  have stop: "lstep B (cfg g (Some n) t) (cfg g None t)" for g t by (rule lstep.endRW)
  show ?thesis
  proof (cases "c = []")
    case True
    obtain res s' where run: "createRWBody B n None lbl f opt s = (res, s')" by (rule prod.exhaust)
    have "no_panic res \<and> (lstep B)\<^sup>*\<^sup>* (cfg h (Some n) s) (cfg h None s')"
      using createRWBody_steps [OF run, of h] world_only_steps [of s s' B h "Some n"] stop [of h s'] by auto
    with lstep_first [OF start] True None run show ?thesis
      by (intro exI [of _ res] exI [of _ s']) (simp add: layerStore_CreateRWLayer_def)
  next
    case False
    obtain p s1 where g: "layerStore_getWithoutLock c s = (p, s1)" by (rule prod.exhaust)
    show ?thesis
    proof (cases p)
      case None
      with g have "s1 = s" by (simp add: getWithoutLock_None)
      with g None False \<open>mounts s n = None\<close> show ?thesis
        by (intro exI [of _ "Err ErrLayerDoesNotExist"] exI [of _ s]) (simp add: layerStore_CreateRWLayer_def)
    next
      case (Some a)
      have acq: "lstep B (cfg h (Some n) s) (cfg (add_mset a h) (Some n) s1)"
        by (rule lstep.acquire [of c]) (simp add: g Some)
      note pre = lstep_first [OF start lstep_first [OF acq]]
      obtain res s2 where run: "createRWBody B n (Some a) lbl f opt s1 = (res, s2)" by (rule prod.exhaust)
      note unfold = layerStore_CreateRWLayer_def None False g Some run
      show ?thesis
      proof (cases res)
        case (Ok r)
        with createRWBody_steps [OF run, of h] pre show ?thesis
          by (intro exI [of _ res] exI [of _ s2]) (simp add: unfold \<open>mounts s n = None\<close>)
      next
        case (Err e)
        with createRWBody_steps [OF run, of h] have w: "world_only s1 s2" by simp
        have mid: "(lstep B)\<^sup>*\<^sup>* (cfg h None s) (cfg (add_mset a h) None s2)"
          using pre [OF rtranclp.rtrancl_into_rtrancl [OF world_only_steps [OF w] stop]] .
        obtain s3 where "releaseParent B a (Err e :: rwLayerRef outcome) s2 = Some (Err e, s3)"
          "(lstep B)\<^sup>*\<^sup>* (cfg (add_mset a h) None s2) (cfg h None s3)"
          using releaseParent_steps [OF steps_inv [OF mid inv]] no_panic_simps(2) by blast
        with mid Err show ?thesis
          by (intro exI [of _ "Err e"] exI [of _ s3]) (simp add: unfold \<open>mounts s n = None\<close>)
      next
        case (Panic m)
        with createRWBody_steps [OF run, of h] show ?thesis by simp
      qed
    qed
  qed
qed

lemma ReleaseRWLayer_steps:
  assumes inv: "cfg_inv (cfg h None s)"
  shows "\<exists>res s'. layerStore_ReleaseRWLayer B r s = Some (res, s') \<and> no_panic res \<and>
           (lstep B)\<^sup>*\<^sup>* (cfg h None s) (cfg h None s')"
proof (cases "mounts s (snd r)")
  case None
  then show ?thesis by (intro exI [of _ "Ok []"] exI [of _ s]) (simp add: layerStore_ReleaseRWLayer_def)
next
  case (Some m)
  note m = Some
  consider (unknown) "fst r \<notin> mreferences m" | (shared) "fst r \<in> mreferences m" "mreferences m - {fst r} \<noteq> {}"
    | (last) "fst r \<in> mreferences m" "mreferences m - {fst r} = {}" by blast
  then show ?thesis
  proof cases
    case unknown
    with m show ?thesis
      by (intro exI [of _ "Err ErrLayerNotRetained"] exI [of _ s]) (simp add: layerStore_ReleaseRWLayer_def)
  next
    case shared
    with lstep.dropRW [OF m shared] m show ?thesis by (auto simp: layerStore_ReleaseRWLayer_def)
  next
    case last
    obtain e1 s1 where c1: "callW (drvRemove B (mountID m)) s = (e1, s1)" by (rule prod.exhaust)
    obtain e2 s2 where c2: "(if initID m \<noteq> [] then callW (drvRemove B (initID m)) s1 else (None, s1)) = (e2, s2)"
      by (rule prod.exhaust)
    obtain e3 s3 where c3: "callW (stRemoveMount B (mname m)) s2 = (e3, s3)" by (rule prod.exhaust)
    have w1: "world_only s s1" by (rule world_only_callW(1) [OF c1])
    have "world_only s1 s2" using c2 by (auto split: if_splits intro: world_only_callW(1))
    with w1 have w2: "world_only s s2" by (rule world_only_trans)
    note w3 = world_only_trans [OF w2 world_only_callW(1) [OF c3]]
    let ?s4 = "s3\<lparr>mounts := (mounts s3)(mname m := None)\<rparr>"
    have run: "layerStore_ReleaseRWLayer B r s = (case e1 of Some e \<Rightarrow> Some (Err (ErrBackend e), s1)
      | None \<Rightarrow> (case e2 of Some e \<Rightarrow> Some (Err (ErrBackend e), s2)
      | None \<Rightarrow> (case e3 of Some e \<Rightarrow> Some (Err (ErrBackend e), s3)
      | None \<Rightarrow> (case mparent m of None \<Rightarrow> Some (Ok [], ?s4) | Some p \<Rightarrow> layerStore_releaseLayer B p ?s4))))"
      using m last c1 c2 c3 unfolding layerStore_ReleaseRWLayer_def Let_def
      by (cases e1; cases e2; cases e3; cases "initID m = []"; simp)
    have name: "mname m = snd r" by (rule ls_inv_mount(1) [OF cfg_invD(1) [OF inv] m])
    have m3: "mounts s3 (mname m) = Some m" using m name world_only_sel(3) [OF w3] by simp
    have unlink: "(lstep B)\<^sup>*\<^sup>* (cfg h None s) (cfg (withParent (mparent m) h) None ?s4)"
      using rtranclp.rtrancl_into_rtrancl [OF world_only_steps [OF w3] lstep.unlinkRW [OF m3]] last by blast
    show ?thesis
    proof (cases "e1 = None \<and> e2 = None \<and> e3 = None")
      case False
      then obtain e t where "layerStore_ReleaseRWLayer B r s = Some (Err e, t)" "world_only s t"
        using run w1 w2 w3 by (cases e1; cases e2; cases e3) auto
      then show ?thesis using world_only_steps by (intro exI [of _ "Err e"] exI [of _ t]) simp
    next
      case True
      show ?thesis
      proof (cases "mparent m")
        case None
        with True run unlink show ?thesis by (intro exI [of _ "Ok []"] exI [of _ ?s4]) simp
      next
        case (Some p)
        then have inv4: "cfg_inv (cfg (add_mset p h) None ?s4)" using steps_inv [OF unlink inv] by simp
        then obtain res s5 where rel: "layerStore_releaseLayer B p ?s4 = Some (res, s5)" and ok: "release_ok h [] ?s4 res s5"
          using releaseLayer_spec cfg_invD(1) by blast
        have "lstep B (cfg (add_mset p h) None ?s4) (cfg h None s5)" by (rule lstep.abandon [OF rel])
        with unlink Some True run rel ok show ?thesis
          by (intro exI [of _ res] exI [of _ s5]) (cases res; auto simp: release_ok_def)
      qed
    qed
  qed
qed

end
