(* ===== verification/Layer_Properties.thy ===== *)
theory Layer_Properties
  imports Layer_Safety
begin

text \<open>
  The properties of the layer store, over all configurations that the critical sections of
  concurrent calls reach from an empty store, for every driver, metadata store, digest and
  random source.  A small deterministic backend instantiates them.
\<close>

section \<open>Reachable configurations\<close>

definition emptyStore :: "'w \<Rightarrow> 'w layerStore" where
  "emptyStore w = \<lparr>ro = Map.empty, layerMap = Map.empty, mounts = Map.empty, nextLoc = 0, world = w\<rparr>"

definition reachable :: "'w backend \<Rightarrow> 'w lconfig \<Rightarrow> bool" where
  "reachable B cf \<longleftrightarrow> (\<exists>w. (lstep B)\<^sup>*\<^sup>* (cfg {#} None (emptyStore w)) cf)"

lemma cfg_inv_empty: "cfg_inv (cfg {#} None (emptyStore w))"
  by (simp add: cfg_inv_def ls_inv_def depths_ok_def live_def emptyStore_def)

lemma reachable_inv: "reachable B cf \<Longrightarrow> cfg_inv cf"
  unfolding reachable_def by (erule exE) (erule steps_inv, rule cfg_inv_empty)

lemma reachable_steps: "reachable B cf \<Longrightarrow> (lstep B)\<^sup>*\<^sup>* cf cf' \<Longrightarrow> reachable B cf'"
  unfolding reachable_def by (erule exE) (rule exI, erule (1) rtranclp_trans)

lemma reachable_empty: "reachable B (cfg {#} None (emptyStore w))"
  by (auto simp: reachable_def)

text \<open>A backend on which every call succeeds; the world counts the random identifiers.\<close>

definition demoB :: "nat backend" where
  "demoB = \<lparr>digestOf = (\<lambda>b. CHR ''#'' # b), randomID = (\<lambda>n. (replicate (n + 1) CHR ''i'', n + 1)),
     inputTarStream = Inr, drvCreate = (\<lambda>_ _ _ _ w. (None, w)), drvCreateReadWrite = (\<lambda>_ _ _ _ w. (None, w)),
     drvRemove = (\<lambda>_ w. (None, w)), drvGet = (\<lambda>i _ w. (Inr i, w)), drvPut = (\<lambda>_ w. (None, w)),
     drvApplyDiff = (\<lambda>_ _ b w. (Inr (int (length b)), w)), stStartTransaction = (\<lambda>w. (Inr ''tx'', w)),
     txTarSplitWriter = (\<lambda>_ w. (None, w)), txSetDiffID = (\<lambda>_ _ w. (None, w)), txSetSize = (\<lambda>_ _ w. (None, w)),
     txSetCacheID = (\<lambda>_ _ w. (None, w)), txSetDescriptor = (\<lambda>_ _ w. (None, w)), txSetParent = (\<lambda>_ _ w. (None, w)),
     txCommit = (\<lambda>_ _ w. (None, w)), txCancel = (\<lambda>_ w. (None, w)), stRemove = (\<lambda>_ w. (None, w)),
     stSetMountID = (\<lambda>_ _ w. (None, w)), stSetInitID = (\<lambda>_ _ w. (None, w)), stSetMountParent = (\<lambda>_ _ w. (None, w)),
     stRemoveMount = (\<lambda>_ w. (None, w))\<rparr>"

definition demoStore :: "nat layerStore" where
  "demoStore = \<lparr>ro = [0 \<mapsto> \<lparr>chainID = ''#A'', diffID = ''#A'', parent = None, cacheID = ''i'', lsize = 1,
                             descriptor = emptyDescriptor, referenceCount = 1, references = {1}\<rparr>],
                layerMap = [''#A'' \<mapsto> 0], mounts = Map.empty, nextLoc = 2, world = 1\<rparr>"

lemmas register_unfold =
  layerStore_Register_def layerStore_registerWithDescriptor_def registerBody_def registerFill_def
  registerCommit_def layerStore_applyTar_def storeLayer_def layerStore_getWithoutLock_def
  roLayer_getReference_def updRo_def callW_def Let_def

lemma demoB_sel: "drvRemove demoB c w = (None, w)" "stRemove demoB i w = (None, w)"
  by (simp_all add: demoB_def)

lemma demo_register: "layerStore_Register demoB ''A'' [] (emptyStore 0) = Some (Ok (1, 0), demoStore)"
  by (simp add: register_unfold demoB_def emptyStore_def demoStore_def emptyDescriptor_def fun_eq_iff)

lemma demo_reachable: "reachable demoB (cfg {#} None demoStore)"
proof -
  obtain res s' where "layerStore_Register demoB ''A'' [] (emptyStore 0) = Some (res, s')"
    and steps: "(lstep demoB)\<^sup>*\<^sup>* (cfg {#} None (emptyStore 0)) (cfg {#} None s')"
    unfolding layerStore_Register_def by (meson register_steps [OF cfg_inv_empty])
  then have "s' = demoStore" by (simp add: demo_register)
  with reachable_steps [OF reachable_empty steps] show ?thesis by simp
qed

lemma no_panic_iff: "no_panic res \<longleftrightarrow> (\<forall>m. res \<noteq> Panic m)"
  by (cases res) simp_all

lemma release_ok_no_panic: "release_ok h removed s res s' \<Longrightarrow> no_panic res"
  by (cases res) (simp_all add: release_ok_def)

lemma not_live_unused:
  assumes inv: "ls_inv h s" and a: "a \<notin> live s"
  shows "childrenOf s a = {} \<and> mountsOf s a = {} \<and> a \<notin># h"
proof -
  have "childrenOf s a = {}"
    using parent_live(2) [OF inv] a by (auto simp: childrenOf_def)
  moreover have "mountsOf s a = {}"
    using ls_inv_mount(2) [OF inv] a by (auto simp: mountsOf_def)
  ultimately show ?thesis using ls_inv_held(1) [OF inv] a by blast
qed

lemma released_unreferenced:
  assumes "released h s s'" and "a \<in> live s" and "a \<notin> live s'" and l': "ro s' a = Some l'"
  shows "references l' = {}"
proof -
  have un: "unused h s a" and same: "same_layers s s'" using assms unfolding released_def by blast+
  obtain l where l: "ro s a = Some l" using same_layers_sel(1) [OF same, of a] l' by fastforce
  show ?thesis using same_layers_sel(2) [OF same l l'] un l by (simp add: unused_def)
qed

lemma registerCommit_live:
  assumes "registerCommit B tx l s = ((failed, res), s')"
  shows "live s \<subseteq> live s'"
proof (cases "layerMap s (chainID l)")
  case None
  with assms show ?thesis
    by (auto simp: registerCommit_def layerStore_getWithoutLock_def roLayer_getReference_def callW_def Let_def live_def
        split: prod.splits option.splits)
next
  case (Some a)
  then have "layerStore_Get (chainID l) s = (res, s')"
    using assms by (auto simp: registerCommit_def layerStore_Get_def layerStore_getWithoutLock_def split: prod.splits)
  from Get_keeps(2) [OF this] show ?thesis by simp
qed

lemma step_removes_unreferenced:
  assumes "lstep B cf cf'" and "cfg_inv cf" and "a \<in> live (store cf)" and "a \<notin> live (store cf')"
  shows "\<forall>l. ro (store cf') a = Some l \<longrightarrow> references l = {}"
  using assms
proof cases
  case (get c s res s' h k)
  with assms(3,4) Get_keeps(2) [OF get(3)] show ?thesis by simp
next
  case (release r s res s' h k)
  have inv: "ls_inv h s" using assms(2) release by (simp add: cfg_inv_def)
  have "ro s (snd r) \<noteq> None" using release by (auto simp: layerStore_Release_def split: option.splits)
  from Release_spec [OF inv this, of B]
  have "s' = s \<or> (\<exists>b. released h (updRo b (roLayer_deleteReference r) s) s')"
    unfolding release(3) by auto
  then obtain b where "released h (updRo b (roLayer_deleteReference r) s) s'"
    using assms(3,4) unfolding release(1,2) by auto
  from released_unreferenced [OF this] assms(3,4) show ?thesis unfolding release(1,2) by simp
next
  case (acquire c s p s' h k)
  then have "ls_inv h s" using assms(2) by (simp add: cfg_inv_def)
  from getWithoutLock_inv(3) [OF this acquire(3)] assms(3,4) acquire show ?thesis by simp
next
  case (abandon p s res s' h k)
  then have "ls_inv (add_mset p h) s" using assms(2) by (simp add: cfg_inv_def)
  from releaseLayer_spec [OF this, of B] have "released h s s'"
    unfolding abandon(3) release_ok_def by auto
  from released_unreferenced [OF this] assms(3,4) show ?thesis unfolding abandon(1,2) by simp
next
  case (commit tx l s failed res s' h k)
  have "live s \<subseteq> live s'" by (rule registerCommit_live [OF commit(3)])
  with assms(3,4) show ?thesis unfolding commit(1,2) by auto
next
  case (saveRW m s s1 r s' h)
  with saveMount_spec [OF saveRW(3)] have "live s' = live s"
    by (auto simp: live_def mountedLayer_getReference_def Let_def)
  with assms(3,4) show ?thesis unfolding saveRW(1,2) by simp
next
  case (getRW n s res s' h)
  then have "live s' = live s"
    by (auto simp: layerStore_GetRWLayer_def live_def mountedLayer_getReference_def Let_def split: option.splits)
  with assms(3,4) show ?thesis unfolding getRW(1,2) by simp
qed (use assms(3,4) in \<open>simp_all add: live_def\<close>)

section \<open>Counts\<close>

text \<open>
  C1: In every configuration that concurrent calls reach, the reference count of a layer in
  the layer map is the number of handles given out for it, plus the child layers in the map,
  plus the mounts on top of it, plus the counts held by calls in flight.
\<close>

theorem layer_counts_balanced:
  assumes "reachable B cf" and "layerMap (store cf) c = Some a" and "ro (store cf) a = Some l"
  shows "referenceCount l = int (card (references l) + card (childrenOf (store cf) a) +
           card (mountsOf (store cf) a) + count (held cf) a)"
proof -
  have inv: "ls_inv (held cf) (store cf)" using reachable_inv [OF assms(1)] by (simp add: cfg_inv_def)
  have "a \<in> live (store cf)" using assms(2) by (auto simp: live_def ran_def)
  from ls_inv_at(2) [OF inv this assms(3)] show ?thesis by (simp only: layer_ok_def)
qed

theorem layer_counts_balanced_witness:
  "referenceCount (the (ro demoStore 0)) = int (card (references (the (ro demoStore 0))) +
     card (childrenOf demoStore 0) + card (mountsOf demoStore 0) + count {#} 0)"
  using layer_counts_balanced [OF demo_reachable, of "''#A''" 0] by (simp add: demoStore_def)

text \<open>
  C22: No panic of the layer store is reachable: releasing any handle to an allocated layer,
  and releasing a count held by a call in flight, returns and is not one of the panics
  "layer not retained", "cannot remove layer with child", "cannot delete referenced layer".
\<close>

theorem layer_release_never_panics:
  assumes "reachable B cf"
  shows "(ro (store cf) (snd r) \<noteq> None \<longrightarrow>
            (\<exists>res s'. layerStore_Release B r (store cf) = Some (res, s') \<and> no_panic res)) \<and>
         (p \<in># held cf \<longrightarrow>
            (\<exists>res s'. layerStore_releaseLayer B p (store cf) = Some (res, s') \<and> no_panic res))"
proof (intro conjI impI)
  have inv: "ls_inv (held cf) (store cf)" using reachable_inv [OF assms(1)] by (simp add: cfg_inv_def)
  assume "ro (store cf) (snd r) \<noteq> None"
  from Release_spec [OF inv this, of B]
  show "\<exists>res s'. layerStore_Release B r (store cf) = Some (res, s') \<and> no_panic res"
    unfolding no_panic_iff by blast
next
  assume "p \<in># held cf"
  then obtain h where "held cf = add_mset p h" by (rule mset_add)
  with reachable_inv [OF assms(1)] have "ls_inv (add_mset p h) (store cf)" by (simp add: cfg_inv_def)
  from releaseLayer_spec [OF this, of B]
  show "\<exists>res s'. layerStore_releaseLayer B p (store cf) = Some (res, s') \<and> no_panic res"
    using release_ok_no_panic by blast
qed

theorem layer_release_never_panics_witness:
  "\<exists>res s'. layerStore_Release demoB (1, 0) demoStore = Some (res, s') \<and> no_panic res"
  using layer_release_never_panics [OF demo_reachable, of "(1, 0)"] by (simp add: demoStore_def)

text \<open>
  C2: A layer that leaves the layer map is in use by nobody: after the step no handle, no
  child layer in the map, no mount and no call in flight refers to it.
\<close>

theorem layer_in_use_kept:
  assumes "reachable B cf" and "lstep B cf cf'" and "a \<in> live (store cf)" and "a \<notin> live (store cf')"
  shows "childrenOf (store cf') a = {} \<and> mountsOf (store cf') a = {} \<and> a \<notin># held cf' \<and>
         (\<forall>l. ro (store cf') a = Some l \<longrightarrow> references l = {})"
proof -
  have inv: "cfg_inv cf" and inv': "cfg_inv cf'"
    using reachable_inv [OF assms(1)] lstep_inv [OF assms(2)] by blast+
  then have "ls_inv (held cf') (store cf')" by (simp add: cfg_inv_def)
  from not_live_unused [OF this assms(4)] step_removes_unreferenced [OF assms(2) inv assms(3,4)]
  show ?thesis by blast
qed

theorem layer_in_use_kept_witness:
  "\<exists>cf'. lstep demoB (cfg {#} None demoStore) cf' \<and> (\<forall>l. ro (store cf') 0 = Some l \<longrightarrow> references l = {})"
proof -
  let ?s' = "demoStore\<lparr>ro := (ro demoStore)(0 \<mapsto> (the (ro demoStore 0))\<lparr>referenceCount := 0, references := {}\<rparr>), layerMap := Map.empty\<rparr>"
  have "layerStore_Release demoB (1, 0) demoStore =
      Some (Ok [\<lparr>MChainID = ''#A'', MDiffID = ''#A'', MSize = 1, MDiffSize = 1\<rparr>], ?s')"
    by (simp add: layerStore_Release_def layerStore_releaseLayer_def releaseLoop.simps [of demoB 0] layerStore_deleteLayer_def
        roLayer_Size.simps [of _ 0] roLayer_hasReference_def roLayer_hasReferences_def roLayer_deleteReference_def
        updRo_def callW_def demoStore_def demoB_sel fun_eq_iff)
  then have step: "lstep demoB (cfg {#} None demoStore) (cfg {#} None ?s')" by (rule lstep.release)
  have "0 \<in> live demoStore" "0 \<notin> live ?s'" by (simp_all add: live_def demoStore_def)
  with layer_in_use_kept [OF demo_reachable step, of 0]
  have "\<forall>l. ro (store (cfg {#} None ?s')) 0 = Some l \<longrightarrow> references l = {}" by simp
  with step show ?thesis by blast
qed

section \<open>Operations\<close>

text \<open>
  C23: \<open>Register\<close>, \<open>CreateRWLayer\<close> and \<open>ReleaseRWLayer\<close> return without a panic from every
  reachable state, whatever the driver and the metadata store answer, and refine the critical
  sections: each is a sequence of steps after which no count of the call is left behind.
\<close>

theorem layer_operations_refine_steps:
  assumes "reachable B (cfg h None s)"
  shows "(\<exists>res s'. layerStore_Register B ts c s = Some (res, s') \<and> no_panic res \<and>
            (lstep B)\<^sup>*\<^sup>* (cfg h None s) (cfg h None s')) \<and>
         (\<exists>res s'. layerStore_CreateRWLayer B n c lbl f opt s = Some (res, s') \<and> no_panic res \<and>
            (lstep B)\<^sup>*\<^sup>* (cfg h None s) (cfg h None s')) \<and>
         (\<exists>res s'. layerStore_ReleaseRWLayer B r s = Some (res, s') \<and> no_panic res \<and>
            (lstep B)\<^sup>*\<^sup>* (cfg h None s) (cfg h None s'))"
  unfolding layerStore_Register_def
  using register_steps CreateRWLayer_steps ReleaseRWLayer_steps reachable_inv [OF assms] by metis

theorem layer_operations_refine_steps_witness:
  "\<exists>res s'. layerStore_CreateRWLayer demoB ''c'' ''#A'' [] None Map.empty demoStore = Some (res, s') \<and> no_panic res \<and>
     (lstep demoB)\<^sup>*\<^sup>* (cfg {#} None demoStore) (cfg {#} None s')"
  using layer_operations_refine_steps [OF demo_reachable] by blast

text \<open>
  No chain of layers grows beyond \<open>maxLayerDepth\<close>: the loop that computes the depth of a
  layer in the map returns, with a value of at most 125, in every reachable state.
\<close>

lemma layer_depth_bounded:
  assumes "reachable B cf" and "layerMap (store cf) c = Some a"
  shows "\<exists>d \<le> 125. roLayer_depth (ro (store cf)) a = Some d"
proof -
  have "a \<in> live (store cf)" using assms(2) by (auto simp: live_def ran_def)
  with reachable_inv [OF assms(1)] show ?thesis by (simp add: cfg_inv_def depths_ok_def maxLayerDepth_def)
qed

text \<open>Handles.\<close>

definition handle_ok :: "'w layerStore \<Rightarrow> layerRef \<Rightarrow> ChainID \<Rightarrow> bool" where
  "handle_ok s r c \<longleftrightarrow> layerMap s c = Some (snd r) \<and> (\<exists>l. ro s (snd r) = Some l \<and> fst r \<in> references l)"

lemma handle_ok_world: "world_only s s' \<Longrightarrow> handle_ok s' r c = handle_ok s r c"
  by (simp add: handle_ok_def world_only_sel)

lemma getReference_handle:
  "layerMap s c = Some a \<Longrightarrow> ro s a \<noteq> None \<Longrightarrow> roLayer_getReference a s = (r, s') \<Longrightarrow>
   handle_ok s' r c \<and> snd r = a \<and> layerMap s' = layerMap s"
  by (auto simp: roLayer_getReference_def Let_def handle_ok_def)

lemma commit_handle:
  assumes inv: "ls_inv h s" and run: "registerCommit B tx l s = ((failed, Ok r), s')"
  shows "handle_ok s' r (chainID l)"
    and "failed \<Longrightarrow> layerMap s (chainID l) = Some (snd r) \<and> layerMap s' = layerMap s"
    and "\<not> failed \<Longrightarrow> layerMap s (chainID l) = None"
proof -
  have "handle_ok s' r (chainID l) \<and> (if failed then layerMap s (chainID l) = Some (snd r) \<and> layerMap s' = layerMap s
          else layerMap s (chainID l) = None)"
  proof (cases "layerMap s (chainID l)")
    case None
    with run show ?thesis
      by (auto simp: registerCommit_def layerStore_getWithoutLock_def callW_def Let_def
          split: prod.splits option.splits if_splits dest!: getReference_handle [of _ "chainID l" "nextLoc s", rotated 2])
  next
    case (Some a)
    have "a \<in> live s" using Some by (auto simp: live_def ran_def)
    then obtain k where k: "ro s a = Some k" using inv by (elim ls_inv_live)
    have "failed" "roLayer_getReference a (updRo a incRef s) = (r, s')"
      using run Some by (auto simp: registerCommit_def layerStore_getWithoutLock_def split: prod.splits)
    with getReference_handle [of "updRo a incRef s" "chainID l" a r s'] Some k show ?thesis by simp
  qed
  then show "handle_ok s' r (chainID l)"
    and "failed \<Longrightarrow> layerMap s (chainID l) = Some (snd r) \<and> layerMap s' = layerMap s"
    and "\<not> failed \<Longrightarrow> layerMap s (chainID l) = None" by simp_all
qed

lemma released_handle:
  assumes inv: "ls_inv g s" and rel: "released h s s'" and r: "handle_ok s r c"
  shows "handle_ok s' r c"
proof -
  obtain l where l: "layerMap s c = Some (snd r)" "ro s (snd r) = Some l" "fst r \<in> references l"
    using r by (auto simp: handle_ok_def)
  have same: "same_layers s s'" and le: "layerMap s' \<subseteq>\<^sub>m layerMap s" using rel by (simp_all add: released_def)
  have live: "snd r \<in> live s" using l by (auto simp: live_def ran_def)
  obtain l' where l': "ro s' (snd r) = Some l'" using same_layers_sel(1) [OF same, of "snd r"] l by fastforce
  have ref: "fst r \<in> references l'" using same_layers_sel(2) [OF same l(2) l'] l(3) by simp
  have "snd r \<in> live s'"
    using released_unreferenced [OF rel live _ l'] ref by blast
  then obtain c' where c': "layerMap s' c' = Some (snd r)" by (auto simp: live_def ran_def)
  with le have "layerMap s c' = Some (snd r)" by (auto simp: map_le_def dom_def)
  then have "c' = c" using ls_inv_chain [OF inv _ l(2)] l(1) by blast
  with c' l' ref show ?thesis by (simp add: handle_ok_def)
qed

lemma registerBody_handle:
  assumes inv: "ls_inv g s" and run: "registerBody B p ts desc s = ((failed, Ok r), s')"
    and cid: "cid = (case Option.bind p (ro s) of None \<Rightarrow> digestOf B ts
                     | Some q \<Rightarrow> createChainIDFromParent (digestOf B) (chainID q) [digestOf B ts])"
  shows "handle_ok s' r cid"
    and "if failed then layerMap s cid = Some (snd r) \<and> layerMap s' = layerMap s else layerMap s cid = None"
proof -
  have "commits B p (Option.bind p (ro s)) ts s failed (Ok r) s'"
    using registerBody_split [OF run] by (simp add: fails_def)
  then obtain s1 l tx s2 where w: "world_only s s1" "world_only s2 s'"
    and c: "registerCommit B tx l s1 = ((failed, Ok r), s2)" and l: "chainID l = cid"
    unfolding commits_def cid by blast
  have inv1: "ls_inv g s1" using w(1) inv by (auto simp: world_only_def)
  note h = commit_handle [OF inv1 c, unfolded l]
  from h(1) show "handle_ok s' r cid" by (simp add: handle_ok_world [OF w(2)])
  from h(2,3) show "if failed then layerMap s cid = Some (snd r) \<and> layerMap s' = layerMap s else layerMap s cid = None"
    by (simp add: world_only_sel [OF w(1)] world_only_sel [OF w(2)])
qed

lemma register_on_parent:
  assumes c: "c \<noteq> []" and run: "layerStore_Register B ts c s = Some (Ok r, s')"
  obtains p s1 failed s2 where "layerStore_getWithoutLock c s = (Some p, s1)" "depth_below s1 (Some p)"
    "registerBody B (Some p) ts emptyDescriptor s1 = ((failed, Ok r), s2)"
    "if failed then \<exists>rr. layerStore_releaseLayer B p s2 = Some (rr, s') else s' = s2"
proof -
  have release: "res = Ok r \<and> (\<exists>rr. layerStore_releaseLayer B p t = Some (rr, s'))"
    if rel: "releaseParent B p res t = Some (Ok r, s')" for p res t
  proof -
    obtain rr t' where "layerStore_releaseLayer B p t = Some (rr, t')"
      using rel by (auto simp: releaseParent_def bind_eq_Some_conv)
    with rel show ?thesis by (cases rr) (simp_all add: releaseParent_def)
  qed
  then have no_release: "releaseParent B p (Err e) t \<noteq> Some (Ok r, s')" for p e t by blast
  obtain p s1 where g: "layerStore_getWithoutLock c s = (Some p, s1)"
    using run c by (auto simp: layerStore_Register_def layerStore_registerWithDescriptor_def
        split: prod.splits option.splits)
  obtain d where d: "roLayer_depth (ro s1) p = Some d"
    using run c g by (auto simp: layerStore_Register_def layerStore_registerWithDescriptor_def bind_eq_Some_conv)
  obtain failed res s2 where body: "registerBody B (Some p) ts emptyDescriptor s1 = ((failed, res), s2)"
    by (metis prod.exhaust)
  have "(if maxLayerDepth \<le> d then releaseParent B p (Err ErrMaxDepthExceeded) s1
      else if failed then releaseParent B p res s2 else Some (res, s2)) = Some (Ok r, s')"
    using run c g d unfolding layerStore_Register_def layerStore_registerWithDescriptor_def
    by (simp add: body cong: if_cong)
  with no_release [of p ErrMaxDepthExceeded s1] release [of p res s2] d
  have "depth_below s1 (Some p)" "res = Ok r"
    "if failed then \<exists>rr. layerStore_releaseLayer B p s2 = Some (rr, s') else s' = s2"
    by (auto simp: depth_below_def split: if_splits)
  with g body show thesis using that by blast
qed

text \<open>
  C24: Layers are content addressed: a successful \<open>Register\<close> of a tar stream on a parent chain
  returns a handle to the layer that the map has under the chain id of parent and content, and
  that layer is retained by the handle; if a layer with that chain id was there before, the
  handle is to that layer and no layer was added.
\<close>

theorem register_content_addressed:
  assumes "reachable B (cfg h k s)" and "layerStore_Register B ts c s = Some (Ok r, s')"
    and "cid = (if c = [] then digestOf B ts else digestOf B (c @ '' '' @ digestOf B ts))"
  shows "handle_ok s' r cid \<and> (\<forall>a. layerMap s cid = Some a \<longrightarrow> snd r = a \<and> layerMap s' \<subseteq>\<^sub>m layerMap s)"
proof (cases "c = []")
  case True
  obtain failed where run: "registerBody B None ts emptyDescriptor s = ((failed, Ok r), s')"
    using assms(2) True by (auto simp: layerStore_Register_def layerStore_registerWithDescriptor_def split: prod.splits)
  have inv: "ls_inv h s" using reachable_inv [OF assms(1)] by (simp add: cfg_inv_def)
  show ?thesis using registerBody_handle [OF inv run, of cid] assms(3) True by (auto split: if_splits)
next
  case False
  have inv0: "ls_inv h s" using reachable_inv [OF assms(1)] by (simp add: cfg_inv_def)
  obtain p s1 failed s2 where g: "layerStore_getWithoutLock c s = (Some p, s1)" and below: "depth_below s1 (Some p)"
    and run: "registerBody B (Some p) ts emptyDescriptor s1 = ((failed, Ok r), s2)"
    and rel: "if failed then \<exists>rr. layerStore_releaseLayer B p s2 = Some (rr, s') else s' = s2"
    by (rule register_on_parent [OF False assms(2)])
  note g' = getWithoutLock_inv [OF inv0 g]
  then have inv1: "ls_inv (add_mset p h) s1" and map1: "layerMap s1 = layerMap s" by simp_all
  obtain q where q: "ro s1 p = Some q" using ls_inv_live [OF inv1 ls_inv_heldD [OF inv1]] by blast
  have "chainID q = c" using ls_inv_chain [OF inv1 _ q] g'(2) map1 by simp
  then have cid: "cid = (case Option.bind (Some p) (ro s1) of None \<Rightarrow> digestOf B ts
      | Some q \<Rightarrow> createChainIDFromParent (digestOf B) (chainID q) [digestOf B ts])"
    using q False assms(3) by simp
  note h = registerBody_handle [OF inv1 run cid]
  show ?thesis
  proof (cases failed)
    case False
    with h rel map1 show ?thesis by simp
  next
    case True
    have "lstep B (cfg h k s) (cfg (add_mset p h) k s1)" by (rule lstep.acquire [OF g])
    from lstep_inv [OF this reachable_inv [OF assms(1)]] have cfg1: "cfg_inv (cfg (withParent (Some p) h) k s1)" by simp
    have "cfg_inv (cfg (if failed then withParent (Some p) h else h) k s2)"
      using registerBody_steps [OF run cfg1 below] steps_inv [OF _ cfg1] by blast
    with True have inv2: "ls_inv (add_mset p h) s2" by (simp add: cfg_inv_def)
    obtain rr where "layerStore_releaseLayer B p s2 = Some (rr, s')" using rel True by auto
    then have "released h s2 s'" using releaseLayer_spec [OF inv2, of B] by (auto simp: release_ok_def)
    from released_handle [OF inv2 this h(1)] h(2) this True map1 show ?thesis by (simp add: released_def)
  qed
qed

theorem register_content_addressed_witness:
  "handle_ok demoStore (1, 0) ''#A''"
  using register_content_addressed [OF reachable_empty demo_register, of "''#A''"] by (simp add: demoB_def)

section \<open>Chain identifiers\<close>

lemma createChainIDFromParent_append:
  assumes "\<And>b. digest b \<noteq> []" and "\<forall>d \<in> set ds. d \<noteq> []"
  shows "createChainIDFromParent digest p (ds @ es) = createChainIDFromParent digest (createChainIDFromParent digest p ds) es"
  using assms by (induction ds arbitrary: p) simp_all

text \<open>
  The chain id of a stack of layers does not depend on how it is computed: going on from
  the chain id of a prefix with the remaining diff ids gives the chain id of the whole stack.
  This is what lets \<open>registerWithDescriptor\<close> extend the parent's chain id by one diff id.
\<close>

lemma chain_id_append:
  assumes "\<And>b. digest b \<noteq> []" and "\<forall>d \<in> set ds. d \<noteq> []"
  shows "CreateChainID digest (ds @ es) = createChainIDFromParent digest (CreateChainID digest ds) es"
  unfolding CreateChainID_def by (rule createChainIDFromParent_append [OF assms])


end
