(* ===== verification/Image_Store.thy ===== *)
theory Image_Store
  imports Reference_Store Layer_Properties
begin

text \<open>
  The image store: \<^verbatim>\<open>src/image/store.go\<close>, its file backend \<^verbatim>\<open>src/image/fs.go\<close> and the parts of
  \<^verbatim>\<open>src/image/image.go\<close> and \<^verbatim>\<open>src/image/rootfs_unix.go\<close> it uses.

  The backend is a map from image ids to file contents and to metadata files; every file
  operation may fail, as told by a stream of outcomes that is part of the backend's state
  (an operation that fails leaves the files as they were).  Decoding JSON and the digest are
  parameters; so is the layer store, through the two calls of \<open>LayerGetReleaser\<close>, whose
  contract is the locale \<open>layer_releaser\<close> of \<open>Image_Properties\<close>, interpreted on the layer store.  The
  panics are values: the nil pointer dereference in \<open>Create\<close>, and the panic of the digest library
  on an id without a colon, which every file operation can raise and every caller passes on.
  An id is the name of its file, and is not taken apart at path separators.  Maps that Go ranges over in an unspecified
  order are taken in the order of their keys.
\<close>

section \<open>Files\<close>

type_synonym ID = string

record fsStore =
  content :: "(ID, bytes) fmap"
  metadata :: "ID \<Rightarrow> string \<rightharpoonup> bytes"
  ioErr :: "nat \<Rightarrow> string option"
  ioCount :: nat

text \<open>\<open>FsPanic\<close> is the panic of \<open>sepIndex\<close> on an id without a colon.\<close>

datatype fs_error = FsErr string | FsPanic

definition Digest_Algorithm :: "string \<Rightarrow> string option" where
  "Digest_Algorithm d = (case indexOf (CHR '':'') d of None \<Rightarrow> None | Some i \<Rightarrow> Some (take i d))"

definition Digest_Hex :: "string \<Rightarrow> string option" where
  "Digest_Hex d = (case indexOf (CHR '':'') d of None \<Rightarrow> None | Some i \<Rightarrow> Some (drop (i + 1) d))"

text \<open>The last two parts of a path, \<open>None\<close> if computing them panics.  They determine the id.\<close>

definition contentFile :: "ID \<Rightarrow> (string \<times> string) option" where
  "contentFile i =
     (case Digest_Algorithm i of
        None \<Rightarrow> None
      | Some alg \<Rightarrow> (case Digest_Hex i of None \<Rightarrow> None | Some hex \<Rightarrow> Some (alg, hex)))"

definition metadataDir :: "ID \<Rightarrow> (string \<times> string) option" where
  "metadataDir i =
     (case Digest_Algorithm i of
        None \<Rightarrow> None
      | Some alg \<Rightarrow> (case Digest_Hex i of None \<Rightarrow> None | Some hex \<Rightarrow> Some (alg, hex)))"

definition fs_io :: "fsStore \<Rightarrow> string option \<times> fsStore" where
  "fs_io s = (ioErr s (ioCount s), s\<lparr>ioCount := ioCount s + 1\<rparr>)"

definition fs_get :: "(bytes \<Rightarrow> string) \<Rightarrow> ID \<Rightarrow> fsStore \<Rightarrow> (fs_error + bytes) \<times> fsStore" where
  "fs_get digest i s =
     (if contentFile i = None then (Inl FsPanic, s)
      else case fs_io s of
        (Some e, s1) \<Rightarrow> (Inl (FsErr e), s1)
      | (None, s1) \<Rightarrow>
          (case fmlookup (content s) i of
             None \<Rightarrow> (Inl (FsErr ''no such file''), s1)
           | Some c \<Rightarrow> if digest c \<noteq> i then (Inl (FsErr ''failed to verify image''), s1) else (Inr c, s1)))"

definition fs_Get :: "(bytes \<Rightarrow> string) \<Rightarrow> ID \<Rightarrow> fsStore \<Rightarrow> (fs_error + bytes) \<times> fsStore" where
  "fs_Get digest i s = fs_get digest i s"

definition fs_Set :: "(bytes \<Rightarrow> string) \<Rightarrow> bytes \<Rightarrow> fsStore \<Rightarrow> (fs_error + ID) \<times> fsStore" where
  "fs_Set digest data s =
     (if data = [] then (Inl (FsErr ''Invalid empty data''), s)
      else if contentFile (digest data) = None then (Inl FsPanic, s)
      else case fs_io s of
        (Some e, s1) \<Rightarrow> (Inl (FsErr e), s1)
      | (None, s1) \<Rightarrow> (Inr (digest data), s1\<lparr>content := fmupd (digest data) data (content s1)\<rparr>))"

definition fs_Delete :: "ID \<Rightarrow> fsStore \<Rightarrow> fs_error option \<times> fsStore" where
  "fs_Delete i s =
     (if metadataDir i = None then (Some FsPanic, s)
      else case fs_io s of
        (Some e, s1) \<Rightarrow> (Some (FsErr e), s1)
      | (None, s1) \<Rightarrow>
          (let s2 = s1\<lparr>metadata := (metadata s1)(i := Map.empty)\<rparr>
           in if contentFile i = None then (Some FsPanic, s2)
              else case fs_io s2 of
                (Some e, s3) \<Rightarrow> (Some (FsErr e), s3)
              | (None, s3) \<Rightarrow>
                  if fmlookup (content s3) i = None then (Some (FsErr ''no such file''), s3)
                  else (None, s3\<lparr>content := fmdrop i (content s3)\<rparr>)))"

definition fs_SetMetadata ::
    "(bytes \<Rightarrow> string) \<Rightarrow> ID \<Rightarrow> string \<Rightarrow> bytes \<Rightarrow> fsStore \<Rightarrow> fs_error option \<times> fsStore" where
  "fs_SetMetadata digest i key data s =
     (case fs_get digest i s of
        (Inl e, s1) \<Rightarrow> (Some e, s1)
      | (Inr _, s1) \<Rightarrow>
          (if metadataDir i = None then (Some FsPanic, s1)
           else case fs_io s1 of
             (Some e, s2) \<Rightarrow> (Some (FsErr e), s2)
           | (None, s2) \<Rightarrow>
               (case fs_io s2 of
                  (Some e, s3) \<Rightarrow> (Some (FsErr e), s3)
                | (None, s3) \<Rightarrow> (None, s3\<lparr>metadata := (metadata s3)(i := (metadata s3 i)(key \<mapsto> data))\<rparr>))))"

definition fs_GetMetadata ::
    "(bytes \<Rightarrow> string) \<Rightarrow> ID \<Rightarrow> string \<Rightarrow> fsStore \<Rightarrow> (fs_error + bytes) \<times> fsStore" where
  "fs_GetMetadata digest i key s =
     (case fs_get digest i s of
        (Inl e, s1) \<Rightarrow> (Inl e, s1)
      | (Inr _, s1) \<Rightarrow>
          (if metadataDir i = None then (Inl FsPanic, s1)
           else case fs_io s1 of
             (Some e, s2) \<Rightarrow> (Inl (FsErr e), s2)
           | (None, s2) \<Rightarrow>
               (case metadata s i key of None \<Rightarrow> (Inl (FsErr ''no such file''), s2) | Some d \<Rightarrow> (Inr d, s2))))"

definition fs_DeleteMetadata :: "ID \<Rightarrow> string \<Rightarrow> fsStore \<Rightarrow> fs_error option \<times> fsStore" where
  "fs_DeleteMetadata i key s =
     (if metadataDir i = None then (Some FsPanic, s)
      else case fs_io s of
        (Some e, s1) \<Rightarrow> (Some (FsErr e), s1)
      | (None, s1) \<Rightarrow> (None, s1\<lparr>metadata := (metadata s1)(i := (metadata s1 i)(key := None))\<rparr>))"

text \<open>The ids that \<open>Walk\<close> visits: the directory in order, names that are no digest skipped.\<close>

definition fs_WalkIDs :: "fsStore \<Rightarrow> ID list" where
  "fs_WalkIDs s = filter (\<lambda>i. Digest_Validate i = None) (sorted_list_of_fset (fmdom (content s)))"

section \<open>Images\<close>

record Image =
  imgDiffIDs :: "DiffID list option"
  imgHistory :: "bool list"
  rawJSON :: bytes
  computedID :: ID
  imgParent :: ID

text \<open>
  \<open>imgDiffIDs\<close> is \<open>None\<close> when the pointer \<open>RootFS\<close> is nil; of a history entry only \<open>EmptyLayer\<close>
  is kept.
\<close>

record 'h imageMeta =
  metaLayer :: "'h option"
  metaChildren :: "ID fset"

record ('l, 'h) imageEnv =
  unmarshalImage :: "bytes \<Rightarrow> string + Image"
  digestBytes :: "bytes \<Rightarrow> string"
  lsGet :: "ChainID \<Rightarrow> 'l \<Rightarrow> (string + 'h) \<times> 'l"
  lsRelease :: "'h \<Rightarrow> 'l \<Rightarrow> (Metadata list outcome \<times> 'l) option"

record ('l, 'h) imageStore =
  images :: "(ID, 'h imageMeta) fmap"
  fs :: fsStore
  digestSet :: "ID fset"
  ls :: 'l

definition RootFS_ChainID :: "(bytes \<Rightarrow> string) \<Rightarrow> DiffID list \<Rightarrow> ChainID" where
  "RootFS_ChainID digest ds = CreateChainID digest ds"

definition NewFromJSON :: "('l, 'h) imageEnv \<Rightarrow> bytes \<Rightarrow> string + Image" where
  "NewFromJSON E src =
     (case unmarshalImage E src of
        Inl e \<Rightarrow> Inl e
      | Inr img \<Rightarrow>
          if imgDiffIDs img = None then Inl ''Invalid image JSON, no RootFS key.''
          else Inr (img\<lparr>rawJSON := src\<rparr>))"

definition withFs :: "(fsStore \<Rightarrow> 'x \<times> fsStore) \<Rightarrow> ('l, 'h) imageStore \<Rightarrow> 'x \<times> ('l, 'h) imageStore" where
  "withFs f s = (case f (fs s) of (x, f') \<Rightarrow> (x, s\<lparr>fs := f'\<rparr>))"

definition imageStore_GetParent ::
    "('l, 'h) imageEnv \<Rightarrow> ID \<Rightarrow> ('l, 'h) imageStore \<Rightarrow> (fs_error + ID) \<times> ('l, 'h) imageStore" where
  "imageStore_GetParent E i s = withFs (fs_GetMetadata (digestBytes E) i ''parent'') s"

definition imageStore_Get ::
    "('l, 'h) imageEnv \<Rightarrow> ID \<Rightarrow> ('l, 'h) imageStore \<Rightarrow> (fs_error + Image) \<times> ('l, 'h) imageStore" where
  "imageStore_Get E i s =
     (case withFs (fs_Get (digestBytes E) i) s of
        (Inl e, s1) \<Rightarrow> (Inl e, s1)
      | (Inr config, s1) \<Rightarrow>
          (case NewFromJSON E config of
             Inl e \<Rightarrow> (Inl (FsErr e), s1)
           | Inr img \<Rightarrow>
               (case imageStore_GetParent E i s1 of
                  (Inl FsPanic, s2) \<Rightarrow> (Inl FsPanic, s2)
                | (Inl (FsErr _), s2) \<Rightarrow> (Inr (img\<lparr>computedID := i, imgParent := []\<rparr>), s2)
                | (Inr p, s2) \<Rightarrow> (Inr (img\<lparr>computedID := i, imgParent := p\<rparr>), s2))))"

definition digestSet_Add :: "ID \<Rightarrow> ID fset \<Rightarrow> ref_error option \<times> ID fset" where
  "digestSet_Add i d = (case Digest_Validate i of Some e \<Rightarrow> (Some e, d) | None \<Rightarrow> (None, finsert i d))"

definition digestSet_Remove :: "ID \<Rightarrow> ID fset \<Rightarrow> ref_error option \<times> ID fset" where
  "digestSet_Remove i d = (case Digest_Validate i of Some e \<Rightarrow> (Some e, d) | None \<Rightarrow> (None, d |-| {|i|}))"

text \<open>The layer of a root file system, retained in the layer store; none for an empty chain id.\<close>

definition getLayer ::
    "('l, 'h) imageEnv \<Rightarrow> ChainID \<Rightarrow> ('l, 'h) imageStore \<Rightarrow> (string + 'h option) \<times> ('l, 'h) imageStore" where
  "getLayer E c s =
     (if c = [] then (Inr None, s)
      else case lsGet E c (ls s) of
        (Inl e, l) \<Rightarrow> (Inl e, s\<lparr>ls := l\<rparr>)
      | (Inr h, l) \<Rightarrow> (Inr (Some h), s\<lparr>ls := l\<rparr>))"

datatype 'a imageResult = IOk 'a | IErr string | IPanic

definition imageStore_Create ::
    "('l, 'h) imageEnv \<Rightarrow> bytes \<Rightarrow> ('l, 'h) imageStore \<Rightarrow> ID imageResult \<times> ('l, 'h) imageStore" where
  "imageStore_Create E config s =
     (case unmarshalImage E config of
        Inl e \<Rightarrow> (IErr e, s)
      | Inr img \<Rightarrow>
          (case imgDiffIDs img of
             None \<Rightarrow> (IPanic, s)
           | Some ds \<Rightarrow>
               if length ds < length (filter Not (imgHistory img))
               then (IErr ''too many non-empty layers in History section'', s)
               else
                 (case withFs (fs_Set (digestBytes E) config) s of
                    (Inl FsPanic, s1) \<Rightarrow> (IPanic, s1)
                  | (Inl (FsErr e), s1) \<Rightarrow> (IErr e, s1)
                  | (Inr imageID, s1) \<Rightarrow>
                      if fmlookup (images s1) imageID \<noteq> None then (IOk imageID, s1)
                      else
                        (case getLayer E (RootFS_ChainID (digestBytes E) ds) s1 of
                           (Inl e, s2) \<Rightarrow> (IErr e, s2)
                         | (Inr l, s2) \<Rightarrow>
                             (case digestSet_Add imageID (digestSet s2) of
                                (Some e, _) \<Rightarrow> (IErr ''invalid digest'', s2)
                              | (None, d) \<Rightarrow>
                                  (IOk imageID,
                                   s2\<lparr>images := fmupd imageID \<lparr>metaLayer = l, metaChildren = {||}\<rparr> (images s2),
                                      digestSet := d\<rparr>))))))"

definition dropChild :: "ID \<Rightarrow> ID \<Rightarrow> ('l, 'h) imageStore \<Rightarrow> ('l, 'h) imageStore" where
  "dropChild p c s =
     (case fmlookup (images s) p of
        None \<Rightarrow> s
      | Some m \<Rightarrow> s\<lparr>images := fmupd p (m\<lparr>metaChildren := metaChildren m |-| {|c|}\<rparr>) (images s)\<rparr>)"

text \<open>The next two return whether they panicked.\<close>

definition dropFromParent :: "('l, 'h) imageEnv \<Rightarrow> ID \<Rightarrow> ('l, 'h) imageStore \<Rightarrow> bool \<times> ('l, 'h) imageStore" where
  "dropFromParent E i s =
     (case imageStore_GetParent E i s of
        (Inl FsPanic, s1) \<Rightarrow> (True, s1)
      | (Inl (FsErr _), s1) \<Rightarrow> (False, s1)
      | (Inr p, s1) \<Rightarrow> (False, dropChild p i s1))"

fun deleteParentFiles :: "ID list \<Rightarrow> ('l, 'h) imageStore \<Rightarrow> bool \<times> ('l, 'h) imageStore" where
  "deleteParentFiles [] s = (False, s)"
| "deleteParentFiles (c # cs) s =
     (case withFs (fs_DeleteMetadata c ''parent'') s of
        (Some FsPanic, s1) \<Rightarrow> (True, s1)
      | (_, s1) \<Rightarrow> deleteParentFiles cs s1)"

text \<open>The result is \<open>None\<close> only if the layer store does not return.\<close>

definition digestPanic :: string where
  "digestPanic = ''could not find : in digest''"

definition imageStore_Delete ::
    "('l, 'h) imageEnv \<Rightarrow> ID \<Rightarrow> ('l, 'h) imageStore \<Rightarrow>
     ((string + Metadata list outcome) \<times> ('l, 'h) imageStore) option" where
  "imageStore_Delete E i s =
     (case fmlookup (images s) i of
        None \<Rightarrow> Some (Inl ''unrecognized image ID'', s)
      | Some m \<Rightarrow>
          (case deleteParentFiles (sorted_list_of_fset (metaChildren m)) s of
             (True, s1) \<Rightarrow> Some (Inr (Panic digestPanic), s1)
           | (False, s1) \<Rightarrow>
               (case dropFromParent E i s1 of
                  (True, s2) \<Rightarrow> Some (Inr (Panic digestPanic), s2)
                | (False, s2) \<Rightarrow>
                    (let s3 = s2\<lparr>digestSet := snd (digestSet_Remove i (digestSet s2)), images := fmdrop i (images s2)\<rparr>
                     in case withFs (fs_Delete i) s3 of
                          (Some FsPanic, s4) \<Rightarrow> Some (Inr (Panic digestPanic), s4)
                        | (_, s4) \<Rightarrow>
                            (case metaLayer m of
                               None \<Rightarrow> Some (Inr (Ok []), s4)
                             | Some h \<Rightarrow>
                                 (case lsRelease E h (ls s4) of
                                    None \<Rightarrow> None
                                  | Some (res, l) \<Rightarrow> Some (Inr res, s4\<lparr>ls := l\<rparr>)))))))"

text \<open>\<open>parentMeta\<close> is a pointer: the second lookup reads the object after the old link is gone.\<close>

definition imageStore_SetParent ::
    "('l, 'h) imageEnv \<Rightarrow> ID \<Rightarrow> ID \<Rightarrow> ('l, 'h) imageStore \<Rightarrow> fs_error option \<times> ('l, 'h) imageStore" where
  "imageStore_SetParent E i par s =
     (case fmlookup (images s) par of
        None \<Rightarrow> (Some (FsErr ''unknown parent image ID''), s)
      | Some _ \<Rightarrow>
          (case dropFromParent E i s of
             (True, s1) \<Rightarrow> (Some FsPanic, s1)
           | (False, s1) \<Rightarrow>
               (case fmlookup (images s1) par of
                  None \<Rightarrow> (Some (FsErr ''unknown parent image ID''), s1)
                | Some m \<Rightarrow>
                    withFs (fs_SetMetadata (digestBytes E) i ''parent'' par)
                      (s1\<lparr>images := fmupd par (m\<lparr>metaChildren := finsert i (metaChildren m)\<rparr>) (images s1)\<rparr>))))"

definition imageStore_children :: "ID \<Rightarrow> ('l, 'h) imageStore \<Rightarrow> ID fset" where
  "imageStore_children i s = (case fmlookup (images s) i of None \<Rightarrow> {||} | Some m \<Rightarrow> metaChildren m)"

definition imageStore_Children :: "ID \<Rightarrow> ('l, 'h) imageStore \<Rightarrow> ID fset" where
  "imageStore_Children i s = imageStore_children i s"

fun collectImages ::
    "('l, 'h) imageEnv \<Rightarrow> bool \<Rightarrow> ID list \<Rightarrow> ('l, 'h) imageStore \<Rightarrow> (ID \<rightharpoonup> Image) \<Rightarrow>
     (ID \<rightharpoonup> Image) imageResult \<times> ('l, 'h) imageStore" where
  "collectImages E al [] s acc = (IOk acc, s)"
| "collectImages E al (i # is) s acc =
     (if \<not> al \<and> imageStore_children i s \<noteq> {||} then collectImages E al is s acc
      else case imageStore_Get E i s of
             (Inl FsPanic, s1) \<Rightarrow> (IPanic, s1)
           | (Inl (FsErr _), s1) \<Rightarrow> collectImages E al is s1 acc
           | (Inr img, s1) \<Rightarrow> collectImages E al is s1 (acc(i \<mapsto> img)))"

definition imageStore_imagesMap ::
    "('l, 'h) imageEnv \<Rightarrow> bool \<Rightarrow> ('l, 'h) imageStore \<Rightarrow> (ID \<rightharpoonup> Image) imageResult \<times> ('l, 'h) imageStore" where
  "imageStore_imagesMap E al s = collectImages E al (sorted_list_of_fset (fmdom (images s))) s Map.empty"

definition imageStore_Heads :: "('l, 'h) imageEnv \<Rightarrow> ('l, 'h) imageStore \<Rightarrow> (ID \<rightharpoonup> Image) imageResult \<times> ('l, 'h) imageStore" where
  "imageStore_Heads E s = imageStore_imagesMap E False s"

definition imageStore_Map :: "('l, 'h) imageEnv \<Rightarrow> ('l, 'h) imageStore \<Rightarrow> (ID \<rightharpoonup> Image) imageResult \<times> ('l, 'h) imageStore" where
  "imageStore_Map E s = imageStore_imagesMap E True s"

section \<open>Restoring\<close>

fun restoreImages ::
    "('l, 'h) imageEnv \<Rightarrow> ID list \<Rightarrow> ('l, 'h) imageStore \<Rightarrow> fs_error option \<times> ('l, 'h) imageStore" where
  "restoreImages E [] s = (None, s)"
| "restoreImages E (i # is) s =
     (case imageStore_Get E i s of
        (Inl FsPanic, s1) \<Rightarrow> (Some FsPanic, s1)
      | (Inl (FsErr _), s1) \<Rightarrow> restoreImages E is s1
      | (Inr img, s1) \<Rightarrow>
          (case getLayer E (RootFS_ChainID (digestBytes E) (the (imgDiffIDs img))) s1 of
             (Inl e, s2) \<Rightarrow> (Some (FsErr e), s2)
           | (Inr l, s2) \<Rightarrow>
               (case digestSet_Add i (digestSet s2) of
                  (Some e, _) \<Rightarrow> (Some (FsErr ''invalid digest''), s2)
                | (None, d) \<Rightarrow>
                    restoreImages E is
                      (s2\<lparr>images := fmupd i \<lparr>metaLayer = l, metaChildren = {||}\<rparr> (images s2), digestSet := d\<rparr>))))"

fun restoreChildren :: "('l, 'h) imageEnv \<Rightarrow> ID list \<Rightarrow> ('l, 'h) imageStore \<Rightarrow> fs_error option \<times> ('l, 'h) imageStore" where
  "restoreChildren E [] s = (None, s)"
| "restoreChildren E (i # is) s =
     (case imageStore_GetParent E i s of
        (Inl FsPanic, s1) \<Rightarrow> (Some FsPanic, s1)
      | (Inl (FsErr _), s1) \<Rightarrow> restoreChildren E is s1
      | (Inr p, s1) \<Rightarrow>
          (case fmlookup (images s1) p of
             None \<Rightarrow> restoreChildren E is s1
           | Some m \<Rightarrow>
               restoreChildren E is
                 (s1\<lparr>images := fmupd p (m\<lparr>metaChildren := finsert i (metaChildren m)\<rparr>) (images s1)\<rparr>)))"

definition imageStore_restore ::
    "('l, 'h) imageEnv \<Rightarrow> ('l, 'h) imageStore \<Rightarrow> fs_error option \<times> ('l, 'h) imageStore" where
  "imageStore_restore E s =
     (case withFs fs_io s of
        (Some e, s0) \<Rightarrow> (Some (FsErr e), s0)
      | (None, s0) \<Rightarrow>
          (case restoreImages E (fs_WalkIDs (fs s0)) s0 of
             (Some e, s1) \<Rightarrow> (Some e, s1)
           | (None, s1) \<Rightarrow> restoreChildren E (sorted_list_of_fset (fmdom (images s1))) s1))"

definition NewImageStore ::
    "('l, 'h) imageEnv \<Rightarrow> fsStore \<Rightarrow> 'l \<Rightarrow> fs_error option \<times> ('l, 'h) imageStore" where
  "NewImageStore E f l = imageStore_restore E \<lparr>images = fmempty, fs = f, digestSet = {||}, ls = l\<rparr>"

end
