(* ===== verification/Image_Invariant.thy ===== *)
theory Image_Invariant
  imports Image_Store
begin

text \<open>
  Invariants of the image store.  \<open>is_base\<close> holds whatever file operations fail: the digest set
  has exactly the known ids, and every known image has an intact file.  \<open>is_inv\<close> adds the tree
  of images, on a backend without I/O errors: the child sets are the inverse of the parent
  files and every recorded parent is known.  Each is kept by the operations, and a restart
  rebuilds the store.
\<close>

section \<open>The backend\<close>

definition no_io :: "fsStore \<Rightarrow> bool" where
  "no_io f \<longleftrightarrow> (\<forall>n. ioErr f n = None)"

definition hasSep :: "ID \<Rightarrow> bool" where
  "hasSep i \<longleftrightarrow> CHR '':'' \<in> set i"

text \<open>The intact file of an id.\<close>

definition contentOf :: "(bytes \<Rightarrow> string) \<Rightarrow> fsStore \<Rightarrow> ID \<Rightarrow> bytes option" where
  "contentOf digest f i =
     (if \<not> hasSep i then None
      else case fmlookup (content f) i of None \<Rightarrow> None | Some c \<Rightarrow> if digest c = i then Some c else None)"

lemma path_iff [simp]: "contentFile i = None \<longleftrightarrow> \<not> hasSep i" "metadataDir i = None \<longleftrightarrow> \<not> hasSep i"
  by (auto simp: contentFile_def metadataDir_def Digest_Algorithm_def Digest_Hex_def hasSep_def indexOf_None_iff [symmetric]
      split: option.splits)

lemma valid_hasSep: "Digest_Validate i = None \<Longrightarrow> hasSep i"
  by (rule ccontr) (simp add: Digest_Validate_def hasSep_def indexOf_None_iff [symmetric] split: if_splits)

lemma contentOf_hasSep: "contentOf dg f i \<noteq> None \<Longrightarrow> hasSep i"
  by (simp add: contentOf_def split: if_splits)

definition same_files :: "fsStore \<Rightarrow> fsStore \<Rightarrow> bool" where
  "same_files f f' \<longleftrightarrow> content f' = content f \<and> metadata f' = metadata f \<and> ioErr f' = ioErr f"

lemma fs_reads [simp]:
  "same_files f (snd (fs_io f))" "same_files f (snd (fs_get dg i f))" "same_files f (snd (fs_GetMetadata dg i k f))"
  by (auto simp: same_files_def fs_io_def fs_get_def fs_GetMetadata_def split: option.split)

lemma fs_io_ok: "no_io f \<Longrightarrow> fst (fs_io f) = None"
  by (simp add: fs_io_def no_io_def)

text \<open>A read fails because the operation fails or because there is no intact file.\<close>

lemma fs_get_spec:
  "fst (fs_get dg i f) = Inr c \<Longrightarrow> contentOf dg f i = Some c"
  "contentOf dg f i = Some c \<Longrightarrow>
     fst (fs_get dg i f) = (case ioErr f (ioCount f) of None \<Rightarrow> Inr c | Some e \<Rightarrow> Inl (FsErr e))"
  "fst (fs_get dg i f) = Inl FsPanic \<longleftrightarrow> \<not> hasSep i"
  by (auto simp: fs_get_def fs_io_def contentOf_def split: option.splits if_splits)

lemma fs_GetMetadata_panic: "fst (fs_GetMetadata dg i k f) = Inl FsPanic \<longleftrightarrow> \<not> hasSep i"
  by (auto simp: fs_GetMetadata_def fs_get_def fs_io_def split: option.splits)

lemma fs_GetMetadata_ok:
  assumes "no_io f" and "contentOf dg f i \<noteq> None"
  shows "metadata f i k = Some d \<Longrightarrow> fst (fs_GetMetadata dg i k f) = Inr d"
    "metadata f i k = None \<Longrightarrow> \<exists>e. fst (fs_GetMetadata dg i k f) = Inl (FsErr e)"
  using assms
  by (auto simp: fs_GetMetadata_def fs_get_def fs_io_def no_io_def contentOf_def split: option.splits if_splits)

lemma fs_SetMetadata_frame:
  "content (snd (fs_SetMetadata dg i k d f)) = content f" "ioErr (snd (fs_SetMetadata dg i k d f)) = ioErr f"
  "metadata (snd (fs_SetMetadata dg i k d f)) j l = Some x \<Longrightarrow> metadata f j l = Some x \<or> x = d"
  by (auto simp: fs_SetMetadata_def fs_get_def fs_io_def split: option.splits if_splits)

lemma fs_SetMetadata_ok:
  assumes "no_io f" and "contentOf dg f i \<noteq> None"
  shows "fst (fs_SetMetadata dg i k d f) = None"
    "metadata (snd (fs_SetMetadata dg i k d f)) = (metadata f)(i := (metadata f i)(k \<mapsto> d))"
  using assms
  by (auto simp: fs_SetMetadata_def fs_get_def fs_io_def no_io_def contentOf_def split: option.splits if_splits)

lemma fs_DeleteMetadata_frame:
  "content (snd (fs_DeleteMetadata i k f)) = content f" "ioErr (snd (fs_DeleteMetadata i k f)) = ioErr f"
  "fst (fs_DeleteMetadata i k f) = Some FsPanic \<longleftrightarrow> \<not> hasSep i"
  "metadata (snd (fs_DeleteMetadata i k f)) j l = Some x \<Longrightarrow> metadata f j l = Some x"
  by (auto simp: fs_DeleteMetadata_def fs_io_def split: option.splits if_splits)

lemma fs_DeleteMetadata_ok:
  assumes "no_io f" and "hasSep i"
  shows "metadata (snd (fs_DeleteMetadata i k f)) = (metadata f)(i := (metadata f i)(k := None))"
  using assms by (simp add: fs_DeleteMetadata_def fs_io_def no_io_def)

lemma fs_Delete_frame:
  "j \<noteq> i \<Longrightarrow> fmlookup (content (snd (fs_Delete i f))) j = fmlookup (content f) j"
  "ioErr (snd (fs_Delete i f)) = ioErr f" "fst (fs_Delete i f) = Some FsPanic \<longleftrightarrow> \<not> hasSep i"
  by (auto simp: fs_Delete_def fs_io_def Let_def split: option.split)

lemma fs_Delete_shrinks:
  "fmlookup (content (snd (fs_Delete i f))) j = Some c \<Longrightarrow> fmlookup (content f) j = Some c"
  "metadata (snd (fs_Delete i f)) j k = Some x \<Longrightarrow> metadata f j k = Some x"
  by (auto simp: fs_Delete_def fs_io_def Let_def split: option.splits if_splits)

lemma fs_Delete_ok:
  assumes "no_io f" and "contentOf dg f i \<noteq> None"
  shows "content (snd (fs_Delete i f)) = fmdrop i (content f)"
    "metadata (snd (fs_Delete i f)) = (metadata f)(i := Map.empty)"
  using assms by (auto simp: fs_Delete_def fs_io_def no_io_def Let_def contentOf_def split: if_splits option.splits)

lemma fs_Set_cases:
  obtains (failed) e where "fst (fs_Set dg data f) = Inl e" "same_files f (snd (fs_Set dg data f))"
    "data \<noteq> [] \<Longrightarrow> hasSep (dg data) \<Longrightarrow> ioErr f (ioCount f) \<noteq> None"
  | (wrote) "fst (fs_Set dg data f) = Inr (dg data)" "hasSep (dg data)" "data \<noteq> []"
    "content (snd (fs_Set dg data f)) = fmupd (dg data) data (content f)"
    "metadata (snd (fs_Set dg data f)) = metadata f" "ioErr (snd (fs_Set dg data f)) = ioErr f"
proof (cases "data = [] \<or> \<not> hasSep (dg data) \<or> ioErr f (ioCount f) \<noteq> None")
  case True
  then have "\<exists>e. fst (fs_Set dg data f) = Inl e" "same_files f (snd (fs_Set dg data f))"
    "data \<noteq> [] \<Longrightarrow> hasSep (dg data) \<Longrightarrow> ioErr f (ioCount f) \<noteq> None"
    by (auto simp: fs_Set_def fs_io_def same_files_def)
  then show thesis using failed by blast
next
  case False
  then show thesis by (intro wrote) (simp_all add: fs_Set_def fs_io_def)
qed

lemma withFs_sel [simp]:
  "images (snd (withFs f s)) = images s" "digestSet (snd (withFs f s)) = digestSet s"
  "ls (snd (withFs f s)) = ls s" "fs (snd (withFs f s)) = snd (f (fs s))" "fst (withFs f s) = fst (f (fs s))"
  by (simp_all add: withFs_def split: prod.splits)

section \<open>Reading changes nothing\<close>

definition parentFile :: "('l, 'h) imageStore \<Rightarrow> ID \<Rightarrow> ID option" where
  "parentFile s i = metadata (fs s) i ''parent''"

definition known :: "('l, 'h) imageStore \<Rightarrow> ID \<Rightarrow> bool" where
  "known s i \<longleftrightarrow> i |\<in>| fmdom (images s)"

definition layersOf :: "('l, 'h) imageStore \<Rightarrow> ID \<Rightarrow> 'h option option" where
  "layersOf s i = map_option metaLayer (fmlookup (images s) i)"

lemma known_iff: "known s i \<longleftrightarrow> (\<exists>m. fmlookup (images s) i = Some m)"
  by (simp add: known_def fmlookup_dom_iff)

lemma known_layersOf: "known s i \<longleftrightarrow> layersOf s i \<noteq> None"
  by (simp add: known_iff layersOf_def)

lemma layersOf_sel [simp]:
  "layersOf (s\<lparr>ls := l\<rparr>) = layersOf s" "layersOf (s\<lparr>digestSet := d\<rparr>) = layersOf s"
  "layersOf (s\<lparr>images := fmupd i m (images s)\<rparr>) = (layersOf s)(i \<mapsto> metaLayer m)"
  by (simp_all add: layersOf_def fun_eq_iff)

definition same_store :: "('l, 'h) imageStore \<Rightarrow> ('l, 'h) imageStore \<Rightarrow> bool" where
  "same_store s s' \<longleftrightarrow>
     images s' = images s \<and> digestSet s' = digestSet s \<and> ls s' = ls s \<and> same_files (fs s) (fs s')"

lemma same_store_refl [simp]: "same_store s s"
  by (simp add: same_store_def same_files_def)

lemma same_store_trans: "same_store s s1 \<Longrightarrow> same_store s1 s2 \<Longrightarrow> same_store s s2"
  by (simp add: same_store_def same_files_def)

lemma same_store_sel:
  assumes "same_store s s'"
  shows "known s' = known s" "parentFile s' = parentFile s" "layersOf s' = layersOf s" "ls s' = ls s"
    "imageStore_Children i s' = imageStore_Children i s" "images s' = images s" "digestSet s' = digestSet s"
    "contentOf dg (fs s') = contentOf dg (fs s)" "metadata (fs s') = metadata (fs s)" "content (fs s') = content (fs s)"
    "no_io (fs s') \<longleftrightarrow> no_io (fs s)" "ioErr (fs s') = ioErr (fs s)"
  using assms
  by (simp_all add: same_store_def same_files_def known_def parentFile_def layersOf_def imageStore_Children_def imageStore_children_def
      contentOf_def no_io_def fun_eq_iff)

lemma GetParent_same: "same_store s (snd (imageStore_GetParent E i s))"
  by (simp add: same_store_def imageStore_GetParent_def)

lemma GetParent_panic: "fst (imageStore_GetParent E i s) = Inl FsPanic \<longleftrightarrow> \<not> hasSep i"
  by (simp add: imageStore_GetParent_def fs_GetMetadata_panic)

lemma GetParent_spec:
  assumes "no_io (fs s)" and "contentOf (digestBytes E) (fs s) i \<noteq> None"
  shows "parentFile s i = Some p \<Longrightarrow> fst (imageStore_GetParent E i s) = Inr p"
    and "parentFile s i = None \<Longrightarrow> \<exists>e. fst (imageStore_GetParent E i s) = Inl (FsErr e)"
  using fs_GetMetadata_ok [OF assms] by (simp_all add: imageStore_GetParent_def parentFile_def)

lemma GetParent_file:
  assumes "imageStore_GetParent E i s = (Inr q, s')"
  shows "parentFile s i = Some q"
proof -
  have "fst (fs_GetMetadata (digestBytes E) i ''parent'' (fs s)) = Inr q"
    using assms withFs_sel(5) [of "fs_GetMetadata (digestBytes E) i ''parent''" s] by (simp add: imageStore_GetParent_def)
  then show ?thesis
    by (auto simp: parentFile_def fs_GetMetadata_def split: prod.splits sum.splits if_splits option.splits)
qed

lemma fs_Get_store:
  obtains x s1 where "withFs (fs_Get (digestBytes E) i) s = (x, s1)" "x = fst (fs_get (digestBytes E) i (fs s))" "same_store s s1"
proof -
  obtain x s1 where g: "withFs (fs_Get (digestBytes E) i) s = (x, s1)" by (rule prod.exhaust)
  have "fst (withFs (fs_Get (digestBytes E) i) s) = fst (fs_get (digestBytes E) i (fs s))"
    "same_store s (snd (withFs (fs_Get (digestBytes E) i) s))" by (simp_all add: fs_Get_def same_store_def)
  then show thesis unfolding g by (intro that [OF g]) simp_all
qed

lemma Get_same: "same_store s (snd (imageStore_Get E i s))"
proof -
  obtain x s1 where g: "withFs (fs_Get (digestBytes E) i) s = (x, s1)" "same_store s s1" by (rule fs_Get_store)
  then have two: "same_store s (snd (imageStore_GetParent E i s1))" using GetParent_same same_store_trans by blast
  obtain y s2 where "imageStore_GetParent E i s1 = (y, s2)" by (rule prod.exhaust)
  with g two show ?thesis by (auto simp: imageStore_Get_def split: sum.split fs_error.split)
qed

text \<open>What \<open>Get\<close> returns: the configuration of the intact file, or the error of the read.\<close>

lemma Get_result:
  "fst (imageStore_Get E i s) = Inl FsPanic \<Longrightarrow> \<not> hasSep i"
  "fst (imageStore_Get E i s) = Inr img \<Longrightarrow> \<exists>c img0 p. contentOf (digestBytes E) (fs s) i = Some c \<and> NewFromJSON E c = Inr img0 \<and>
     img = img0\<lparr>computedID := i, imgParent := p\<rparr>"
  "contentOf (digestBytes E) (fs s) i = Some c \<Longrightarrow> NewFromJSON E c = Inr img0 \<Longrightarrow> fst (imageStore_Get E i s) = Inl x \<Longrightarrow>
     \<exists>e. x = FsErr e \<and> ioErr (fs s) (ioCount (fs s)) = Some e"
proof -
  obtain x s1 where g: "withFs (fs_Get (digestBytes E) i) s = (x, s1)" "x = fst (fs_get (digestBytes E) i (fs s))" by (rule fs_Get_store)
  obtain y s2 where gp: "imageStore_GetParent E i s1 = (y, s2)" by (rule prod.exhaust)
  note p = GetParent_panic [of E i s1, unfolded gp fst_conv]
  note f = fs_get_spec [where dg = "digestBytes E" and i = i and f = "fs s", folded g(2)]
  show "\<not> hasSep i" if "fst (imageStore_Get E i s) = Inl FsPanic"
    using that p f(3) by (auto simp: imageStore_Get_def g(1) gp split: sum.splits fs_error.splits)
  show "\<exists>c img0 p. contentOf (digestBytes E) (fs s) i = Some c \<and> NewFromJSON E c = Inr img0 \<and> img = img0\<lparr>computedID := i, imgParent := p\<rparr>"
    if "fst (imageStore_Get E i s) = Inr img"
    using that f(1) by (auto simp: imageStore_Get_def g(1) gp split: sum.splits fs_error.splits)
  show "\<exists>e. x = FsErr e \<and> ioErr (fs s) (ioCount (fs s)) = Some e"
    if c: "contentOf (digestBytes E) (fs s) i = Some c" "NewFromJSON E c = Inr img0" "fst (imageStore_Get E i s) = Inl x" for x
    using that f(2) [OF c(1)] p contentOf_hasSep [where dg = "digestBytes E" and f = "fs s" and i = i]
    by (auto simp: imageStore_Get_def g(1) gp split: sum.splits fs_error.splits option.splits)
qed

section \<open>What holds whatever fails\<close>

definition is_base :: "('l, 'h) imageEnv \<Rightarrow> ('l, 'h) imageStore \<Rightarrow> bool" where
  "is_base E s \<longleftrightarrow>
     digestSet s = fmdom (images s) \<and>
     (\<forall>i. known s i \<longrightarrow> Digest_Validate i = None \<and>
        (\<exists>c img. contentOf (digestBytes E) (fs s) i = Some c \<and> NewFromJSON E c = Inr img)) \<and>
     (\<forall>p m. fmlookup (images s) p = Some m \<longrightarrow> fBall (metaChildren m) hasSep)"

lemma is_baseD:
  assumes "is_base E s"
  shows "digestSet s = fmdom (images s)" "known s i \<Longrightarrow> Digest_Validate i = None" "known s i \<Longrightarrow> hasSep i"
    "fmlookup (images s) p = Some m \<Longrightarrow> c |\<in>| metaChildren m \<Longrightarrow> hasSep c"
  using assms valid_hasSep unfolding is_base_def by (blast, blast, blast, blast)

lemma is_base_json:
  assumes "is_base E s" and "known s i"
  obtains c img where "contentOf (digestBytes E) (fs s) i = Some c" "NewFromJSON E c = Inr img"
  using assms unfolding is_base_def by blast

text \<open>Steps that change nothing but child sets and parent files.\<close>

definition soft :: "('l, 'h) imageStore \<Rightarrow> ('l, 'h) imageStore \<Rightarrow> bool" where
  "soft s s' \<longleftrightarrow>
     layersOf s' = layersOf s \<and> digestSet s' = digestSet s \<and> ls s' = ls s \<and>
     content (fs s') = content (fs s) \<and> ioErr (fs s') = ioErr (fs s) \<and>
     (\<forall>i p. parentFile s' i = Some p \<longrightarrow> parentFile s i = Some p \<or> known s p) \<and>
     (\<forall>p m'. fmlookup (images s') p = Some m' \<longrightarrow>
        (\<exists>m. fmlookup (images s) p = Some m \<and> (\<forall>c. c |\<in>| metaChildren m' \<longrightarrow> c |\<in>| metaChildren m \<or> hasSep c)))"

lemma same_store_soft: "same_store s s' \<Longrightarrow> soft s s'"
  by (simp add: same_store_def same_files_def soft_def layersOf_def parentFile_def fun_eq_iff)

lemma soft_trans:
  assumes "soft s s1" and "soft s1 s2"
  shows "soft s s2"
proof -
  have "known s1 = known s" using assms(1) by (simp add: soft_def known_layersOf fun_eq_iff)
  then have "parentFile s i = Some p \<or> known s p" if "parentFile s2 i = Some p" for i p
    using that assms unfolding soft_def by metis
  moreover have "\<exists>m. fmlookup (images s) p = Some m \<and> (\<forall>c. c |\<in>| metaChildren m2 \<longrightarrow> c |\<in>| metaChildren m \<or> hasSep c)"
    if m2: "fmlookup (images s2) p = Some m2" for p m2
  proof -
    obtain m1 where m1: "fmlookup (images s1) p = Some m1" "\<forall>c. c |\<in>| metaChildren m2 \<longrightarrow> c |\<in>| metaChildren m1 \<or> hasSep c"
      using assms(2) m2 unfolding soft_def by blast
    then obtain m where "fmlookup (images s) p = Some m" "\<forall>c. c |\<in>| metaChildren m1 \<longrightarrow> c |\<in>| metaChildren m \<or> hasSep c"
      using assms(1) unfolding soft_def by blast
    with m1(2) show ?thesis by blast
  qed
  ultimately show ?thesis using assms unfolding soft_def by simp
qed

lemma soft_sel:
  assumes "soft s s'"
  shows "known s' = known s" "layersOf s' = layersOf s" "ls s' = ls s" "fmdom (images s') = fmdom (images s)"
    "contentOf dg (fs s') = contentOf dg (fs s)" "no_io (fs s') \<longleftrightarrow> no_io (fs s)"
proof -
  show l: "layersOf s' = layersOf s" "ls s' = ls s" using assms by (simp_all add: soft_def)
  show k: "known s' = known s" by (simp add: known_layersOf l fun_eq_iff)
  then show "fmdom (images s') = fmdom (images s)" by (auto simp: known_def fun_eq_iff)
  show "contentOf dg (fs s') = contentOf dg (fs s)" "no_io (fs s') \<longleftrightarrow> no_io (fs s)"
    using assms by (simp_all add: soft_def contentOf_def no_io_def fun_eq_iff)
qed

lemma soft_base:
  assumes "soft s s'" and "is_base E s"
  shows "is_base E s'"
proof -
  note sel = soft_sel [OF assms(1)]
  have "fBall (metaChildren m') hasSep" if m': "fmlookup (images s') p = Some m'" for p m'
  proof -
    obtain m where "fmlookup (images s) p = Some m" "\<forall>c. c |\<in>| metaChildren m' \<longrightarrow> c |\<in>| metaChildren m \<or> hasSep c"
      using assms(1) m' unfolding soft_def by blast
    then show ?thesis using is_baseD(4) [OF assms(2)] by blast
  qed
  moreover have "digestSet s' = digestSet s" using assms(1) by (simp add: soft_def)
  ultimately show ?thesis using assms(2) unfolding is_base_def sel by (elim conjE, intro conjI) simp_all
qed

lemma dropChild_soft: "soft s (dropChild p c s)"
  by (auto simp: soft_def dropChild_def layersOf_def parentFile_def fun_eq_iff split: option.split if_splits)

lemma dropFromParent_soft:
  assumes "dropFromParent E i s = (b, s')"
  shows "soft s s'" and "b \<longleftrightarrow> \<not> hasSep i"
proof -
  obtain x s1 where g: "imageStore_GetParent E i s = (x, s1)" by (rule prod.exhaust)
  have s1: "soft s s1" using same_store_soft [OF GetParent_same [of s E i]] g by simp
  show "soft s s'" using assms s1 soft_trans [OF s1 dropChild_soft]
    by (auto simp: dropFromParent_def g split: sum.splits fs_error.splits)
  show "b \<longleftrightarrow> \<not> hasSep i" using assms GetParent_panic [of E i s]
    by (auto simp: dropFromParent_def g split: sum.splits fs_error.splits)
qed

lemma deleteParents_soft:
  assumes "deleteParentFiles cs s = (b, s')"
  shows "soft s s'" and "\<forall>c \<in> set cs. hasSep c \<Longrightarrow> \<not> b" and "images s' = images s"
proof -
  have "soft s s' \<and> ((\<forall>c \<in> set cs. hasSep c) \<longrightarrow> \<not> b) \<and> images s' = images s"
    using assms
  proof (induction cs arbitrary: s)
    case Nil
    then show ?case by (simp add: same_store_soft)
  next
    case (Cons c cs)
    obtain x s1 where d: "withFs (fs_DeleteMetadata c ''parent'') s = (x, s1)" by (rule prod.exhaust)
    then have "x = fst (withFs (fs_DeleteMetadata c ''parent'') s)" and s1: "s1 = snd (withFs (fs_DeleteMetadata c ''parent'') s)" by simp_all
    then have x: "x = Some FsPanic \<longleftrightarrow> \<not> hasSep c" by (simp add: fs_DeleteMetadata_frame(3))
    have soft1: "soft s s1" "images s1 = images s"
      by (auto simp: s1 soft_def layersOf_def parentFile_def fs_DeleteMetadata_frame(1,2) fun_eq_iff dest: fs_DeleteMetadata_frame(4))
    from Cons.prems d x have "b \<and> s' = s1 \<and> \<not> hasSep c \<or> deleteParentFiles cs s1 = (b, s')"
      by (auto split: option.splits fs_error.splits)
    with Cons.IH [of s1] soft1 soft_trans [OF soft1(1)] show ?case by auto
  qed
  then show "soft s s'" and "\<forall>c \<in> set cs. hasSep c \<Longrightarrow> \<not> b" and "images s' = images s" by blast+
qed

lemma SetParent_soft:
  assumes "imageStore_SetParent E i p s = (e, s')"
  shows "soft s s'" and "e = Some FsPanic \<Longrightarrow> \<not> hasSep i"
proof -
  obtain b s1 where d: "dropFromParent E i s = (b, s1)" by (rule prod.exhaust)
  note s1 = dropFromParent_soft [OF d]
  have "soft s s' \<and> (e = Some FsPanic \<longrightarrow> \<not> hasSep i)"
  proof (cases "fmlookup (images s) p = None \<or> b \<or> fmlookup (images s1) p = None")
    case True
    with assms d s1 show ?thesis by (auto simp: imageStore_SetParent_def same_store_soft split: option.splits)
  next
    case False
    then obtain m where m: "fmlookup (images s1) p = Some m" "hasSep i" using s1(2) by auto
    let ?s2 = "s1\<lparr>images := fmupd p (m\<lparr>metaChildren := finsert i (metaChildren m)\<rparr>) (images s1)\<rparr>"
    have run: "withFs (fs_SetMetadata (digestBytes E) i ''parent'' p) ?s2 = (e, s')"
      using assms d False m by (auto simp: imageStore_SetParent_def)
    then have s': "s' = snd (withFs (fs_SetMetadata (digestBytes E) i ''parent'' p) ?s2)"
      and e: "e = fst (fs_SetMetadata (digestBytes E) i ''parent'' p (fs ?s2))"
      using withFs_sel(5) [of "fs_SetMetadata (digestBytes E) i ''parent'' p" ?s2] by simp_all
    have "soft s1 s'"
      using m by (auto simp: s' soft_def layersOf_def parentFile_def known_iff fun_eq_iff fs_SetMetadata_frame(1,2)
        dest!: fs_SetMetadata_frame(3))
    moreover have "e \<noteq> Some FsPanic" using m(2) by (auto simp: e fs_SetMetadata_def fs_get_def fs_io_def split: option.split)
    ultimately show ?thesis using soft_trans [OF s1(1)] by blast
  qed
  then show "soft s s'" and "e = Some FsPanic \<Longrightarrow> \<not> hasSep i" by blast+
qed

text \<open>\<open>Delete\<close> without its last step, the release of the layer.\<close>

definition forget :: "('l, 'h) imageEnv \<Rightarrow> ID \<Rightarrow> 'h imageMeta \<Rightarrow> ('l, 'h) imageStore \<Rightarrow> ('l, 'h) imageStore" where
  "forget E i m s =
     (let s1 = snd (deleteParentFiles (sorted_list_of_fset (metaChildren m)) s);
          s2 = snd (dropFromParent E i s1);
          s3 = s2\<lparr>digestSet := snd (digestSet_Remove i (digestSet s2)), images := fmdrop i (images s2)\<rparr>
      in snd (withFs (fs_Delete i) s3))"

lemma Delete_forget:
  assumes base: "is_base E s" and i: "fmlookup (images s) i = Some m"
  shows "imageStore_Delete E i s =
     (case metaLayer m of
        None \<Rightarrow> Some (Inr (Ok []), forget E i m s)
      | Some h \<Rightarrow>
          (case lsRelease E h (ls (forget E i m s)) of
             None \<Rightarrow> None
           | Some (res, l) \<Rightarrow> Some (Inr res, (forget E i m s)\<lparr>ls := l\<rparr>)))"
proof -
  have sep: "hasSep i" using is_baseD(3) [OF base] i by (auto simp: known_iff)
  obtain b1 s1 where d1: "deleteParentFiles (sorted_list_of_fset (metaChildren m)) s = (b1, s1)" by (rule prod.exhaust)
  have b1: "\<not> b1" by (rule deleteParents_soft(2) [OF d1]) (use is_baseD(4) [OF base i] in \<open>simp add: sorted_list_of_fset_simps\<close>)
  obtain b2 s2 where d2: "dropFromParent E i s1 = (b2, s2)" by (rule prod.exhaust)
  have b2: "\<not> b2" using dropFromParent_soft(2) [OF d2] sep by simp
  let ?s3 = "s2\<lparr>digestSet := snd (digestSet_Remove i (digestSet s2)), images := fmdrop i (images s2)\<rparr>"
  obtain x s4 where d4: "withFs (fs_Delete i) ?s3 = (x, s4)" by (rule prod.exhaust)
  have "fst (withFs (fs_Delete i) ?s3) \<noteq> Some FsPanic" using sep by (simp add: fs_Delete_frame del: path_iff)
  then have x: "x \<noteq> Some FsPanic" unfolding d4 by simp
  have f: "forget E i m s = s4" by (simp add: forget_def Let_def d1 d2 d4)
  show ?thesis
    unfolding f imageStore_Delete_def i using b1 b2 x by (simp add: d1 d2 d4 Let_def split: option.split fs_error.split)
qed

lemma forget_base:
  assumes base: "is_base E s" and i: "fmlookup (images s) i = Some m"
  defines "s4 \<equiv> forget E i m s"
  shows "layersOf s4 = (layersOf s)(i := None)" "ls s4 = ls s" "ioErr (fs s4) = ioErr (fs s)"
    "j \<noteq> i \<Longrightarrow> contentOf dg (fs s4) j = contentOf dg (fs s) j" "is_base E s4"
proof -
  define s1 where "s1 = snd (deleteParentFiles (sorted_list_of_fset (metaChildren m)) s)"
  define s2 where "s2 = snd (dropFromParent E i s1)"
  define s3 where "s3 = s2\<lparr>digestSet := snd (digestSet_Remove i (digestSet s2)), images := fmdrop i (images s2)\<rparr>"
  have s4: "s4 = snd (withFs (fs_Delete i) s3)" by (simp add: s4_def forget_def Let_def s1_def s2_def s3_def)
  have "soft s s1" unfolding s1_def by (rule deleteParents_soft(1) [of _ _ "fst (deleteParentFiles (sorted_list_of_fset (metaChildren m)) s)"]) simp
  moreover have "soft s1 s2" unfolding s2_def by (rule dropFromParent_soft(1) [of E i _ "fst (dropFromParent E i s1)"]) simp
  ultimately have soft: "soft s s2" by (rule soft_trans)
  note sel = soft_sel [OF soft]
  have base2: "is_base E s2" by (rule soft_base [OF soft base])
  have err: "ioErr (fs s2) = ioErr (fs s)" using soft by (simp add: soft_def)
  have img: "fmlookup (images s4) p = (if p = i then None else fmlookup (images s2) p)" for p by (simp add: s4 s3_def)
  have ds: "digestSet s4 = snd (digestSet_Remove i (digestSet s2))" by (simp add: s4 s3_def)
  have "layersOf s4 j = ((layersOf s2)(i := None)) j" for j by (simp add: layersOf_def img)
  then show lay: "layersOf s4 = (layersOf s)(i := None)" by (simp add: fun_eq_iff sel(2))
  show "ls s4 = ls s" "ioErr (fs s4) = ioErr (fs s)" by (simp_all add: s4 s3_def sel fs_Delete_frame err)
  have cont: "contentOf dg (fs s4) j = contentOf dg (fs s2) j" if "j \<noteq> i" for j dg
    using that by (simp add: contentOf_def s4 s3_def fs_Delete_frame(1))
  then show "j \<noteq> i \<Longrightarrow> contentOf dg (fs s4) j = contentOf dg (fs s) j" by (simp add: sel)
  have kn: "known s4 j \<longleftrightarrow> known s2 j \<and> j \<noteq> i" for j by (simp add: known_iff img)
  have "known s2 i" using i sel(1) by (simp add: known_iff)
  then have "Digest_Validate i = None" by (rule is_baseD(2) [OF base2])
  then have "digestSet s4 = fmdom (images s2) |-| {|i|}" using is_baseD(1) [OF base2] by (simp add: ds digestSet_Remove_def)
  also have "\<dots> = fmdom (images s4)" using kn by (auto simp: known_def)
  finally have ds4: "digestSet s4 = fmdom (images s4)" .
  have "Digest_Validate j = None \<and> (\<exists>c img. contentOf (digestBytes E) (fs s4) j = Some c \<and> NewFromJSON E c = Inr img)" if "known s4 j" for j
    using that base2 cont [of j] unfolding kn is_base_def by simp
  moreover have "fBall (metaChildren m) hasSep" if "fmlookup (images s4) p = Some m" for p m
    using that is_baseD(4) [OF base2, of p m] by (auto simp: img split: if_splits)
  ultimately show "is_base E s4" unfolding is_base_def using ds4 by blast
qed

lemma forget_shrinks:
  shows "contentOf dg (fs (forget E i m s)) j = Some c \<Longrightarrow> contentOf dg (fs s) j = Some c"
    and "parentFile (forget E i m s) j = Some q \<Longrightarrow> parentFile s j = Some q \<or> known s q"
proof -
  let ?s1 = "snd (deleteParentFiles (sorted_list_of_fset (metaChildren m)) s)"
  have "soft s ?s1" by (rule deleteParents_soft(1) [of _ _ "fst (deleteParentFiles (sorted_list_of_fset (metaChildren m)) s)"]) simp
  moreover have "soft ?s1 (snd (dropFromParent E i ?s1))" by (rule dropFromParent_soft(1) [of E i _ "fst (dropFromParent E i ?s1)"]) simp
  ultimately have soft: "soft s (snd (dropFromParent E i ?s1))" by (rule soft_trans)
  then have same: "content (fs (snd (dropFromParent E i ?s1))) = content (fs s)" by (simp add: soft_def)
  show "contentOf dg (fs s) j = Some c" if c: "contentOf dg (fs (forget E i m s)) j = Some c"
  proof -
    have j: "hasSep j" "dg c = j" "fmlookup (content (fs (forget E i m s))) j = Some c"
      using c unfolding contentOf_def by (simp_all split: if_splits option.splits)
    have "fmlookup (content (fs s)) j = Some c"
      using fs_Delete_shrinks(1) [of i "fs (snd (dropFromParent E i ?s1))" j c] j(3) by (simp add: forget_def Let_def same)
    with j show ?thesis by (simp add: contentOf_def)
  qed
  show "parentFile s j = Some q \<or> known s q" if q: "parentFile (forget E i m s) j = Some q"
  proof -
    have "parentFile (snd (dropFromParent E i ?s1)) j = Some q"
      using fs_Delete_shrinks(2) [of i "fs (snd (dropFromParent E i ?s1))" j "''parent''" q] q by (simp add: parentFile_def forget_def Let_def)
    with soft show ?thesis unfolding soft_def by blast
  qed
qed

lemma is_base_ls [simp]: "is_base E (s\<lparr>ls := l\<rparr>) = is_base E s"
  by (simp add: is_base_def known_def)

text \<open>What \<open>Delete\<close> does to the layers and contents of the images.\<close>

lemma Delete_layers:
  assumes base: "is_base E s" and run: "imageStore_Delete E i s = Some (r, s')"
  obtains (unknown) "layersOf s i = None" "s' = s"
  | (plain) "layersOf s i = Some None" "layersOf s' = (layersOf s)(i := None)" "is_base E s'"
      "\<And>j dg. j \<noteq> i \<Longrightarrow> contentOf dg (fs s') j = contentOf dg (fs s) j" "ls s' = ls s" "r = Inr (Ok [])"
  | (layer) h res where "layersOf s i = Some (Some h)" "layersOf s' = (layersOf s)(i := None)" "is_base E s'"
      "\<And>j dg. j \<noteq> i \<Longrightarrow> contentOf dg (fs s') j = contentOf dg (fs s) j" "lsRelease E h (ls s) = Some (res, ls s')" "r = Inr res"
proof (cases "fmlookup (images s) i")
  case None
  with run show thesis by (intro unknown) (simp_all add: layersOf_def imageStore_Delete_def)
next
  case m: (Some m)
  note f = forget_base [OF base m]
  show thesis
  proof (cases "metaLayer m")
    case None
    then have "s' = forget E i m s" "r = Inr (Ok [])" using run by (simp_all add: Delete_forget [OF base m])
    then show thesis using m None f by (intro plain) (auto simp: layersOf_def)
  next
    case (Some h)
    obtain res l where rel: "lsRelease E h (ls s) = Some (res, l)" and s': "s' = (forget E i m s)\<lparr>ls := l\<rparr>" "r = Inr res"
      using run Some by (auto simp: Delete_forget [OF base m] f(2) split: option.splits)
    have lay: "layersOf s' = (layersOf s)(i := None)" "is_base E s'" using f(1,5) by (simp_all add: s')
    have cont: "contentOf dg (fs s') j = contentOf dg (fs s) j" if "j \<noteq> i" for j dg using f(4) [OF that] by (simp add: s')
    show thesis by (rule layer [of h res, OF _ lay cont]) (use m Some rel s' in \<open>simp_all add: layersOf_def\<close>)
  qed
qed

lemma Delete_known:
  assumes "is_base E s" and "imageStore_Delete E i s = Some (r, s')" and "r = Inr x"
  shows "known s' c \<longleftrightarrow> known s c \<and> c \<noteq> i" and "known s i"
proof -
  have "(known s' c \<longleftrightarrow> known s c \<and> c \<noteq> i) \<and> known s i"
    using assms(1,2)
  proof (cases rule: Delete_layers)
    case unknown
    then have "fmlookup (images s) i = None" by (simp add: layersOf_def)
    with assms(2,3) show ?thesis by (simp add: imageStore_Delete_def)
  qed (auto simp: known_layersOf)
  then show "known s' c \<longleftrightarrow> known s c \<and> c \<noteq> i" "known s i" by blast+
qed

lemma getLayer_sel:
  "getLayer E c s = (r, s') \<Longrightarrow> \<exists>l. s' = s\<lparr>ls := l\<rparr>"
  by (auto simp: getLayer_def split: if_splits prod.splits sum.splits) (metis imageStore.surjective imageStore.update_convs(4))

definition chainOf :: "('l, 'h) imageEnv \<Rightarrow> bytes \<Rightarrow> ChainID" where
  "chainOf E c = (case NewFromJSON E c of Inl _ \<Rightarrow> [] | Inr img \<Rightarrow> RootFS_ChainID (digestBytes E) (the (imgDiffIDs img)))"

text \<open>The outcomes of \<open>Create\<close>: refused, present already, or written with a layer to be retained.\<close>

lemma Create_cases:
  assumes run: "imageStore_Create E config s = (r, s')"
  obtains (refused) "same_store s s'" "\<forall>i. r \<noteq> IOk i"
  | (written) s1 img where "NewFromJSON E config = Inr img" "images s1 = images s" "digestSet s1 = digestSet s" "ls s1 = ls s"
      "content (fs s1) = fmupd (digestBytes E config) config (content (fs s))" "metadata (fs s1) = metadata (fs s)" "ioErr (fs s1) = ioErr (fs s)"
      "hasSep (digestBytes E config)"
      "known s (digestBytes E config) \<longrightarrow> s' = s1 \<and> r = IOk (digestBytes E config)"
      "\<not> known s (digestBytes E config) \<longrightarrow> (\<exists>g s2. getLayer E (chainOf E config) s1 = (g, s2) \<and>
         (s' = s2 \<and> (\<forall>i. r \<noteq> IOk i) \<or>
          Digest_Validate (digestBytes E config) = None \<and> r = IOk (digestBytes E config) \<and>
          (\<exists>h. g = Inr h \<and> s' = s2\<lparr>images := fmupd (digestBytes E config) \<lparr>metaLayer = h, metaChildren = {||}\<rparr> (images s2),
             digestSet := finsert (digestBytes E config) (digestSet s2)\<rparr>)))"
proof (cases "\<exists>img ds. unmarshalImage E config = Inr img \<and> imgDiffIDs img = Some ds \<and>
    length (filter Not (imgHistory img)) \<le> length ds")
  case False
  with run have "s' = s \<and> (\<forall>i. r \<noteq> IOk i)"
    by (auto simp: imageStore_Create_def not_le split: sum.splits option.splits if_splits)
  then show thesis by (intro refused) simp_all
next
  case True
  then obtain img ds where img: "unmarshalImage E config = Inr img" "imgDiffIDs img = Some ds"
    and len: "\<not> length ds < length (filter Not (imgHistory img))" by (auto simp: not_less)
  let ?i = "digestBytes E config" and ?w = "withFs (fs_Set (digestBytes E) config) s"
  obtain x s1 where set: "?w = (x, s1)" by (rule prod.exhaust)
  have x: "x = fst (fs_Set (digestBytes E) config (fs s))" using withFs_sel(5) [of "fs_Set (digestBytes E) config" s] by (simp add: set)
  have s1: "s1 = snd ?w" by (simp add: set)
  have json: "NewFromJSON E config = Inr (img\<lparr>rawJSON := config\<rparr>)" using img by (simp add: NewFromJSON_def)
  have chain: "RootFS_ChainID (digestBytes E) ds = chainOf E config" using img by (simp add: chainOf_def json)
  have im: "images s1 = images s" by (simp add: s1)
  note unfold = imageStore_Create_def img len set im chain
  show thesis
  proof (cases rule: fs_Set_cases [of "digestBytes E" config "fs s"])
    case (failed e)
    have "s' = s1 \<and> (\<forall>i. r \<noteq> IOk i)" using run failed(1) x by (cases e) (auto simp: unfold)
    moreover have "same_store s s1" using failed(2) by (simp add: s1 same_store_def)
    ultimately show thesis by (intro refused) simp_all
  next
    case wrote
    then have x: "x = Inr ?i" using x by simp
    show thesis
    proof (rule written [OF json])
      show "known s ?i \<longrightarrow> s' = s1 \<and> r = IOk ?i" using run by (auto simp: unfold x known_iff)
      obtain g s2 where g: "getLayer E (chainOf E config) s1 = (g, s2)" by (rule prod.exhaust)
      show "\<not> known s ?i \<longrightarrow> (\<exists>g s2. getLayer E (chainOf E config) s1 = (g, s2) \<and>
           (s' = s2 \<and> (\<forall>i. r \<noteq> IOk i) \<or> Digest_Validate ?i = None \<and> r = IOk ?i \<and>
            (\<exists>h. g = Inr h \<and> s' = s2\<lparr>images := fmupd ?i \<lparr>metaLayer = h, metaChildren = {||}\<rparr> (images s2),
               digestSet := finsert ?i (digestSet s2)\<rparr>)))"
        using run by (auto simp: unfold x known_iff g digestSet_Add_def split: sum.splits option.splits)
    qed (simp_all add: s1 wrote)
  qed
qed


lemma set_content_base:
  assumes base: "is_base E s" and json: "NewFromJSON E data = Inr img" and sep: "hasSep (digestBytes E data)"
    and ok: "content (fs s') = fmupd (digestBytes E data) data (content (fs s))" "images s' = images s" "digestSet s' = digestSet s"
  shows "is_base E s'"
proof -
  have kn: "known s' = known s" using ok by (simp add: known_def fun_eq_iff)
  have cont: "contentOf (digestBytes E) (fs s') c = (if c = digestBytes E data then Some data else contentOf (digestBytes E) (fs s) c)" for c
    using sep by (simp add: contentOf_def ok)
  have "Digest_Validate c = None \<and> (\<exists>x img. contentOf (digestBytes E) (fs s') c = Some x \<and> NewFromJSON E x = Inr img)"
    if "known s c" for c
    using base that json unfolding is_base_def cont by auto
  then show ?thesis using base unfolding is_base_def kn ok by blast
qed

lemma add_image_base:
  assumes base: "is_base E s" and c: "contentOf (digestBytes E) (fs s) i = Some c" "NewFromJSON E c = Inr img"
    and valid: "Digest_Validate i = None"
  shows "is_base E (s\<lparr>images := fmupd i \<lparr>metaLayer = l, metaChildren = {||}\<rparr> (images s), digestSet := finsert i (digestSet s)\<rparr>)"
    (is "is_base E ?s")
proof -
  have kn: "known ?s x \<longleftrightarrow> x = i \<or> known s x" for x by (auto simp: known_def)
  have "Digest_Validate x = None \<and> (\<exists>d img. contentOf (digestBytes E) (fs s) x = Some d \<and> NewFromJSON E d = Inr img)"
    if "known ?s x" for x using base that c valid unfolding kn is_base_def by auto
  then show ?thesis using is_baseD(1,4) [OF base] unfolding is_base_def by (auto split: if_splits)
qed

lemma Create_base:
  assumes base: "is_base E s" and run: "imageStore_Create E config s = (r, s')"
  shows "is_base E s'"
  using run
proof (cases rule: Create_cases)
  case refused
  with base show ?thesis using soft_base same_store_soft by blast
next
  case (written s1 img)
  let ?i = "digestBytes E config"
  have base1: "is_base E s1" using written by (intro set_content_base [OF base written(1)]) simp_all
  show ?thesis
  proof (cases "known s ?i")
    case True
    with written(9) base1 show ?thesis by simp
  next
    case False
    with written(10) obtain g s2 where g: "getLayer E (chainOf E config) s1 = (g, s2)"
      and s': "s' = s2 \<or> Digest_Validate ?i = None \<and> (\<exists>h. s' = s2\<lparr>images := fmupd ?i \<lparr>metaLayer = h, metaChildren = {||}\<rparr> (images s2),
             digestSet := finsert ?i (digestSet s2)\<rparr>)" by blast
    obtain l where s2: "s2 = s1\<lparr>ls := l\<rparr>" using getLayer_sel [OF g] by blast
    have base2: "is_base E s2" using base1 by (simp add: s2)
    have c2: "contentOf (digestBytes E) (fs s2) ?i = Some config" using written(5,8) by (simp add: s2 contentOf_def)
    from s' show ?thesis using base2 add_image_base [OF base2 c2 written(1)] by blast
  qed
qed

section \<open>The tree of images\<close>

definition is_inv :: "('l, 'h) imageEnv \<Rightarrow> ('l, 'h) imageStore \<Rightarrow> bool" where
  "is_inv E s \<longleftrightarrow>
     no_io (fs s) \<and> is_base E s \<and>
     (\<forall>i. \<not> known s i \<longrightarrow> metadata (fs s) i = Map.empty) \<and>
     (\<forall>c p. known s c \<longrightarrow> parentFile s c = Some p \<longrightarrow> known s p) \<and>
     (\<forall>p m c. fmlookup (images s) p = Some m \<longrightarrow>
        (c |\<in>| metaChildren m \<longleftrightarrow> known s c \<and> parentFile s c = Some p))"

lemma is_inv_json:
  assumes "is_inv E s" and "known s i"
  obtains c img where "contentOf (digestBytes E) (fs s) i = Some c" "NewFromJSON E c = Inr img"
  using assms is_base_json unfolding is_inv_def by blast

lemma is_invD:
  assumes "is_inv E s"
  shows "no_io (fs s)" "is_base E s" "known s i \<Longrightarrow> Digest_Validate i = None"
    "known s i \<Longrightarrow> contentOf (digestBytes E) (fs s) i \<noteq> None"
    "known s c \<Longrightarrow> parentFile s c = Some p \<Longrightarrow> known s p"
    "\<not> known s i \<Longrightarrow> metadata (fs s) i = Map.empty"
    "fmlookup (images s) p = Some m \<Longrightarrow> c |\<in>| metaChildren m \<longleftrightarrow> known s c \<and> parentFile s c = Some p"
proof -
  show "is_base E s" "no_io (fs s)" using assms unfolding is_inv_def by blast+
  then show "known s i \<Longrightarrow> Digest_Validate i = None" using is_baseD(2) by blast
  show "contentOf (digestBytes E) (fs s) i \<noteq> None" if "known s i" using is_inv_json [OF assms that] by blast
qed (use assms in \<open>unfold is_inv_def, blast+\<close>)

lemma same_store_inv: "same_store s s' \<Longrightarrow> is_inv E s \<Longrightarrow> is_inv E s'"
proof -
  assume same: "same_store s s'" and inv: "is_inv E s"
  have "is_base E s'" using soft_base [OF same_store_soft [OF same]] is_invD(2) [OF inv] by blast
  with inv [unfolded is_inv_def] show ?thesis unfolding is_inv_def same_store_sel [OF same] by (elim conjE) (intro conjI; assumption)
qed

text \<open>Unlinking an image from its parent changes one child set.\<close>

lemma dropFromParent_spec:
  assumes io: "no_io (fs s)" and i: "contentOf (digestBytes E) (fs s) i \<noteq> None"
  defines "s' \<equiv> snd (dropFromParent E i s)"
  shows "content (fs s') = content (fs s)" "metadata (fs s') = metadata (fs s)" "no_io (fs s')"
    "fst (dropFromParent E i s) = False"
    "fmlookup (images s') p =
       map_option (\<lambda>m. if parentFile s i = Some p then m\<lparr>metaChildren := metaChildren m |-| {|i|}\<rparr> else m)
         (fmlookup (images s) p)"
proof -
  obtain r s1 where g: "imageStore_GetParent E i s = (r, s1)" by (rule prod.exhaust)
  have same: "same_store s s1" using GetParent_same [of s E i] g by simp
  have r: "parentFile s i = Some p \<Longrightarrow> r = Inr p" "parentFile s i = None \<Longrightarrow> \<exists>e. r = Inl (FsErr e)" for p
    using GetParent_spec [OF io i] g by simp_all
  have d: "dropFromParent E i s = (False, case parentFile s i of None \<Rightarrow> s1 | Some p \<Rightarrow> dropChild p i s1)"
    using r by (cases "parentFile s i") (auto simp: dropFromParent_def g)
  then have s': "s' = (case parentFile s i of None \<Rightarrow> s1 | Some p \<Rightarrow> dropChild p i s1)" by (simp add: s'_def)
  show "fst (dropFromParent E i s) = False" by (simp add: d)
  show "content (fs s') = content (fs s)" "metadata (fs s') = metadata (fs s)" "no_io (fs s')"
    using same_store_sel [OF same] io unfolding s' by (simp_all add: dropChild_def split: option.split)
  show "fmlookup (images s') p =
       map_option (\<lambda>m. if parentFile s i = Some p then m\<lparr>metaChildren := metaChildren m |-| {|i|}\<rparr> else m)
         (fmlookup (images s) p)"
    using same_store_sel(6) [OF same] unfolding s'
    by (cases "parentFile s i"; cases "fmlookup (images s) p") (auto simp: dropChild_def split: option.split)
qed

lemma deleteParents_spec:
  assumes "no_io (fs s)" and "\<forall>c \<in> set cs. hasSep c"
  shows "metadata (fs (snd (deleteParentFiles cs s))) c =
       (if c \<in> set cs then (metadata (fs s) c)(''parent'' := None) else metadata (fs s) c)"
  using assms
proof (induction cs arbitrary: s)
  case (Cons d cs)
  obtain x s1 where w: "withFs (fs_DeleteMetadata d ''parent'') s = (x, s1)" by (rule prod.exhaust)
  have s1: "s1 = snd (withFs (fs_DeleteMetadata d ''parent'') s)" by (simp add: w)
  have "x = fst (fs_DeleteMetadata d ''parent'' (fs s))" using withFs_sel(5) [of "fs_DeleteMetadata d ''parent''" s] by (simp add: w)
  then have "x \<noteq> Some FsPanic" using Cons.prems(2) by (simp add: fs_DeleteMetadata_frame(3))
  then have run: "deleteParentFiles (d # cs) s = deleteParentFiles cs s1" by (simp add: w split: option.split fs_error.split)
  have "no_io (fs s1)" using Cons.prems(1) by (simp add: s1 no_io_def fs_DeleteMetadata_frame(2))
  moreover have "metadata (fs s1) = (metadata (fs s))(d := (metadata (fs s) d)(''parent'' := None))"
    using fs_DeleteMetadata_ok [OF Cons.prems(1)] Cons.prems(2) by (simp add: s1)
  ultimately show ?case unfolding run using Cons.IH [of s1] Cons.prems(2) by (auto simp: fun_upd_def)
qed simp

lemma forget_spec:
  assumes inv: "is_inv E s" and i: "fmlookup (images s) i = Some m"
  defines "s4 \<equiv> forget E i m s"
  shows "no_io (fs s4)"
    "parentFile s4 c = (if c = i \<or> parentFile s c = Some i then None else parentFile s c)"
    "metadata (fs s) c = Map.empty \<Longrightarrow> metadata (fs s4) c = Map.empty" "metadata (fs s4) i = Map.empty"
    "fmlookup (images s4) p =
       (if p = i then None
        else map_option (\<lambda>m. if parentFile s i = Some p then m\<lparr>metaChildren := metaChildren m |-| {|i|}\<rparr> else m)
               (fmlookup (images s) p))"
proof -
  let ?cs = "sorted_list_of_fset (metaChildren m)"
  define s1 where "s1 = snd (deleteParentFiles ?cs s)"
  define s2 where "s2 = snd (dropFromParent E i s1)"
  define s3 where "s3 = s2\<lparr>digestSet := snd (digestSet_Remove i (digestSet s2)), images := fmdrop i (images s2)\<rparr>"
  have s4: "s4 = snd (withFs (fs_Delete i) s3)" by (simp add: s4_def forget_def Let_def s1_def s2_def s3_def)
  have k: "known s i" using i by (simp add: known_iff)
  note io = is_invD(1) [OF inv] and base = is_invD(2) [OF inv]
  have sep: "\<forall>c \<in> set ?cs. hasSep c" using is_baseD(4) [OF base i] by (simp add: sorted_list_of_fset_simps)
  have run1: "deleteParentFiles ?cs s = (fst (deleteParentFiles ?cs s), s1)" by (simp add: s1_def)
  note soft1 = soft_sel [OF deleteParents_soft(1) [OF run1]] and img1 = deleteParents_soft(3) [OF run1]
  have meta1: "metadata (fs s1) c = (if c \<in> set ?cs then (metadata (fs s) c)(''parent'' := None) else metadata (fs s) c)" for c
    unfolding s1_def by (rule deleteParents_spec [OF io sep])
  have io1: "no_io (fs s1)" using io soft1(6) by simp
  have p1: "parentFile s1 c = (if parentFile s c = Some i then None else parentFile s c)" for c
  proof -
    have "c |\<in>| metaChildren m \<longleftrightarrow> known s c \<and> parentFile s c = Some i" by (rule is_invD(7) [OF inv i])
    moreover have "\<not> known s c \<Longrightarrow> parentFile s c = None" using is_invD(6) [OF inv] by (simp add: parentFile_def)
    ultimately show ?thesis by (auto simp: parentFile_def meta1 sorted_list_of_fset_simps)
  qed
  have c1: "contentOf (digestBytes E) (fs s1) i \<noteq> None" using is_invD(4) [OF inv k] soft1(5) by simp
  note d2 = dropFromParent_spec [OF io1 c1, folded s2_def]
  have io3: "no_io (fs s3)" by (simp add: s3_def d2)
  have c3: "contentOf (digestBytes E) (fs s3) i \<noteq> None" using c1 by (simp add: s3_def contentOf_def d2 split: if_splits)
  have meta: "metadata (fs s4) = (metadata (fs s1))(i := Map.empty)"
    using fs_Delete_ok(2) [OF io3 c3] by (simp add: s4 s3_def d2)
  show "no_io (fs s4)" using io3 by (simp add: s4 no_io_def fs_Delete_frame)
  show "metadata (fs s4) i = Map.empty" "metadata (fs s) c = Map.empty \<Longrightarrow> metadata (fs s4) c = Map.empty"
    by (simp_all add: meta meta1)
  have "parentFile s4 c = (if c = i then None else parentFile s1 c)" by (simp add: parentFile_def meta)
  then show "parentFile s4 c = (if c = i \<or> parentFile s c = Some i then None else parentFile s c)" by (simp add: p1)
  show "fmlookup (images s4) p =
       (if p = i then None
        else map_option (\<lambda>m. if parentFile s i = Some p then m\<lparr>metaChildren := metaChildren m |-| {|i|}\<rparr> else m)
               (fmlookup (images s) p))"
    by (simp add: s4 s3_def d2 img1 p1)
qed

lemma forget_inv:
  assumes inv: "is_inv E s" and i: "fmlookup (images s) i = Some m"
  shows "is_inv E (forget E i m s)" and "known (forget E i m s) c \<longleftrightarrow> known s c \<and> c \<noteq> i"
proof -
  let ?s = "forget E i m s"
  note f = forget_spec [OF inv i] and b = forget_base [OF is_invD(2) [OF inv] i]
  show kn: "known ?s c \<longleftrightarrow> known s c \<and> c \<noteq> i" for c
    by (auto simp: known_layersOf b(1))
  have 2: "metadata (fs ?s) c = Map.empty" if "\<not> known ?s c" for c
    using that is_invD(6) [OF inv, of c] f(3,4) unfolding kn by blast
  have 3: "known ?s p" if "known ?s c" "parentFile ?s c = Some p" for c p
    using that is_invD(5) [OF inv, of c p] unfolding kn f(2) by (auto split: if_splits)
  have 4: "c |\<in>| metaChildren n \<longleftrightarrow> known ?s c \<and> parentFile ?s c = Some p" if n4: "fmlookup (images ?s) p = Some n" for p n c
  proof -
    have "p \<noteq> i" using n4 unfolding f(5) by (simp split: if_splits)
    then obtain n0 where n0: "fmlookup (images s) p = Some n0" using n4 unfolding f(5) by (cases "fmlookup (images s) p") simp_all
    have n: "n = (if parentFile s i = Some p then n0\<lparr>metaChildren := metaChildren n0 |-| {|i|}\<rparr> else n0)"
      using n4 \<open>p \<noteq> i\<close> unfolding f(5) n0 by simp
    have "c |\<in>| metaChildren n \<longleftrightarrow> c |\<in>| metaChildren n0 \<and> \<not> (parentFile s i = Some p \<and> c = i)"
      by (auto simp: n)
    then show ?thesis
      unfolding is_invD(7) [OF inv n0] kn f(2) using \<open>p \<noteq> i\<close> by auto
  qed
  show "is_inv E ?s"
    unfolding is_inv_def using f(1) b(5) 2 3 4 by (intro conjI allI impI) simp_all
qed

lemma is_inv_ls: "is_inv E (s\<lparr>ls := l\<rparr>) = is_inv E s"
  by (simp add: is_inv_def known_def parentFile_def)

lemma image_Delete_inv:
  assumes "is_inv E s" and "imageStore_Delete E i s = Some (r, s')"
  shows "is_inv E s'"
proof (cases "fmlookup (images s) i")
  case None
  with assms show ?thesis by (simp add: imageStore_Delete_def)
next
  case (Some m)
  have "\<exists>l. s' = (forget E i m s)\<lparr>ls := l\<rparr> \<or> s' = forget E i m s"
    using assms(2) unfolding Delete_forget [OF is_invD(2) [OF assms(1)] Some] by (auto split: option.splits)
  then show ?thesis using forget_inv(1) [OF assms(1) Some] is_inv_ls by metis
qed


text \<open>\<open>SetParent\<close> of a known image to a known parent.\<close>

lemma SetParent_inv:
  assumes inv: "is_inv E s" and i: "known s i" and p: "known s p"
    and run: "imageStore_SetParent E i p s = (e, s')"
  shows "is_inv E s'" and "e = None" and "known s' = known s"
    and "parentFile s' c = (if c = i then Some p else parentFile s c)"
proof -
  have ci: "contentOf (digestBytes E) (fs s) i \<noteq> None" by (rule is_invD(4) [OF inv i])
  note d0 = dropFromParent_spec [OF is_invD(1) [OF inv] ci]
  obtain s1 where d': "dropFromParent E i s = (False, s1)" using d0(4) by (metis prod.collapse)
  let ?s1 = s1
  note d = d0(1-3,5) [unfolded d' snd_conv]
  obtain m0 where m0: "fmlookup (images s) p = Some m0" using p by (auto simp: known_iff)
  define m where "m = (if parentFile s i = Some p then m0\<lparr>metaChildren := metaChildren m0 |-| {|i|}\<rparr> else m0)"
  have m: "fmlookup (images ?s1) p = Some m" by (simp add: d(4) m0 m_def)
  let ?s2 = "?s1\<lparr>images := fmupd p (m\<lparr>metaChildren := finsert i (metaChildren m)\<rparr>) (images ?s1)\<rparr>"
  have run': "withFs (fs_SetMetadata (digestBytes E) i ''parent'' p) ?s2 = (e, s')"
    using run by (simp add: imageStore_SetParent_def m0 d' m)
  have c2: "contentOf (digestBytes E) (fs ?s2) i \<noteq> None" using ci by (simp add: contentOf_def d split: if_splits)
  have io2: "no_io (fs ?s2)" by (simp add: d)
  note f = fs_SetMetadata_ok [OF io2 c2]
  have es: "e = fst (withFs (fs_SetMetadata (digestBytes E) i ''parent'' p) ?s2)"
    "s' = snd (withFs (fs_SetMetadata (digestBytes E) i ''parent'' p) ?s2)" using run' by simp_all
  show "e = None" using f(1) es(1) by simp
  note soft = SetParent_soft(1) [OF run]
  show kn: "known s' = known s" by (rule soft_sel(1) [OF soft])
  have img: "fmlookup (images s') q = (if q = p then Some (m\<lparr>metaChildren := finsert i (metaChildren m)\<rparr>) else fmlookup (images ?s1) q)" for q
    by (simp add: es)
  show pf: "parentFile s' c = (if c = i then Some p else parentFile s c)" for c
    using f(2) by (simp add: es parentFile_def d)
  have meta: "metadata (fs s') c = Map.empty" if "\<not> known s c" for c
    using that i is_invD(6) [OF inv that] f(2) by (auto simp: es d)
  have 3: "known s q" if "known s c" "parentFile s' c = Some q" for c q
    using that is_invD(5) [OF inv] p unfolding pf by (auto split: if_splits)
  have 4: "c |\<in>| metaChildren n \<longleftrightarrow> known s c \<and> parentFile s' c = Some q" if n: "fmlookup (images s') q = Some n" for q n c
  proof -
    obtain n0 where n0: "fmlookup (images s) q = Some n0"
      using n m0 by (cases "q = p") (auto simp: img d(4))
    have "c |\<in>| metaChildren n \<longleftrightarrow> (c = i \<and> q = p) \<or> (c |\<in>| metaChildren n0 \<and> (c = i \<longrightarrow> parentFile s i \<noteq> Some q))"
      using n n0 m0 by (cases "q = p") (auto simp: img d(4) m_def split: if_splits)
    then show ?thesis unfolding is_invD(7) [OF inv n0] pf using i by auto
  qed
  show "is_inv E s'"
    unfolding is_inv_def kn using is_invD(1) [OF inv] soft_sel(6) [OF soft] soft_base [OF soft is_invD(2) [OF inv]] meta 3 4
    by (intro conjI allI impI) simp_all
qed

lemma add_image_inv:
  assumes inv: "is_inv E s" and new: "\<not> known s i" and c: "contentOf (digestBytes E) (fs s) i = Some c"
    and json: "NewFromJSON E c = Inr img" and valid: "Digest_Validate i = None"
  shows "is_inv E (s\<lparr>images := fmupd i \<lparr>metaLayer = l, metaChildren = {||}\<rparr> (images s), digestSet := finsert i (digestSet s)\<rparr>)"
    (is "is_inv E ?s")
proof -
  have kn: "known ?s x \<longleftrightarrow> x = i \<or> known s x" for x by (auto simp: known_def)
  have pf: "parentFile ?s = parentFile s" by (simp add: parentFile_def fun_eq_iff)
  have none: "parentFile s i = None" using is_invD(6) [OF inv new] by (simp add: parentFile_def)
  have no_child: "\<not> (known s x \<and> parentFile s x = Some i)" for x using is_invD(5) [OF inv] new by blast
  have 3: "known ?s p" if "known ?s x" "parentFile s x = Some p" for x p
    using that none is_invD(5) [OF inv] unfolding kn by auto
  have 4: "x |\<in>| metaChildren m \<longleftrightarrow> known ?s x \<and> parentFile s x = Some p" if "fmlookup (images ?s) p = Some m" for p m x
    using that is_invD(7) [OF inv, of p m x] no_child none unfolding kn by (auto split: if_splits)
  show ?thesis
    unfolding is_inv_def pf using is_invD(1) [OF inv] add_image_base [OF is_invD(2) [OF inv] c json valid, of l] 3 4 is_invD(6) [OF inv] kn
    by (intro conjI allI impI) simp_all
qed

lemma Create_inv:
  assumes inv: "is_inv E s" and run: "imageStore_Create E config s = (r, s')"
  shows "is_inv E s'"
  using run
proof (cases rule: Create_cases)
  case refused
  with inv show ?thesis using same_store_inv by blast
next
  case (written s1 img)
  let ?i = "digestBytes E config"
  have kn: "known s1 = known s" "parentFile s1 = parentFile s" using written(2,6) by (simp_all add: known_def parentFile_def fun_eq_iff)
  have "is_base E s1" using written by (intro set_content_base [OF is_invD(2) [OF inv] written(1)]) simp_all
  then have inv1: "is_inv E s1"
    using inv written(6,7) unfolding is_inv_def kn written(2) by (elim conjE) (intro conjI; simp add: no_io_def)
  show ?thesis
  proof (cases "known s ?i")
    case True
    with written(9) inv1 show ?thesis by simp
  next
    case False
    with written(10) obtain g s2 where g: "getLayer E (chainOf E config) s1 = (g, s2)"
      and s': "s' = s2 \<or> Digest_Validate ?i = None \<and> (\<exists>h. s' = s2\<lparr>images := fmupd ?i \<lparr>metaLayer = h, metaChildren = {||}\<rparr> (images s2),
             digestSet := finsert ?i (digestSet s2)\<rparr>)" by blast
    obtain l where s2: "s2 = s1\<lparr>ls := l\<rparr>" using getLayer_sel [OF g] by blast
    have inv2: "is_inv E s2" using inv1 unfolding s2 is_inv_ls .
    have new: "\<not> known s2 ?i" using False written(2) by (simp add: s2 known_iff)
    have c2: "contentOf (digestBytes E) (fs s2) ?i = Some config" using written(5,8) by (simp add: s2 contentOf_def)
    from s' show ?thesis using inv2 add_image_inv [OF inv2 new c2 written(1)] by blast
  qed
qed


section \<open>Reading and restoring\<close>

lemma Get_spec:
  assumes io: "no_io (fs s)" and c: "contentOf (digestBytes E) (fs s) i = Some c" and json: "NewFromJSON E c = Inr img"
  obtains s' where "same_store s s'"
    "imageStore_Get E i s =
       (Inr (img\<lparr>computedID := i, imgParent := (case parentFile s i of None \<Rightarrow> [] | Some p \<Rightarrow> p)\<rparr>), s')"
proof -
  obtain x s1 where g: "withFs (fs_Get (digestBytes E) i) s = (x, s1)" "x = fst (fs_get (digestBytes E) i (fs s))" "same_store s s1"
    by (rule fs_Get_store)
  have x: "x = Inr c" using fs_get_spec(2) [OF c] io by (simp add: g(2) no_io_def)
  have io1: "no_io (fs s1)" and c1: "contentOf (digestBytes E) (fs s1) i \<noteq> None" and pf: "parentFile s1 = parentFile s"
    using io c same_store_sel [OF g(3)] by simp_all
  obtain y s2 where gp: "imageStore_GetParent E i s1 = (y, s2)" by (rule prod.exhaust)
  have same2: "same_store s s2" using same_store_trans [OF g(3) GetParent_same [of s1 E i]] gp by simp
  have "imageStore_Get E i s =
      (Inr (img\<lparr>computedID := i, imgParent := (case parentFile s i of None \<Rightarrow> [] | Some p \<Rightarrow> p)\<rparr>), s2)"
  proof (cases "parentFile s i")
    case None
    then obtain e where "y = Inl (FsErr e)" using GetParent_spec(2) [OF io1 c1] gp pf by auto
    then show ?thesis by (simp add: imageStore_Get_def g(1) x json gp None)
  next
    case (Some p)
    then have "y = Inr p" using GetParent_spec(1) [OF io1 c1, of p] gp pf by auto
    then show ?thesis by (simp add: imageStore_Get_def g(1) x json gp Some)
  qed
  with same2 show thesis by (rule that)
qed

text \<open>An image on disk that a restart can read: its file is intact and parses.\<close>

definition readable :: "('l, 'h) imageEnv \<Rightarrow> fsStore \<Rightarrow> ID \<Rightarrow> bool" where
  "readable E f i \<longleftrightarrow>
     Digest_Validate i = None \<and> (\<exists>c img. contentOf (digestBytes E) f i = Some c \<and> NewFromJSON E c = Inr img)"

lemma readable_cong: "content f' = content f \<Longrightarrow> readable E f' = readable E f"
  by (simp add: readable_def contentOf_def fun_eq_iff)

lemma Get_readable:
  assumes "imageStore_Get E i s = (Inr img, s')"
  obtains c img0 where "contentOf (digestBytes E) (fs s) i = Some c" "NewFromJSON E c = Inr img0"
    "RootFS_ChainID (digestBytes E) (the (imgDiffIDs img)) = chainOf E c"
  using Get_result(2) [of E i s img] assms by (auto simp: chainOf_def)

text \<open>The layer store has the chain of a configuration, also after other layers are taken from it.\<close>

definition obtainable :: "('l, 'h) imageEnv \<Rightarrow> ('l \<Rightarrow> bool) \<Rightarrow> bytes \<Rightarrow> bool" where
  "obtainable E P c \<longleftrightarrow> chainOf E c = [] \<or> (\<forall>l. P l \<longrightarrow> (\<exists>h l'. lsGet E (chainOf E c) l = (Inr h, l') \<and> P l'))"

lemma obtainable_getLayer:
  assumes "obtainable E P c" and "P (ls s)"
  obtains h l where "getLayer E (chainOf E c) s = (Inr h, s\<lparr>ls := l\<rparr>)" "P l"
proof (cases "chainOf E c = []")
  case True
  then show thesis using that [of None "ls s"] assms(2) by (simp add: getLayer_def)
next
  case False
  then obtain x l' where "lsGet E (chainOf E c) (ls s) = (Inr x, l')" "P l'" using assms unfolding obtainable_def by blast
  then show thesis using that [of "Some x" l'] False by (simp add: getLayer_def)
qed

lemma restoreImages_spec:
  assumes "\<forall>i \<in> set is. Digest_Validate i = None" and "no_io (fs s)" and "P (ls s)"
    and "\<forall>i \<in> set is. \<forall>c. readable E (fs s) i \<longrightarrow> contentOf (digestBytes E) (fs s) i = Some c \<longrightarrow> obtainable E P c"
    and "\<And>p m. fmlookup (images s) p = Some m \<Longrightarrow> metaChildren m = {||}"
  shows "\<exists>s'. restoreImages E is s = (None, s') \<and> same_files (fs s) (fs s') \<and>
           fmdom (images s') = fmdom (images s) |\<union>| ffilter (readable E (fs s)) (fset_of_list is) \<and>
           (\<forall>p m. fmlookup (images s') p = Some m \<longrightarrow> metaChildren m = {||})"
  using assms
proof (induction "is" arbitrary: s)
  case Nil
  have "ffilter (readable E (fs s)) {||} = {||}" by auto
  with Nil show ?case by (auto simp: same_files_def)
next
  case (Cons i "is")
  obtain x s1 where g: "imageStore_Get E i s = (x, s1)" by (rule prod.exhaust)
  have same: "same_store s s1" using Get_same [of s E i] g by simp
  note sel = same_store_sel [OF same]
  have next_step: ?case
    if run: "restoreImages E (i # is) s = restoreImages E is t" and t: "fs t = fs s1" "P (ls t)"
      "fmdom (images t) = (if readable E (fs s) i then finsert i (fmdom (images s)) else fmdom (images s))"
      "\<And>p m. fmlookup (images t) p = Some m \<Longrightarrow> metaChildren m = {||}" for t
  proof -
    have r: "readable E (fs t) = readable E (fs s)" "contentOf (digestBytes E) (fs t) = contentOf (digestBytes E) (fs s)"
      using sel(8) readable_cong [OF sel(10)] by (simp_all add: t)
    have io: "no_io (fs t)" using Cons.prems(2) sel by (simp add: t)
    have f: "same_files (fs s) (fs t)" using same by (simp add: t same_store_def)
    have "\<exists>s'. restoreImages E is t = (None, s') \<and> same_files (fs t) (fs s') \<and>
        fmdom (images s') = fmdom (images t) |\<union>| ffilter (readable E (fs s)) (fset_of_list is) \<and>
        (\<forall>p m. fmlookup (images s') p = Some m \<longrightarrow> metaChildren m = {||})"
      using Cons.prems(1,4) by (intro Cons.IH [of t, unfolded r, OF _ io t(2) _ t(4)]) simp_all
    then obtain s' where "restoreImages E is t = (None, s')" "same_files (fs t) (fs s')"
      "fmdom (images s') = fmdom (images t) |\<union>| ffilter (readable E (fs s)) (fset_of_list is)"
      "\<forall>p m. fmlookup (images s') p = Some m \<longrightarrow> metaChildren m = {||}"
      by blast
    moreover have "ffilter (readable E (fs s)) (fset_of_list (i # is)) =
        (if readable E (fs s) i then finsert i (ffilter (readable E (fs s)) (fset_of_list is)) else ffilter (readable E (fs s)) (fset_of_list is))"
      by auto
    ultimately show ?thesis using f run t(3) by (auto simp: same_files_def)
  qed
  have valid: "Digest_Validate i = None" using Cons.prems(1) by simp
  show ?case
  proof (cases "readable E (fs s) i")
    case True
    then obtain c img where c: "contentOf (digestBytes E) (fs s) i = Some c" "NewFromJSON E c = Inr img" unfolding readable_def by blast
    obtain y where x: "x = Inr y" using Get_spec [OF Cons.prems(2) c] g by auto
    obtain d where "contentOf (digestBytes E) (fs s) i = Some d" "RootFS_ChainID (digestBytes E) (the (imgDiffIDs y)) = chainOf E d"
      using Get_readable [OF g [unfolded x]] by blast
    then have chain: "RootFS_ChainID (digestBytes E) (the (imgDiffIDs y)) = chainOf E c" using c by simp
    obtain h l where lay: "getLayer E (chainOf E c) s1 = (Inr h, s1\<lparr>ls := l\<rparr>)" and "P l"
      by (rule obtainable_getLayer [of E P c s1]) (use Cons.prems(3,4) True c sel in auto)
    show ?thesis
    proof (rule next_step)
      show "restoreImages E (i # is) s = restoreImages E is
          (s1\<lparr>ls := l, images := fmupd i \<lparr>metaLayer = h, metaChildren = {||}\<rparr> (images s1), digestSet := finsert i (digestSet s1)\<rparr>)"
        using valid by (simp add: g x chain lay digestSet_Add_def)
    qed (use True \<open>P l\<close> sel Cons.prems(5) in \<open>auto split: if_splits\<close>)
  next
    case False
    have "x \<noteq> Inr y" for y
    proof
      assume x: "x = Inr y"
      show False by (rule Get_readable [OF g [unfolded x]]) (use False valid in \<open>auto simp: readable_def\<close>)
    qed
    moreover have "x \<noteq> Inl FsPanic" using Get_result(1) [of E i s] valid_hasSep [OF valid] g by auto
    ultimately obtain e where x: "x = Inl (FsErr e)" by (cases x) (auto, metis fs_error.exhaust)
    show ?thesis
      by (rule next_step [of s1]) (use False x g sel Cons.prems(3,5) in auto)
  qed
qed


lemma restoreChildren_spec:
  assumes "\<forall>i \<in> set is. contentOf (digestBytes E) (fs s) i \<noteq> None" and "no_io (fs s)"
  shows "fst (restoreChildren E is s) = None"
    "fmlookup (images (snd (restoreChildren E is s))) p =
     map_option (\<lambda>m. m\<lparr>metaChildren := metaChildren m |\<union>| ffilter (\<lambda>c. parentFile s c = Some p) (fset_of_list is)\<rparr>)
       (fmlookup (images s) p)"
proof -
  have "fst (restoreChildren E is s) = None \<and> fmlookup (images (snd (restoreChildren E is s))) p =
     map_option (\<lambda>m. m\<lparr>metaChildren := metaChildren m |\<union>| ffilter (\<lambda>c. parentFile s c = Some p) (fset_of_list is)\<rparr>)
       (fmlookup (images s) p)"
    using assms
  proof (induction "is" arbitrary: s)
    case Nil
    have "ffilter (\<lambda>c. parentFile s c = Some p) {||} = {||}" by auto
    then show ?case by (cases "fmlookup (images s) p") simp_all
  next
    case (Cons i "is")
    obtain y s1 where gp: "imageStore_GetParent E i s = (y, s1)" by (rule prod.exhaust)
    have same: "same_store s s1" using GetParent_same [of s E i] gp by simp
    note sel = same_store_sel [OF same]
    have ci: "contentOf (digestBytes E) (fs s) i \<noteq> None" using Cons.prems(1) by simp
    define s2 where "s2 = (case parentFile s i of None \<Rightarrow> s1 | Some q \<Rightarrow>
      (case fmlookup (images s1) q of None \<Rightarrow> s1
       | Some m \<Rightarrow> s1\<lparr>images := fmupd q (m\<lparr>metaChildren := finsert i (metaChildren m)\<rparr>) (images s1)\<rparr>))"
    have step: "restoreChildren E (i # is) s = restoreChildren E is s2"
    proof (cases "parentFile s i")
      case None
      then obtain e where "y = Inl (FsErr e)" using GetParent_spec(2) [OF Cons.prems(2) ci] gp by auto
      then show ?thesis by (simp add: gp s2_def None)
    next
      case (Some q)
      then have "y = Inr q" using GetParent_spec(1) [OF Cons.prems(2) ci] gp by auto
      then show ?thesis by (simp add: gp s2_def Some split: option.split)
    qed
    have fs2: "fs s2 = fs s1" by (auto simp: s2_def split: option.split)
    then have pf: "parentFile s2 = parentFile s" using sel(2) by (simp add: parentFile_def fun_eq_iff)
    have look: "fmlookup (images s2) p =
        map_option (\<lambda>m. if parentFile s i = Some p then m\<lparr>metaChildren := finsert i (metaChildren m)\<rparr> else m) (fmlookup (images s) p)"
      by (cases "parentFile s i"; cases "fmlookup (images s) p") (auto simp: s2_def sel(6) split: option.split)
    have c2: "\<forall>i \<in> set is. contentOf (digestBytes E) (fs s2) i \<noteq> None" "no_io (fs s2)"
      using Cons.prems sel(8,11) by (simp_all add: fs2)
    note ih = Cons.IH [OF c2, unfolded pf]
    have "ffilter (\<lambda>c. parentFile s c = Some p) (fset_of_list (i # is)) =
        (if parentFile s i = Some p then finsert i (ffilter (\<lambda>c. parentFile s c = Some p) (fset_of_list is))
         else ffilter (\<lambda>c. parentFile s c = Some p) (fset_of_list is))"
      by auto
    then show ?case using ih unfolding step look by (cases "fmlookup (images s) p") simp_all
  qed
  then show "fst (restoreChildren E is s) = None" "fmlookup (images (snd (restoreChildren E is s))) p =
     map_option (\<lambda>m. m\<lparr>metaChildren := metaChildren m |\<union>| ffilter (\<lambda>c. parentFile s c = Some p) (fset_of_list is)\<rparr>)
       (fmlookup (images s) p)" by blast+
qed

text \<open>Opening the store on any files, when no file operation fails and the layers are there.\<close>

lemma restore_spec:
  assumes layers: "\<And>i c. readable E f i \<Longrightarrow> contentOf (digestBytes E) f i = Some c \<Longrightarrow> obtainable E P c" and P: "P l0" and io: "no_io f"
  shows "\<exists>s'. NewImageStore E f l0 = (None, s') \<and> known s' = readable E f \<and>
           (\<forall>p c. c |\<in>| imageStore_Children p s' \<longleftrightarrow> readable E f p \<and> readable E f c \<and> metadata f c ''parent'' = Some p)"
proof -
  let ?f = "snd (fs_io f)"
  let ?s0 = "\<lparr>images = fmempty, fs = ?f, digestSet = {||}, ls = l0\<rparr>"
  have f: "content ?f = content f" "metadata ?f = metadata f" "no_io ?f"
    using fs_reads(1) [of f] io by (simp_all add: same_files_def no_io_def)
  have r: "readable E ?f = readable E f" and c: "contentOf dg ?f = contentOf dg f" for dg
    using readable_cong [OF f(1)] f(1) by (simp_all add: contentOf_def fun_eq_iff)
  have walk: "i \<in> set (fs_WalkIDs ?f) \<longleftrightarrow> Digest_Validate i = None \<and> i |\<in>| fmdom (content f)" for i
    by (auto simp: fs_WalkIDs_def f sorted_list_of_fset_simps)
  obtain s1 where s1: "restoreImages E (fs_WalkIDs ?f) ?s0 = (None, s1)" "same_files ?f (fs s1)"
    and dom: "fmdom (images s1) = ffilter (readable E f) (fset_of_list (fs_WalkIDs ?f))"
    and none: "\<And>p m. fmlookup (images s1) p = Some m \<Longrightarrow> metaChildren m = {||}"
    using restoreImages_spec [of "fs_WalkIDs ?f" ?s0 P E] walk f P layers by (auto simp: r c)
  have on_walk: "readable E f i \<Longrightarrow> i \<in> set (fs_WalkIDs ?f)" for i
    by (auto simp: walk readable_def contentOf_def fmlookup_dom_iff split: if_splits option.splits)
  have kn: "known s1 i \<longleftrightarrow> readable E f i" for i
    using on_walk by (auto simp: known_def dom fset_of_list_elem)
  have look: "fmlookup (images s1) p = None \<longleftrightarrow> \<not> readable E f p" for p
    using kn [of p] by (auto simp: known_iff)
  let ?l = "sorted_list_of_fset (fmdom (images s1))"
  have f1: "contentOf dg (fs s1) = contentOf dg f" "metadata (fs s1) = metadata f" "no_io (fs s1)" for dg
    using s1(2) f by (simp_all add: same_files_def contentOf_def no_io_def fun_eq_iff)
  have c1: "\<forall>i \<in> set ?l. contentOf (digestBytes E) (fs s1) i \<noteq> None"
    by (auto simp: dom f1 readable_def sorted_list_of_fset_simps)
  note ch = restoreChildren_spec [OF c1 f1(3)]
  let ?s' = "snd (restoreChildren E ?l s1)"
  have "known ?s' i \<longleftrightarrow> known s1 i" for i by (simp add: known_iff ch(2))
  moreover have "c |\<in>| imageStore_Children p ?s' \<longleftrightarrow> readable E f p \<and> readable E f c \<and> metadata f c ''parent'' = Some p" for c p
  proof (cases "fmlookup (images s1) p")
    case None
    then show ?thesis using look [of p] by (simp add: imageStore_Children_def imageStore_children_def ch(2))
  next
    case (Some m)
    have "c |\<in>| fmdom (images s1) \<longleftrightarrow> readable E f c" using kn by (simp add: known_def)
    then show ?thesis using Some none [OF Some] look [of p]
      by (auto simp: imageStore_Children_def imageStore_children_def ch(2) fset_of_list_elem sorted_list_of_fset_simps parentFile_def f1)
  qed
  moreover have "NewImageStore E f l0 = (None, ?s')"
    using fs_io_ok [OF io] s1(1) ch(1) unfolding NewImageStore_def imageStore_restore_def withFs_def
    by (cases "fs_io f"; cases "restoreChildren E ?l s1") simp
  ultimately show ?thesis using kn by (auto simp: fun_eq_iff)
qed

end
