(* ===== verification/Image_Properties.thy ===== *)
theory Image_Properties
  imports Image_Invariant
begin

text \<open>
  What the image store promises over histories of calls.  \<open>layer_releaser\<close> is the contract of
  the interface \<open>LayerGetReleaser\<close> of \<^verbatim>\<open>src/image/store.go\<close>; its client lemmas say that the
  store retains the layer of every image it has, and the interpretation discharges the
  contract for the layer store.
\<close>

section \<open>The contract of the layer store\<close>

text \<open>The configurations that the files hold.\<close>

definition filesIn :: "bytes set \<Rightarrow> ('l, 'h) imageEnv \<Rightarrow> ('l, 'h) imageStore \<Rightarrow> bool" where
  "filesIn K E s \<longleftrightarrow> (\<forall>i c. contentOf (digestBytes E) (fs s) i = Some c \<longrightarrow> c \<in> K)"

definition retains :: "('l \<Rightarrow> 'h \<Rightarrow> ChainID \<Rightarrow> bool) \<Rightarrow> ('l, 'h) imageEnv \<Rightarrow> ('l, 'h) imageStore \<Rightarrow> bool" where
  "retains holds E s \<longleftrightarrow>
     (\<forall>i x. layersOf s i = Some x \<longrightarrow>
        (\<exists>c. contentOf (digestBytes E) (fs s) i = Some c \<and>
             (case x of None \<Rightarrow> chainOf E c = [] | Some h \<Rightarrow> holds (ls s) h (chainOf E c)))) \<and>
     (\<forall>i j h. layersOf s i = Some (Some h) \<longrightarrow> layersOf s j = Some (Some h) \<longrightarrow> i = j)"

text \<open>
  A history: calls on the image store, and calls of other users of the layer store, who
  release only handles that they hold themselves.  The images are created from configurations
  in \<open>K\<close>, and \<open>SetParent\<close> is called for the images that \<open>C\<close> allows; a property that needs a
  restriction states it by the choice of \<open>K\<close> and \<open>C\<close>.
\<close>

inductive istep ::
    "bytes set \<Rightarrow> (('l, 'h) imageStore \<Rightarrow> ID \<Rightarrow> bool) \<Rightarrow> ('l \<Rightarrow> 'h \<Rightarrow> ChainID \<Rightarrow> bool) \<Rightarrow> ('l, 'h) imageEnv \<Rightarrow>
     ('l, 'h) imageStore \<Rightarrow> ('l, 'h) imageStore \<Rightarrow> bool"
  for K C holds E where
  create: "imageStore_Create E config s = (r, s') \<Longrightarrow> config \<in> K \<Longrightarrow> istep K C holds E s s'"
| set_parent: "imageStore_SetParent E i p s = (e, s') \<Longrightarrow> C s i \<Longrightarrow> istep K C holds E s s'"
| delete: "imageStore_Delete E i s = Some (res, s') \<Longrightarrow> istep K C holds E s s'"
| other_get: "lsGet E c (ls s) = (g, l') \<Longrightarrow> istep K C holds E s (s\<lparr>ls := l'\<rparr>)"
| other_release: "lsRelease E h (ls s) = Some (res, l') \<Longrightarrow> holds (ls s) h c \<Longrightarrow>
    (\<And>i. layersOf s i \<noteq> Some (Some h)) \<Longrightarrow> istep K C holds E s (s\<lparr>ls := l'\<rparr>)"

abbreviation anyChild :: "('l, 'h) imageStore \<Rightarrow> ID \<Rightarrow> bool" where
  "anyChild \<equiv> \<lambda>s i. True"

lemma SetParent_unknown: "\<not> known s p \<Longrightarrow> snd (imageStore_SetParent E i p s) = s"
  by (simp add: imageStore_SetParent_def known_iff)

lemma SetParent_step_inv:
  assumes "is_inv E s" and "known s i" and "imageStore_SetParent E i p s = (e, s')"
  shows "is_inv E s'"
  using assms SetParent_inv(1) [OF assms(1,2) _ assms(3)] SetParent_unknown [of s p E i] by (cases "known s p") simp_all

lemma istep_inv: "istep K known holds E s s' \<Longrightarrow> is_inv E s \<Longrightarrow> is_inv E s'"
  by (induction rule: istep.induct) (auto simp: is_inv_ls intro: Create_inv SetParent_step_inv image_Delete_inv)

lemma retainsD:
  assumes "retains holds E s"
  shows "layersOf s i = Some (Some h) \<Longrightarrow> \<exists>c. contentOf (digestBytes E) (fs s) i = Some c \<and> holds (ls s) h (chainOf E c)"
    and "layersOf s i = Some (Some h) \<Longrightarrow> layersOf s j = Some (Some h) \<Longrightarrow> i = j"
  using assms unfolding retains_def by fastforce+

lemma retains_mono:
  assumes "retains holds E s"
    and "\<And>i x. layersOf s' i = Some x \<Longrightarrow> layersOf s i = Some x"
    and "\<And>i x. layersOf s' i = Some x \<Longrightarrow> contentOf (digestBytes E) (fs s') i = contentOf (digestBytes E) (fs s) i"
    and "\<And>i h c. layersOf s' i = Some (Some h) \<Longrightarrow> holds (ls s) h c \<Longrightarrow> holds (ls s') h c"
  shows "retains holds E s'"
  unfolding retains_def
proof (intro conjI allI impI)
  fix i x assume x: "layersOf s' i = Some x"
  with assms(1,2) obtain c where "contentOf (digestBytes E) (fs s) i = Some c"
    "case x of None \<Rightarrow> chainOf E c = [] | Some h \<Rightarrow> holds (ls s) h (chainOf E c)"
    unfolding retains_def by blast
  with assms(3,4) x show "\<exists>c. contentOf (digestBytes E) (fs s') i = Some c \<and>
      (case x of None \<Rightarrow> chainOf E c = [] | Some h \<Rightarrow> holds (ls s') h (chainOf E c))"
    by (cases x) auto
next
  fix i j h assume "layersOf s' i = Some (Some h)" "layersOf s' j = Some (Some h)"
  then show "i = j" using assms(1,2) unfolding retains_def by blast
qed

lemma soft_retains:
  assumes "soft s s'" and "retains holds E s"
  shows "retains holds E s'"
  by (rule retains_mono [OF assms(2)]) (simp_all add: soft_sel [OF assms(1)])

lemma filesIn_mono:
  assumes "filesIn K E s" and "\<And>i c. contentOf (digestBytes E) (fs s') i = Some c \<Longrightarrow> contentOf (digestBytes E) (fs s) i = Some c \<or> c \<in> K"
  shows "filesIn K E s'"
  using assms unfolding filesIn_def by blast

text \<open>Writing a configuration leaves the contents of the images, as \<open>K\<close> has no two of the same digest.\<close>

lemma written_content:
  assumes "filesIn K E s" and "inj_on (digestBytes E) K" and "config \<in> K" and "hasSep (digestBytes E config)"
    and "content (fs s') = fmupd (digestBytes E config) config (content (fs s))" and "contentOf (digestBytes E) (fs s) i = Some c"
  shows "contentOf (digestBytes E) (fs s') i = Some c"
proof (cases "i = digestBytes E config")
  case False
  with assms(5,6) show ?thesis by (simp add: contentOf_def split: if_splits)
next
  case True
  have "digestBytes E c = i" using assms(6) by (simp add: contentOf_def split: option.splits if_splits)
  moreover have "c \<in> K" using assms(1,6) unfolding filesIn_def by blast
  ultimately have "c = config" using assms(2,3) True by (auto dest: inj_onD)
  with True assms(4,5) show ?thesis by (simp add: contentOf_def)
qed

lemma retains_add:
  assumes "retains holds E s" and "layersOf s i = None" and "layersOf s' = (layersOf s)(i \<mapsto> x)"
    and "\<And>j. layersOf s j \<noteq> None \<Longrightarrow> contentOf (digestBytes E) (fs s') j = contentOf (digestBytes E) (fs s) j"
    and "contentOf (digestBytes E) (fs s') i = Some c"
    and "case x of None \<Rightarrow> chainOf E c = [] | Some h \<Rightarrow> holds (ls s') h (chainOf E c)"
    and "\<And>j h d. layersOf s j = Some (Some h) \<Longrightarrow> holds (ls s) h d \<Longrightarrow> holds (ls s') h d \<and> x \<noteq> Some h"
  shows "retains holds E s'"
  unfolding retains_def
proof (intro conjI allI impI)
  fix j y assume y: "layersOf s' j = Some y"
  show "\<exists>c. contentOf (digestBytes E) (fs s') j = Some c \<and>
      (case y of None \<Rightarrow> chainOf E c = [] | Some h \<Rightarrow> holds (ls s') h (chainOf E c))"
  proof (cases "j = i")
    case True
    with y assms(3,5,6) show ?thesis by simp
  next
    case False
    with y assms(3) have j: "layersOf s j = Some y" by simp
    with assms(1) obtain d where "contentOf (digestBytes E) (fs s) j = Some d"
      "case y of None \<Rightarrow> chainOf E d = [] | Some h \<Rightarrow> holds (ls s) h (chainOf E d)"
      unfolding retains_def by blast
    with assms(4) [of j] assms(7) [of j] j show ?thesis by (cases y) auto
  qed
next
  have old: "x \<noteq> Some h" if "layersOf s j = Some (Some h)" for j h
    using retainsD(1) [OF assms(1) that] assms(7) [OF that] by blast
  note inj = retainsD(2) [OF assms(1)]
  fix j k h assume "layersOf s' j = Some (Some h)" "layersOf s' k = Some (Some h)"
  then show "j = k" using old [of j h] old [of k h] inj [of j h k] unfolding assms(3) by (cases "j = i"; cases "k = i") simp_all
qed

locale layer_releaser =
  fixes getL :: "ChainID \<Rightarrow> 'l \<Rightarrow> (string + 'h) \<times> 'l"
    and releaseL :: "'h \<Rightarrow> 'l \<Rightarrow> (Metadata list outcome \<times> 'l) option"
    and ok :: "'l \<Rightarrow> bool"
    and holds :: "'l \<Rightarrow> 'h \<Rightarrow> ChainID \<Rightarrow> bool"
  assumes get_ok: "ok l \<Longrightarrow> getL c l = (x, l') \<Longrightarrow> ok l'"
    and get_holds: "ok l \<Longrightarrow> getL c l = (Inr h, l') \<Longrightarrow> holds l' h c"
    and get_fresh: "ok l \<Longrightarrow> getL c l = (Inr h, l') \<Longrightarrow> \<not> holds l h d"
    and get_keeps: "ok l \<Longrightarrow> getL c l = (x, l') \<Longrightarrow> holds l g d \<Longrightarrow> holds l' g d"
    and release_ok: "ok l \<Longrightarrow> holds l h c \<Longrightarrow> releaseL h l = Some (r, l') \<Longrightarrow> ok l'"
    and release_keeps: "ok l \<Longrightarrow> holds l h c \<Longrightarrow> releaseL h l = Some (r, l') \<Longrightarrow> holds l g d \<Longrightarrow> g \<noteq> h \<Longrightarrow> holds l' g d"
    and release_returns: "ok l \<Longrightarrow> holds l h c \<Longrightarrow> \<exists>r l'. releaseL h l = Some (r, l') \<and> no_panic r"
begin

lemma getLayer_retains:
  assumes "lsGet E = getL" and "ok (ls s)" and "getLayer E c s = (g, s2)"
  shows "ok (ls s2)" and "holds (ls s) h d \<Longrightarrow> holds (ls s2) h d"
    and "g = Inr x \<Longrightarrow> case x of None \<Rightarrow> c = [] | Some h \<Rightarrow> holds (ls s2) h c"
    and "g = Inr (Some h) \<Longrightarrow> \<not> holds (ls s) h d"
proof -
  obtain y l where y: "getL c (ls s) = (y, l)" by (rule prod.exhaust)
  have "c = [] \<and> s2 = s \<and> g = Inr None \<or> ls s2 = l \<and> (case y of Inl e \<Rightarrow> g = Inl e | Inr h \<Rightarrow> g = Inr (Some h))"
    using assms(3) y by (auto simp: getLayer_def assms(1) split: if_splits sum.splits)
  then show "ok (ls s2)" and "holds (ls s) h d \<Longrightarrow> holds (ls s2) h d"
    and "g = Inr x \<Longrightarrow> case x of None \<Rightarrow> c = [] | Some h \<Rightarrow> holds (ls s2) h c"
    and "g = Inr (Some h) \<Longrightarrow> \<not> holds (ls s) h d"
    using assms(2) get_ok [OF assms(2) y] get_keeps [OF assms(2) y] get_holds [OF assms(2), of c _ l]
      get_fresh [OF assms(2), of c _ l] y
    by (cases y; auto)+
qed

lemma added_retains:
  assumes E: "lsGet E = getL" and ok: "ok (ls s)" and ret: "retains holds E s" and new: "layersOf s i = None"
    and lay: "getLayer E (chainOf E c) s = (Inr h, s2)" and c: "contentOf (digestBytes E) (fs s) i = Some c"
  shows "retains holds E (s2\<lparr>images := fmupd i \<lparr>metaLayer = h, metaChildren = {||}\<rparr> (images s2), digestSet := d\<rparr>)" (is "retains holds E ?t")
proof -
  obtain l where s2: "s2 = s\<lparr>ls := l\<rparr>" using getLayer_sel [OF lay] by blast
  note gl = getLayer_retains [OF E ok lay]
  show ?thesis
  proof (rule retains_add [OF ret new, where c = c and x = h])
    show "layersOf ?t = (layersOf s)(i \<mapsto> h)" by (simp add: s2 layersOf_def fun_eq_iff)
    show "contentOf (digestBytes E) (fs ?t) i = Some c" using c by (simp add: s2)
    show "case h of None \<Rightarrow> chainOf E c = [] | Some h \<Rightarrow> holds (ls ?t) h (chainOf E c)" using gl(3) [OF refl] by (cases h) simp_all
    show "holds (ls ?t) k d \<and> h \<noteq> Some k" if "holds (ls s) k d" for k d using gl(2,4) that by auto
  qed (simp add: s2)
qed

lemma Create_retains:
  assumes E: "lsGet E = getL" and inv: "ok (ls s)" and ret: "retains holds E s"
    and run: "imageStore_Create E config s = (r, s')" and K: "filesIn K E s" "inj_on (digestBytes E) K" "config \<in> K"
  shows "retains holds E s'" and "ok (ls s')" and "filesIn K E s'"
proof -
  let ?i = "digestBytes E config"
  have "retains holds E s' \<and> ok (ls s') \<and> filesIn K E s'"
    using run
  proof (cases rule: Create_cases)
    case refused
    note soft = same_store_soft [OF refused(1)]
    show ?thesis using inv soft_retains [OF soft ret] K(1) by (simp add: soft_sel [OF soft] filesIn_def)
  next
    case (written s1 img)
    have l1: "layersOf s1 = layersOf s" using written(2) by (simp add: layersOf_def fun_eq_iff)
    have c1: "contentOf (digestBytes E) (fs s1) j = contentOf (digestBytes E) (fs s) j" if j: "layersOf s j \<noteq> None" for j
    proof -
      obtain c where "contentOf (digestBytes E) (fs s) j = Some c" using ret j unfolding retains_def by blast
      with written_content [OF K written(8,5) this] show ?thesis by simp
    qed
    have f1: "filesIn K E s1"
      by (rule filesIn_mono [OF K(1)]) (use K(3) written(5) in \<open>auto simp: contentOf_def split: if_splits option.splits\<close>)
    have r1: "retains holds E s1" using c1 written(4) l1 by (intro retains_mono [OF ret]) simp_all
    show ?thesis
    proof (cases "known s ?i")
      case True
      with written(4,9) r1 inv f1 show ?thesis by simp
    next
      case False
      with written(10) obtain g s2 where g: "getLayer E (chainOf E config) s1 = (g, s2)"
        and s': "s' = s2 \<or> (\<exists>h. g = Inr h \<and> s' = s2\<lparr>images := fmupd ?i \<lparr>metaLayer = h, metaChildren = {||}\<rparr> (images s2),
             digestSet := finsert ?i (digestSet s2)\<rparr>)" by blast
      obtain l where s2: "s2 = s1\<lparr>ls := l\<rparr>" using getLayer_sel [OF g] by blast
      have ok1: "ok (ls s1)" using written(4) inv by simp
      note gl = getLayer_retains [OF E ok1 g]
      have new: "layersOf s1 ?i = None" using False l1 by (simp add: known_layersOf)
      have r2: "retains holds E s2" using gl(2) s2 by (intro retains_mono [OF r1]) simp_all
      have f2: "filesIn K E s'" using f1 s' by (auto simp: filesIn_def s2)
      show ?thesis
      proof (cases "s' = s2")
        case True
        with r2 gl(1) f2 show ?thesis by simp
      next
        case False
        with s' obtain h where h: "g = Inr h"
          "s' = s2\<lparr>images := fmupd ?i \<lparr>metaLayer = h, metaChildren = {||}\<rparr> (images s2), digestSet := finsert ?i (digestSet s2)\<rparr>"
          by blast
        have "retains holds E s'" unfolding h(2)
          by (rule added_retains [OF E ok1 r1 new g [unfolded h(1)]]) (use written(5,8) in \<open>simp add: contentOf_def\<close>)
        with h(2) gl(1) f2 show ?thesis by simp
      qed
    qed
  qed
  then show "retains holds E s'" "ok (ls s')" "filesIn K E s'" by simp_all
qed

lemma Delete_retains:
  assumes E: "lsRelease E = releaseL" and inv: "is_base E s" "ok (ls s)" and ret: "retains holds E s"
    and run: "imageStore_Delete E i s = Some (r, s')"
  shows "is_base E s' \<and> retains holds E s' \<and> ok (ls s')"
  using inv(1) run
proof (cases rule: Delete_layers)
  case unknown
  with inv ret show ?thesis by simp
next
  case plain
  have "retains holds E s'"
    using plain by (intro retains_mono [OF ret]) (auto split: if_splits)
  with plain inv show ?thesis by simp
next
  case (layer h res)
  obtain c where c: "holds (ls s) h c" using retainsD(1) [OF ret layer(1)] by blast
  note rel = layer(5) [unfolded E]
  have "retains holds E s'"
  proof (rule retains_mono [OF ret])
    fix j x assume "layersOf s' j = Some x"
    then show "layersOf s j = Some x" "contentOf (digestBytes E) (fs s') j = contentOf (digestBytes E) (fs s) j"
      using layer by (auto split: if_splits)
  next
    fix j k d assume j: "layersOf s' j = Some (Some k)" and d: "holds (ls s) k d"
    then have "k \<noteq> h" using retainsD(2) [OF ret layer(1), of j] layer(2) by (auto split: if_splits)
    then show "holds (ls s') k d" by (rule release_keeps [OF inv(2) c rel d])
  qed
  then show ?thesis using release_ok [OF inv(2) c rel] layer(3) by simp
qed

lemma Delete_returns:
  assumes E: "lsRelease E = releaseL" and inv: "is_base E s" "ok (ls s)" and ret: "retains holds E s"
  shows "\<exists>r s'. imageStore_Delete E i s = Some (r, s') \<and> (\<forall>x. r = Inr x \<longrightarrow> no_panic x) \<and> (known s i \<longrightarrow> (\<exists>x. r = Inr x))"
proof (cases "fmlookup (images s) i")
  case None
  then show ?thesis by (simp add: imageStore_Delete_def known_iff)
next
  case m: (Some m)
  show ?thesis
  proof (cases "metaLayer m")
    case None
    then show ?thesis by (simp add: Delete_forget [OF inv(1) m])
  next
    case (Some h)
    then have "layersOf s i = Some (Some h)" using m by (simp add: layersOf_def)
    then obtain c where "holds (ls s) h c" using retainsD(1) [OF ret] by blast
    then obtain r l where "releaseL h (ls s) = Some (r, l)" "no_panic r" using release_returns [OF inv(2)] by blast
    with Some show ?thesis by (simp add: Delete_forget [OF inv(1) m] forget_base(2) [OF inv(1) m] E)
  qed
qed

definition held :: "bytes set \<Rightarrow> ('l, 'h) imageEnv \<Rightarrow> ('l, 'h) imageStore \<Rightarrow> bool" where
  "held K E s \<longleftrightarrow> is_base E s \<and> ok (ls s) \<and> retains holds E s \<and> filesIn K E s"

lemma soft_held: "soft s s' \<Longrightarrow> held K E s \<Longrightarrow> held K E s'"
  using soft_base soft_retains unfolding held_def filesIn_def by (metis soft_sel(3,5))

lemma Delete_filesIn:
  assumes "is_base E s" and "imageStore_Delete E i s = Some (r, s')" and "filesIn K E s"
  shows "filesIn K E s'"
proof (cases "fmlookup (images s) i")
  case None
  with assms show ?thesis by (simp add: imageStore_Delete_def)
next
  case (Some m)
  let ?s = "forget E i m s"
  have "fs s' = fs ?s" using assms(2) unfolding Delete_forget [OF assms(1) Some] by (auto split: option.splits)
  moreover have "filesIn K E ?s"
  proof (rule filesIn_mono [OF assms(3)])
    fix j c assume c: "contentOf (digestBytes E) (fs ?s) j = Some c"
    show "contentOf (digestBytes E) (fs s) j = Some c \<or> c \<in> K"
      using forget_shrinks(1) [OF c] by blast
  qed
  ultimately show ?thesis by (simp add: filesIn_def)
qed

lemma istep_held:
  assumes "istep K C holds E s s'" and E: "lsGet E = getL" "lsRelease E = releaseL" and K: "inj_on (digestBytes E) K"
    and held: "held K E s"
  shows "held K E s'"
  using assms(1)
proof (cases rule: istep.cases)
  case (create config r)
  with held Create_retains [OF E(1) _ _ create(1) _ K] Create_base show ?thesis unfolding held_def by blast
next
  case (set_parent i p e)
  then show ?thesis using soft_held [OF SetParent_soft(1) held] by blast
next
  case (delete i res)
  with held Delete_retains [OF E(2)] Delete_filesIn show ?thesis unfolding held_def by blast
next
  case (other_get c g l')
  have ok: "ok (ls s)" and ret: "retains holds E s" using held by (simp_all add: held_def)
  have "retains holds E s'" unfolding other_get(1)
    by (rule retains_mono [OF ret]) (use get_keeps [OF ok other_get(2) [unfolded E]] in simp_all)
  with other_get get_ok [OF ok] E held show ?thesis by (simp add: held_def filesIn_def)
next
  case (other_release h res l' c)
  have ok: "ok (ls s)" and ret: "retains holds E s" using held by (simp_all add: held_def)
  note rel = other_release(2) [unfolded E]
  have "retains holds E s'" unfolding other_release(1)
    by (rule retains_mono [OF ret]) (use release_keeps [OF ok other_release(3) rel] other_release(4) in auto)
  with other_release release_ok [OF ok _ rel] held show ?thesis by (simp add: held_def filesIn_def)
qed

lemma history_held:
  assumes "(istep K C holds E)\<^sup>*\<^sup>* s s'" and "lsGet E = getL" "lsRelease E = releaseL" "inj_on (digestBytes E) K" "held K E s"
  shows "held K E s'"
  using assms(1) by induction (use assms(2-) istep_held in blast)+

text \<open>A store that was opened on any files retains the layers of its images.\<close>

lemma restoreImages_held:
  assumes "restoreImages E is s = (None, s')" and E: "lsGet E = getL" and "held K E s" and "distinct is"
    and "\<forall>i \<in> set is. Digest_Validate i = None \<and> layersOf s i = None"
  shows "held K E s'"
  using assms(1,3,4,5)
proof (induction "is" arbitrary: s)
  case (Cons i "is")
  obtain x s1 where g: "imageStore_Get E i s = (x, s1)" by (rule prod.exhaust)
  have same: "same_store s s1" using Get_same [of s E i] g by simp
  have held1: "held K E s1" by (rule soft_held [OF same_store_soft [OF same] Cons.prems(2)])
  note sel = same_store_sel [OF same]
  show ?case
  proof (cases x)
    case (Inl e)
    with Cons.prems(1) g have "restoreImages E is s1 = (None, s')" by (cases e) simp_all
    then show ?thesis by (rule Cons.IH [OF _ held1]) (use Cons.prems(3,4) sel in simp_all)
  next
    case (Inr img)
    obtain c img0 where c: "contentOf (digestBytes E) (fs s) i = Some c" "NewFromJSON E c = Inr img0"
      and chain: "RootFS_ChainID (digestBytes E) (the (imgDiffIDs img)) = chainOf E c"
      using Get_readable [OF g [unfolded Inr]] by blast
    obtain y s2 where lay: "getLayer E (chainOf E c) s1 = (y, s2)" by (rule prod.exhaust)
    have valid: "Digest_Validate i = None" and new: "layersOf s1 i = None" using Cons.prems(4) sel by simp_all
    obtain h where y: "y = Inr h" using Cons.prems(1) by (cases y) (simp_all add: g Inr chain lay)
    let ?t = "s2\<lparr>images := fmupd i \<lparr>metaLayer = h, metaChildren = {||}\<rparr> (images s2), digestSet := finsert i (digestSet s2)\<rparr>"
    have run: "restoreImages E is ?t = (None, s')"
      using Cons.prems(1) valid by (simp add: g Inr chain lay y digestSet_Add_def)
    have ok: "ok (ls s1)" "retains holds E s1" "is_base E s1" "filesIn K E s1" using held1 by (simp_all add: held_def)
    obtain l where s2: "s2 = s1\<lparr>ls := l\<rparr>" using getLayer_sel [OF lay] by blast
    have c1: "contentOf (digestBytes E) (fs s1) i = Some c" using c(1) sel by simp
    have "retains holds E ?t" by (rule added_retains [OF E ok(1,2) new lay [unfolded y] c1])
    moreover have base2: "is_base E s2" using ok(3) by (simp add: s2)
    have "contentOf (digestBytes E) (fs s2) i = Some c" using c1 by (simp add: s2)
    then have "is_base E ?t" by (rule add_image_base [OF base2 _ c(2) valid])
    moreover have "ok (ls ?t)" using getLayer_retains(1) [OF E ok(1) lay] by simp
    moreover have "filesIn K E ?t" using ok(4) by (simp add: filesIn_def s2)
    ultimately have "held K E ?t" by (simp add: held_def)
    moreover have "layersOf ?t j = None" if "j \<in> set is" for j
      using that Cons.prems(3,4) by (auto simp: layersOf_def s2 sel(6))
    ultimately show ?thesis using Cons.prems(3,4) by (intro Cons.IH [OF run]) simp_all
  qed
qed simp

lemma restoreChildren_soft:
  "restoreChildren E is s = (x, s') \<Longrightarrow> \<forall>i \<in> set is. hasSep i \<Longrightarrow> soft s s' \<and> x = None"
proof (induction "is" arbitrary: s)
  case Nil
  then show ?case by (auto intro: same_store_soft)
next
  case (Cons i "is")
  obtain y s1 where g: "imageStore_GetParent E i s = (y, s1)" by (rule prod.exhaust)
  have s1: "soft s s1" using same_store_soft [OF GetParent_same [of s E i]] g by simp
  have np: "y \<noteq> Inl FsPanic" using GetParent_panic [of E i s] g Cons.prems(2) by auto
  obtain t where t: "soft s1 t" "restoreChildren E is t = (x, s')"
  proof (cases "\<exists>p m. y = Inr p \<and> fmlookup (images s1) p = Some m")
    case True
    then obtain p m where pm: "y = Inr p" "fmlookup (images s1) p = Some m" by blast
    show thesis
    proof (rule that)
      show "soft s1 (s1\<lparr>images := fmupd p (m\<lparr>metaChildren := finsert i (metaChildren m)\<rparr>) (images s1)\<rparr>)"
        using pm(2) Cons.prems(2) by (auto simp: soft_def layersOf_def parentFile_def fun_eq_iff)
    qed (use Cons.prems(1) in \<open>simp add: g pm\<close>)
  next
    case False
    then have "restoreChildren E is s1 = (x, s')"
      using Cons.prems(1) np by (cases y) (auto simp: g split: fs_error.splits option.splits)
    then show thesis by (intro that [of s1]) (simp_all add: same_store_soft)
  qed
  then show ?case using Cons.IH [OF t(2)] Cons.prems(2) soft_trans [OF s1 soft_trans [OF t(1)]] by auto
qed

lemma opened_held:
  assumes "NewImageStore E f l0 = (None, s)" and E: "lsGet E = getL" and "ok l0" and K: "fset (fmran (content f)) \<subseteq> K"
  shows "held K E s"
proof -
  let ?s0 = "\<lparr>images = fmempty, fs = snd (fs_io f), digestSet = {||}, ls = l0\<rparr>"
  obtain s1 where s1: "restoreImages E (fs_WalkIDs (snd (fs_io f))) ?s0 = (None, s1)"
    and run: "restoreChildren E (sorted_list_of_fset (fmdom (images s1))) s1 = (None, s)"
    using assms(1) unfolding NewImageStore_def imageStore_restore_def withFs_def
    by (auto split: prod.splits option.splits)
  have "c \<in> K" if "contentOf dg (snd (fs_io f)) i = Some c" for dg i c
    using that K fs_reads(1) [of f]
    by (auto simp: contentOf_def same_files_def split: if_splits option.splits intro: fmranI)
  then have "held K E ?s0"
    using assms(3) by (simp add: held_def is_base_def retains_def known_def layersOf_def filesIn_def)
  then have h1: "held K E s1"
    by (rule restoreImages_held [OF s1 E]) (auto simp: fs_WalkIDs_def layersOf_def sorted_list_of_fset.rep_eq)
  have "\<forall>i \<in> set (sorted_list_of_fset (fmdom (images s1))). hasSep i"
    using h1 is_baseD(3) by (auto simp: held_def known_def sorted_list_of_fset_simps)
  from restoreChildren_soft [OF run this] soft_held [OF _ h1] show ?thesis by blast
qed

end

section \<open>The layer store keeps the contract\<close>

definition layerGetter :: "ChainID \<Rightarrow> 'w layerStore \<Rightarrow> (string + layerRef) \<times> 'w layerStore" where
  "layerGetter c l =
     (case layerStore_Get c l of
        (Ok r, l') \<Rightarrow> (Inr r, l')
      | (Err _, l') \<Rightarrow> (Inl ''layer does not exist'', l')
      | (Panic m, l') \<Rightarrow> (Inl m, l'))"

definition layerEnv ::
    "'w backend \<Rightarrow> (bytes \<Rightarrow> string) \<Rightarrow> (bytes \<Rightarrow> string + Image) \<Rightarrow> ('w layerStore, layerRef) imageEnv" where
  "layerEnv B digest unmarshal =
     \<lparr>unmarshalImage = unmarshal, digestBytes = digest, lsGet = layerGetter, lsRelease = layerStore_Release B\<rparr>"

lemma layerEnv_sel [simp]:
  "unmarshalImage (layerEnv B dg un) = un" "digestBytes (layerEnv B dg un) = dg"
  "lsGet (layerEnv B dg un) = layerGetter" "lsRelease (layerEnv B dg un) = layerStore_Release B"
  by (simp_all add: layerEnv_def)

lemma layerGetter_cases:
  assumes "layerGetter c l = (x, l')"
  obtains (missing) e where "x = Inl e" "l' = l" "layerMap l c = None"
  | (found) a where "x = Inr (nextLoc l, a)" "layerMap l c = Some a" "layerStore_Get c l = (Ok (nextLoc l, a), l')"
      "layerMap l' = layerMap l"
      "l' = (updRo a (\<lambda>k. k\<lparr>references := insert (nextLoc l) (references k)\<rparr>) (updRo a incRef l))\<lparr>nextLoc := nextLoc l + 1\<rparr>"
proof (cases "layerMap l c")
  case None
  with assms show thesis by (intro missing) (auto simp: layerGetter_def layerStore_Get_def layerStore_getWithoutLock_def)
next
  case (Some a)
  note unfold = layerStore_Get_def layerStore_getWithoutLock_def roLayer_getReference_def Let_def
  show thesis
  proof (rule found)
    show "x = Inr (nextLoc l, a)" "layerStore_Get c l = (Ok (nextLoc l, a), l')" "layerMap l' = layerMap l"
      "l' = (updRo a (\<lambda>k. k\<lparr>references := insert (nextLoc l) (references k)\<rparr>) (updRo a incRef l))\<lparr>nextLoc := nextLoc l + 1\<rparr>"
      using assms Some by (auto simp: layerGetter_def unfold)
  qed (rule Some)
qed

lemma handle_ok_layer:
  assumes inv: "ls_inv g l" and r: "handle_ok l r c"
  obtains k where "ro l (snd r) = Some k" "fst r \<in> references k" "chainID k = c" "snd r \<in> live l" "fst r < nextLoc l"
proof -
  obtain k where k: "layerMap l c = Some (snd r)" "ro l (snd r) = Some k" "fst r \<in> references k"
    using r by (auto simp: handle_ok_def)
  then have live: "snd r \<in> live l" by (auto simp: live_def ran_def)
  from ls_inv_at(2) [OF inv live k(2)] k(3) have "fst r < nextLoc l" by (simp add: layer_ok_def)
  with that k live ls_inv_chain [OF inv k(1,2)] show thesis by blast
qed

lemma Release_handle:
  assumes inv: "ls_inv g l" and r: "handle_ok l r c"
  shows "\<exists>res l'. layerStore_Release B r l = Some (res, l') \<and> no_panic res \<and> ls_inv g l' \<and>
           (\<forall>q d. handle_ok l q d \<longrightarrow> q \<noteq> r \<longrightarrow> handle_ok l' q d)"
proof -
  obtain k where k: "ro l (snd r) = Some k" "fst r \<in> references k" "chainID k = c" "snd r \<in> live l"
    using handle_ok_layer [OF inv r] by blast
  let ?l = "updRo (snd r) (roLayer_deleteReference r) l"
  have c: "layerMap l c = Some (snd r)" using r by (simp add: handle_ok_def)
  have has: "roLayer_hasReference k r" using k by (simp add: roLayer_hasReference_def)
  have inv1: "ls_inv (add_mset (snd r) g) ?l" by (rule deleteReference_inv [OF inv c k(1) has])
  obtain res l' where rel: "layerStore_releaseLayer B (snd r) ?l = Some (res, l')" and ok: "release_ok g [] ?l res l'"
    using releaseLayer_spec [OF inv1] by blast
  have run: "layerStore_Release B r l = Some (res, l')" using k c has rel by (simp add: layerStore_Release_def)
  have "handle_ok l' q d" if q: "handle_ok l q d" and ne: "q \<noteq> r" for q d
  proof -
    obtain k' where k': "ro l (snd q) = Some k'" "fst q \<in> references k'" using q by (auto simp: handle_ok_def)
    have "snd q = snd r \<Longrightarrow> fst q \<noteq> fst r" using ne by (simp add: prod_eq_iff)
    with k' have "\<exists>k''. ro ?l (snd q) = Some k'' \<and> fst q \<in> references k''"
      by (cases "snd q = snd r") (simp_all add: updRo_def roLayer_deleteReference_def)
    with q have q1: "handle_ok ?l q d" by (simp add: handle_ok_def)
    have "released g ?l l'" using ok by (simp add: release_ok_def)
    from released_handle [OF inv1 this q1] show ?thesis .
  qed
  moreover have "ls_inv g l'" using ok by (simp add: release_ok_def)
  ultimately show ?thesis using run release_ok_no_panic [OF ok] by blast
qed

lemma Getter_laws:
  assumes inv: "ls_inv g l" and get: "layerGetter c l = (x, l')"
  shows "ls_inv g l'" and "handle_ok l q d \<Longrightarrow> handle_ok l' q d"
    and "x = Inr h \<Longrightarrow> handle_ok l' h c" and "x = Inr h \<Longrightarrow> \<not> handle_ok l h d"
proof -
  have "ls_inv g l' \<and> (handle_ok l q d \<longrightarrow> handle_ok l' q d) \<and> (x = Inr h \<longrightarrow> handle_ok l' h c \<and> \<not> handle_ok l h d)"
    using get
  proof (cases rule: layerGetter_cases)
    case missing
    with inv show ?thesis by simp
  next
    case (found a)
    have old: "handle_ok l' q d" if hold: "handle_ok l q d"
    proof -
      obtain k where "ro l (snd q) = Some k" "fst q \<in> references k" using hold by (auto simp: handle_ok_def)
      then have "\<exists>k. ro l' (snd q) = Some k \<and> fst q \<in> references k"
        unfolding found(5) by (cases "snd q = a") (simp_all add: updRo_def)
      with hold found(4) show ?thesis by (simp add: handle_ok_def)
    qed
    have "a \<in> live l" using found(2) by (auto simp: live_def ran_def)
    then obtain k where k: "ro l a = Some k" using ls_inv_live [OF inv] by blast
    have new: "handle_ok l' (nextLoc l, a) c"
      using k found(2,4) unfolding found(5) by (simp add: handle_ok_def updRo_def)
    have fresh: "\<not> handle_ok l (nextLoc l, a) d"
    proof
      assume "handle_ok l (nextLoc l, a) d"
      then have "fst (nextLoc l, a) < nextLoc l" by (rule handle_ok_layer [OF inv])
      then show False by simp
    qed
    show ?thesis using Get_inv [OF inv found(3)] old new fresh found(1) by blast
  qed
  then show "ls_inv g l'" and "handle_ok l q d \<Longrightarrow> handle_ok l' q d"
    and "x = Inr h \<Longrightarrow> handle_ok l' h c" and "x = Inr h \<Longrightarrow> \<not> handle_ok l h d" by blast+
qed

lemma Release_laws:
  assumes inv: "ls_inv g l" and hold: "handle_ok l h c" and rel: "layerStore_Release B h l = Some (r, l')"
  shows "ls_inv g l'" and "handle_ok l q d \<Longrightarrow> q \<noteq> h \<Longrightarrow> handle_ok l' q d"
proof -
  obtain r1 l1 where one: "layerStore_Release B h l = Some (r1, l1)" "ls_inv g l1"
    "\<forall>q d. handle_ok l q d \<longrightarrow> q \<noteq> h \<longrightarrow> handle_ok l1 q d"
    using Release_handle [OF inv hold, of B] by blast
  then have "l' = l1" using rel by simp
  with one show "ls_inv g l'" "handle_ok l q d \<Longrightarrow> q \<noteq> h \<Longrightarrow> handle_ok l' q d" by blast+
qed

interpretation layerRel: layer_releaser layerGetter "layerStore_Release B" "ls_inv held" handle_ok
  for B :: "'w backend" and held :: "loc multiset"
proof (rule layer_releaser.intro, goal_cases)
  case (1 l c x l')
  then show ?case by (rule Getter_laws)
next
  case (2 l c h l')
  then show ?case by (rule Getter_laws) (rule refl)
next
  case (3 l c h l' d)
  then show ?case by (rule Getter_laws) (rule refl)
next
  case (4 l c x l' g d)
  then show ?case by (rule Getter_laws)
next
  case (5 l h c r l')
  then show ?case by (rule Release_laws)
next
  case (6 l h c r l' g d)
  then show ?case by (rule Release_laws)
next
  case (7 l h c)
  then show ?case using Release_handle by blast
qed

section \<open>Properties\<close>

definition emptyImages :: "fsStore \<Rightarrow> 'l \<Rightarrow> ('l, 'h) imageStore" where
  "emptyImages f l = \<lparr>images = fmempty, fs = f, digestSet = {||}, ls = l\<rparr>"

lemma emptyImages_ok:
  assumes "no_io f" and "metadata f = (\<lambda>_. Map.empty)"
  shows "is_inv E (emptyImages f l)"
  using assms by (simp add: is_inv_def is_base_def emptyImages_def known_def)

lemma history_inv: "(istep K known holds E)\<^sup>*\<^sup>* s s' \<Longrightarrow> is_inv E s \<Longrightarrow> is_inv E s'"
  by (induction rule: rtranclp_induct) (auto intro: istep_inv)

lemma opened_history:
  assumes "reachable B (cfg g k l0)" and "NewImageStore (layerEnv B dg un) f l0 = (None, s0)"
    and "fset (fmran (content f)) \<subseteq> K" and "inj_on dg K" and "(istep K C handle_ok (layerEnv B dg un))\<^sup>*\<^sup>* s0 s"
  shows "is_base (layerEnv B dg un) s" "ls_inv g (ls s)" "retains handle_ok (layerEnv B dg un) s"
proof -
  have "ls_inv g l0" using reachable_inv [OF assms(1)] by (simp add: cfg_inv_def)
  then have "layer_releaser.held (ls_inv g) handle_ok K (layerEnv B dg un) s0"
    using layerRel.opened_held [OF assms(2) _ _ assms(3)] by simp
  from layerRel.history_held [OF assms(5) _ _ _ this, of B] assms(4)
  show "is_base (layerEnv B dg un) s" "ls_inv g (ls s)" "retains handle_ok (layerEnv B dg un) s"
    by (simp_all add: layerRel.held_def)
qed

text \<open>The parent files name ids: those on disk when the store is opened, and those \<open>SetParent\<close> writes.\<close>

definition parentsOk :: "('l, 'h) imageStore \<Rightarrow> bool" where
  "parentsOk s \<longleftrightarrow> (\<forall>i p. parentFile s i = Some p \<longrightarrow> p = [] \<or> hasSep p)"

lemma soft_parents: "soft s s' \<Longrightarrow> is_base E s \<Longrightarrow> parentsOk s \<Longrightarrow> parentsOk s'"
  unfolding soft_def parentsOk_def using is_baseD(3) [of E s] by blast

lemma Create_parents: "imageStore_Create E config s = (r, s') \<Longrightarrow> parentsOk s \<Longrightarrow> parentsOk s'"
proof (erule Create_cases)
  assume "same_store s s'" "parentsOk s"
  then show "parentsOk s'" by (simp add: parentsOk_def same_store_sel(2))
next
  fix s1 img
  assume ok: "parentsOk s" and meta: "metadata (fs s1) = metadata (fs s)"
    and new: "known s (digestBytes E config) \<longrightarrow> s' = s1 \<and> r = IOk (digestBytes E config)"
      "\<not> known s (digestBytes E config) \<longrightarrow> (\<exists>g s2. getLayer E (chainOf E config) s1 = (g, s2) \<and>
         (s' = s2 \<and> (\<forall>i. r \<noteq> IOk i) \<or>
          Digest_Validate (digestBytes E config) = None \<and> r = IOk (digestBytes E config) \<and>
          (\<exists>h. g = Inr h \<and> s' = s2\<lparr>images := fmupd (digestBytes E config) \<lparr>metaLayer = h, metaChildren = {||}\<rparr> (images s2),
             digestSet := finsert (digestBytes E config) (digestSet s2)\<rparr>)))"
  have "fs s' = fs s1" using new getLayer_sel by (cases "known s (digestBytes E config)") fastforce+
  with ok meta show "parentsOk s'" by (simp add: parentsOk_def parentFile_def)
qed

lemma Delete_parents:
  assumes "is_base E s" and "imageStore_Delete E i s = Some (r, s')" and "parentsOk s"
  shows "parentsOk s'"
proof (cases "fmlookup (images s) i")
  case None
  with assms show ?thesis by (simp add: imageStore_Delete_def)
next
  case (Some m)
  have "fs s' = fs (forget E i m s)" using assms(2) unfolding Delete_forget [OF assms(1) Some] by (auto split: option.splits)
  then have "parentFile s' = parentFile (forget E i m s)" by (simp add: parentFile_def fun_eq_iff)
  then show ?thesis using assms(3) is_baseD(3) [OF assms(1)] forget_shrinks(2) [of E i m s] unfolding parentsOk_def by metis
qed

lemma istep_parents: "istep K C holds E s s' \<Longrightarrow> is_base E s \<Longrightarrow> parentsOk s \<Longrightarrow> is_base E s' \<and> parentsOk s'"
proof (induction rule: istep.induct)
  case (create config s r s')
  then show ?case using Create_base Create_parents by blast
next
  case (set_parent i p s e s')
  then show ?case using SetParent_soft(1) soft_base soft_parents by blast
next
  case (delete i s res s')
  show ?case
  proof (cases rule: Delete_layers [OF delete(2,1)])
    case 1
    then show ?thesis using delete by simp
  qed (use Delete_parents [OF delete(2,1,3)] in simp_all)
qed (simp_all add: parentsOk_def parentFile_def)

lemma history_parents: "(istep K C holds E)\<^sup>*\<^sup>* s s' \<Longrightarrow> is_base E s \<Longrightarrow> parentsOk s \<Longrightarrow> parentsOk s'"
proof -
  assume "(istep K C holds E)\<^sup>*\<^sup>* s s'" "is_base E s" "parentsOk s"
  then have "is_base E s' \<and> parentsOk s'" by (induction rule: rtranclp_induct) (use istep_parents in blast)+
  then show ?thesis ..
qed

lemma restoreImages_files: "restoreImages E is s = (x, s') \<Longrightarrow> same_files (fs s) (fs s')"
proof (induction "is" arbitrary: s)
  case Nil
  then show ?case by (simp add: same_files_def)
next
  case (Cons i "is")
  obtain y s1 where g: "imageStore_Get E i s = (y, s1)" by (rule prod.exhaust)
  have same: "same_files (fs s) (fs s1)" using Get_same [of s E i] g by (simp add: same_store_def)
  have "same_files (fs s1) (fs s')"
  proof (cases y)
    case (Inl e)
    with Cons g show ?thesis by (cases e) (auto simp: same_files_def)
  next
    case (Inr img)
    obtain z s2 where l: "getLayer E (RootFS_ChainID (digestBytes E) (the (imgDiffIDs img))) s1 = (z, s2)" by (rule prod.exhaust)
    have "fs s2 = fs s1" using getLayer_sel [OF l] by auto
    with Cons.prems Cons.IH show ?thesis
      by (auto simp: g Inr l digestSet_Add_def same_files_def split: sum.splits option.splits)
  qed
  with same show ?case by (simp add: same_files_def)
qed

lemma restoreChildren_files: "restoreChildren E is s = (x, s') \<Longrightarrow> same_files (fs s) (fs s')"
proof (induction "is" arbitrary: s)
  case Nil
  then show ?case by (simp add: same_files_def)
next
  case (Cons i "is")
  obtain y s1 where g: "imageStore_GetParent E i s = (y, s1)" by (rule prod.exhaust)
  have same: "same_files (fs s) (fs s1)" using GetParent_same [of s E i] g by (simp add: same_store_def)
  have "same_files (fs s1) (fs s')"
  proof (cases y)
    case (Inl e)
    with Cons g show ?thesis by (cases e) (auto simp: same_files_def)
  next
    case (Inr p)
    with Cons.prems show ?thesis
      by (cases "fmlookup (images s1) p") (auto simp: g dest: Cons.IH)
  qed
  with same show ?case by (simp add: same_files_def)
qed

lemma opened_parents:
  assumes "NewImageStore E f l0 = (None, s)" and "\<And>i p. metadata f i ''parent'' = Some p \<Longrightarrow> p = [] \<or> hasSep p"
  shows "parentsOk s"
proof -
  let ?s0 = "\<lparr>images = fmempty, fs = snd (fs_io f), digestSet = {||}, ls = l0\<rparr>"
  obtain s1 where s1: "restoreImages E (fs_WalkIDs (snd (fs_io f))) ?s0 = (None, s1)"
    and run: "restoreChildren E (sorted_list_of_fset (fmdom (images s1))) s1 = (None, s)"
    using assms(1) unfolding NewImageStore_def imageStore_restore_def withFs_def
    by (auto split: prod.splits option.splits)
  have "metadata (fs s1) = metadata f" using restoreImages_files [OF s1] fs_reads(1) [of f] by (simp add: same_files_def)
  moreover have "metadata (fs s) = metadata (fs s1)"
    using restoreChildren_files [OF run] by (simp add: same_files_def)
  ultimately show ?thesis using assms(2) by (auto simp: parentsOk_def parentFile_def)
qed

text \<open>
  C3: The image store keeps its layers, whatever file operations fail.  Let the store be opened
  on any files and any reachable layer store, and let any history of \<open>Create\<close>, \<open>SetParent\<close> and
  \<open>Delete\<close> calls follow, interleaved with other users of the layer store who get layers and
  release their own handles; the configurations on disk and those created have different
  digests.  Then reading an image that the store knows returns its configuration unless the
  read itself fails, the layer chain that the configuration names is in the layer map and
  retained by a handle, and deleting the image returns without panic.
\<close>

theorem images_keep_layers:
  assumes "reachable B (cfg g k l0)" and "NewImageStore (layerEnv B dg un) f l0 = (None, s0)"
    and "fset (fmran (content f)) \<subseteq> K" and "inj_on dg K"
    and "(istep K anyChild handle_ok (layerEnv B dg un))\<^sup>*\<^sup>* s0 s" and "known s i"
  shows "(case fst (imageStore_Get (layerEnv B dg un) i s) of
            Inl x \<Rightarrow> \<exists>e. x = FsErr e \<and> ioErr (fs s) (ioCount (fs s)) = Some e
          | Inr img \<Rightarrow> imgDiffIDs img \<noteq> None) \<and>
         (\<exists>c img. contentOf dg (fs s) i = Some c \<and> NewFromJSON (layerEnv B dg un) c = Inr img \<and>
            (RootFS_ChainID dg (the (imgDiffIDs img)) = [] \<or>
             (\<exists>h. handle_ok (ls s) h (RootFS_ChainID dg (the (imgDiffIDs img)))))) \<and>
         (\<exists>r s'. imageStore_Delete (layerEnv B dg un) i s = Some (Inr r, s') \<and> no_panic r)"
proof -
  let ?E = "layerEnv B dg un"
  note inv = opened_history [OF assms(1-5)]
  obtain c img where c: "contentOf dg (fs s) i = Some c" "NewFromJSON ?E c = Inr img"
    using is_base_json [OF inv(1) assms(6)] by auto
  obtain x where x: "layersOf s i = Some x" using assms(6) by (auto simp: known_layersOf)
  have ch: "chainOf ?E c = RootFS_ChainID dg (the (imgDiffIDs img))" using c by (simp add: chainOf_def)
  have "case x of None \<Rightarrow> chainOf ?E c = [] | Some h \<Rightarrow> handle_ok (ls s) h (chainOf ?E c)"
    using inv(3) x c(1) by (fastforce simp: retains_def)
  then have layer: "chainOf ?E c = [] \<or> (\<exists>h. handle_ok (ls s) h (chainOf ?E c))" by (cases x) auto
  have ids: "imgDiffIDs img0 \<noteq> None" if "NewFromJSON ?E d = Inr img0" for d img0
    using that by (auto simp: NewFromJSON_def split: sum.splits if_splits)
  have "case fst (imageStore_Get ?E i s) of
      Inl x \<Rightarrow> \<exists>e. x = FsErr e \<and> ioErr (fs s) (ioCount (fs s)) = Some e | Inr img \<Rightarrow> imgDiffIDs img \<noteq> None"
    using Get_result(3) [of ?E s i c img] Get_result(2) [of ?E i s] c ids by (auto split: sum.split)
  moreover have "\<exists>r s'. imageStore_Delete ?E i s = Some (Inr r, s') \<and> no_panic r"
    using layerRel.Delete_returns [OF _ inv, of B i] assms(6) by auto
  ultimately show ?thesis using c layer by (auto simp: ch)
qed

text \<open>A small image: its configuration is the text of its diff id.\<close>

definition noFiles :: fsStore where
  "noFiles = \<lparr>content = fmempty, metadata = \<lambda>_. Map.empty, ioErr = \<lambda>_. None, ioCount = 0\<rparr>"

definition demoDigest :: "bytes \<Rightarrow> string" where
  "demoDigest b = (if b = ''c'' then ''sha256:'' @ replicate 64 CHR ''a'' else ''sha256:'' @ replicate 64 CHR ''b'')"

definition demoImage :: "bytes \<Rightarrow> string + Image" where
  "demoImage b = Inr \<lparr>imgDiffIDs = Some (if b = ''c'' then [''#A''] else []), imgHistory = [], rawJSON = [], computedID = [], imgParent = []\<rparr>"

abbreviation demoEnv :: "(nat layerStore, layerRef) imageEnv" where
  "demoEnv \<equiv> layerEnv demoB demoDigest demoImage"

lemma demo_digest_valid: "Digest_Validate (demoDigest b) = None"
  unfolding demoDigest_def by (cases "b = ''c''") (simp_all, code_simp+)

lemma demo_open: "\<exists>s. NewImageStore demoEnv noFiles demoStore = (None, s) \<and> images s = fmempty \<and> fs s = noFiles\<lparr>ioCount := 1\<rparr> \<and>
    digestSet s = {||} \<and> ls s = demoStore"
proof -
  have none: "sorted_list_of_fset ({||} :: string fset) = []" by (simp add: sorted_list_of_fset.rep_eq)
  show ?thesis by (simp add: NewImageStore_def imageStore_restore_def withFs_def fs_io_def noFiles_def fs_WalkIDs_def none)
qed

lemma demo_create:
  assumes "images s0 = fmempty" and "content (fs s0) = fmempty" and "no_io (fs s0)" and "digestSet s0 = {||}" and "ls s0 = demoStore"
  shows "\<exists>s. imageStore_Create demoEnv ''c'' s0 = (IOk (demoDigest ''c''), s) \<and>
       known s (demoDigest ''c'') \<and> fmdom (content (fs s)) = {|demoDigest ''c''|} \<and> imageStore_Children (demoDigest ''c'') s = {||}"
proof -
  have sep: "contentFile (demoDigest ''c'') \<noteq> None" using valid_hasSep [OF demo_digest_valid] by simp
  show ?thesis
    using assms demo_digest_valid [of "''c''"] sep
    by (simp add: imageStore_Create_def demoImage_def withFs_def fs_Set_def fs_io_def no_io_def
        RootFS_ChainID_def CreateChainID_def getLayer_def layerGetter_def layerStore_Get_def layerStore_getWithoutLock_def demoStore_def
        roLayer_getReference_def Let_def digestSet_Add_def known_def imageStore_Children_def imageStore_children_def del: path_iff)
qed

lemma noFiles_ok [simp]: "no_io noFiles" "metadata noFiles = (\<lambda>_. Map.empty)" "content noFiles = fmempty"
  by (simp_all add: noFiles_def no_io_def)

lemma image_run:
  obtains s where "imageStore_Create demoEnv ''c'' (emptyImages noFiles demoStore) = (IOk (demoDigest ''c''), s)"
    "known s (demoDigest ''c'')" "fmdom (content (fs s)) = {|demoDigest ''c''|}" "imageStore_Children (demoDigest ''c'') s = {||}"
    "\<And>K. ''c'' \<in> K \<Longrightarrow> (istep K known handle_ok demoEnv)\<^sup>*\<^sup>* (emptyImages noFiles demoStore) s"
proof -
  obtain s where s: "imageStore_Create demoEnv ''c'' (emptyImages noFiles demoStore) = (IOk (demoDigest ''c''), s)"
    "known s (demoDigest ''c'')" "fmdom (content (fs s)) = {|demoDigest ''c''|}" "imageStore_Children (demoDigest ''c'') s = {||}"
    using demo_create [of "emptyImages noFiles demoStore"] by (auto simp: emptyImages_def)
  moreover have "(istep K known handle_ok demoEnv)\<^sup>*\<^sup>* (emptyImages noFiles demoStore) s" if "''c'' \<in> K" for K
    by (rule r_into_rtranclp, rule istep.create [OF s(1)]) (rule that)
  ultimately show thesis by (rule that)
qed

lemma demo_opened:
  obtains s0 s where "NewImageStore demoEnv noFiles demoStore = (None, s0)" "(istep {''c''} anyChild handle_ok demoEnv)\<^sup>*\<^sup>* s0 s"
    "known s (demoDigest ''c'')" "imageStore_Children (demoDigest ''c'') s = {||}"
proof -
  obtain s0 where s0: "NewImageStore demoEnv noFiles demoStore = (None, s0)" "images s0 = fmempty" "fs s0 = noFiles\<lparr>ioCount := 1\<rparr>"
    "digestSet s0 = {||}" "ls s0 = demoStore" using demo_open by blast
  obtain s where s: "imageStore_Create demoEnv ''c'' s0 = (IOk (demoDigest ''c''), s)" "known s (demoDigest ''c'')"
    "imageStore_Children (demoDigest ''c'') s = {||}"
    using demo_create [of s0] s0 by (auto simp: noFiles_def no_io_def)
  have "(istep {''c''} anyChild handle_ok demoEnv)\<^sup>*\<^sup>* s0 s"
    by (rule r_into_rtranclp, rule istep.create [OF s(1)]) simp
  with s0(1) s show thesis by (intro that)
qed

theorem images_keep_layers_witness:
  "\<exists>s0 s. NewImageStore demoEnv noFiles demoStore = (None, s0) \<and> (istep {''c''} anyChild handle_ok demoEnv)\<^sup>*\<^sup>* s0 s \<and>
     known s (demoDigest ''c'') \<and>
     (\<exists>r s'. imageStore_Delete demoEnv (demoDigest ''c'') s = Some (Inr r, s') \<and> no_panic r)"
proof -
  obtain s0 s where s: "NewImageStore demoEnv noFiles demoStore = (None, s0)" "(istep {''c''} anyChild handle_ok demoEnv)\<^sup>*\<^sup>* s0 s"
    "known s (demoDigest ''c'')" by (rule demo_opened)
  have "fset (fmran (content noFiles)) \<subseteq> {''c''}" "inj_on demoDigest {''c''}" by simp_all
  from images_keep_layers [OF demo_reachable s(1) this s(2,3)] s show ?thesis by blast
qed

lemma tree_children:
  assumes inv: "is_inv E s"
  shows "c |\<in>| imageStore_Children p s \<longleftrightarrow> known s c \<and> parentFile s c = Some p"
proof (cases "fmlookup (images s) p")
  case None
  then show ?thesis using is_invD(5) [OF inv, of c p] by (auto simp: imageStore_Children_def imageStore_children_def known_iff)
next
  case (Some m)
  then show ?thesis using is_invD(7) [OF inv Some] by (simp add: imageStore_Children_def imageStore_children_def)
qed





section \<open>Failures\<close>

lemma restoreImages_missing:
  assumes "i \<in> set is" and "no_io (fs s)" and "contentOf (digestBytes E) (fs s) i = Some c" and "NewFromJSON E c = Inr img"
    and "chainOf E c \<noteq> []" and "P (ls s)"
    and P: "\<And>d l x l'. P l \<Longrightarrow> lsGet E d l = (x, l') \<Longrightarrow> P l'"
    and missing: "\<And>l. P l \<Longrightarrow> \<exists>e l'. lsGet E (chainOf E c) l = (Inl e, l')"
  shows "\<exists>e s'. restoreImages E is s = (Some e, s')"
  using assms(1,2,3,6)
proof (induction "is" arbitrary: s)
  case (Cons j "is")
  obtain x s1 where g: "imageStore_Get E j s = (x, s1)" by (rule prod.exhaust)
  have same: "same_store s s1" using Get_same [of s E j] g by simp
  note sel = same_store_sel [OF same]
  have P1: "P (ls s1)" using sel(4) Cons.prems(4) by simp
  have step: "\<exists>e s'. restoreImages E is t = (Some e, s')"
    if "i \<noteq> j" and t: "fs t = fs s1" "P (ls t)" for t
    using Cons.IH [of t] Cons.prems that sel(8,11) by simp
  show ?case
  proof (cases "i = j")
    case True
    have "x = Inr (img\<lparr>computedID := i, imgParent := (case parentFile s i of None \<Rightarrow> [] | Some p \<Rightarrow> p)\<rparr>)"
      using Get_spec [OF Cons.prems(2,3) assms(4)] g True by (metis (no_types) prod.inject)
    moreover obtain e l' where "lsGet E (chainOf E c) (ls s1) = (Inl e, l')"
      using missing [OF P1] by blast
    moreover have "RootFS_ChainID (digestBytes E) (the (imgDiffIDs img)) = chainOf E c" using assms(4) by (simp add: chainOf_def)
    ultimately show ?thesis using assms(5) by (simp add: g getLayer_def)
  next
    case False
    show ?thesis
    proof (cases x)
      case (Inl e)
      with step [OF False _ P1] show ?thesis by (cases e) (simp_all add: g)
    next
      case (Inr im)
      obtain y s2 where l: "getLayer E (RootFS_ChainID (digestBytes E) (the (imgDiffIDs im))) s1 = (y, s2)" by (rule prod.exhaust)
      have "fs s2 = fs s1" "P (ls s2)"
        using l P1 P by (auto simp: getLayer_def split: if_splits prod.splits sum.splits)
      with step [OF False] Inr show ?thesis
        by (auto simp: g l digestSet_Add_def split: sum.split option.split)
    qed
  qed
qed simp

text \<open>
  C38: A failed \<open>Create\<close> can keep the daemon from starting.  When the layer chain that a new
  configuration names is not in the layer store, \<open>Create\<close> returns the error but leaves the
  configuration file behind; as long as the layer is missing, opening the store on these files
  fails, and with it every image is lost to the daemon.  File operations succeed here.
\<close>

theorem failed_create_blocks_restart:
  assumes "is_inv (layerEnv B dg un) s" and "un config = Inr img" and "imgDiffIDs img = Some ds"
    and "length (filter Not (imgHistory img)) \<le> length ds" and "config \<noteq> []"
    and "Digest_Validate (dg config) = None" and "\<not> known s (dg config)"
    and "RootFS_ChainID dg ds \<noteq> []" and "layerMap (ls s) (RootFS_ChainID dg ds) = None"
  shows "\<exists>e s'. imageStore_Create (layerEnv B dg un) config s = (IErr e, s') \<and> images s' = images s \<and> ls s' = ls s \<and>
           (\<exists>e2 s2. NewImageStore (layerEnv B dg un) (fs s') (ls s') = (Some e2, s2))"
proof -
  let ?E = "layerEnv B dg un"
  have json: "NewFromJSON ?E config = Inr (img\<lparr>rawJSON := config\<rparr>)" using assms by (simp add: NewFromJSON_def)
  have chain: "chainOf ?E config = RootFS_ChainID dg ds" using assms json by (simp add: chainOf_def)
  note io = is_invD(1) [OF assms(1)]
  have sep: "hasSep (dg config)" by (rule valid_hasSep [OF assms(6)])
  obtain s1 where set: "withFs (fs_Set dg config) s = (Inr (dg config), s1)"
    and s1: "content (fs s1) = fmupd (dg config) config (content (fs s))" "no_io (fs s1)" "images s1 = images s" "ls s1 = ls s"
    using io sep assms(5) by (simp add: withFs_def fs_Set_def fs_io_def no_io_def)
  have none: "layerGetter (RootFS_ChainID dg ds) (ls s) = (Inl ''layer does not exist'', ls s)"
    using assms(9) by (simp add: layerGetter_def layerStore_Get_def layerStore_getWithoutLock_def)
  have "imageStore_Create ?E config s = (IErr ''layer does not exist'', s1\<lparr>ls := ls s\<rparr>)"
    unfolding imageStore_Create_def layerEnv_sel set using assms none s1(3,4) by (simp add: getLayer_def known_iff)
  moreover have "\<exists>e s'. NewImageStore ?E (fs s1) (ls s) = (Some e, s')"
  proof -
    let ?f = "snd (fs_io (fs s1))" and ?s0 = "\<lparr>images = fmempty, fs = snd (fs_io (fs s1)), digestSet = {||}, ls = ls s\<rparr>"
    have f: "content ?f = content (fs s1)" "no_io ?f" using fs_reads(1) [of "fs s1"] s1(2) by (simp_all add: same_files_def no_io_def)
    have i: "dg config \<in> set (fs_WalkIDs ?f)" using assms(6) f s1 by (simp add: fs_WalkIDs_def sorted_list_of_fset_simps)
    have "\<exists>e s'. restoreImages ?E (fs_WalkIDs ?f) ?s0 = (Some e, s')"
    proof (rule restoreImages_missing [OF i, where P = "\<lambda>l. layerMap l = layerMap (ls s)"])
      show "\<exists>e l'. lsGet ?E (chainOf ?E config) l = (Inl e, l')" if "layerMap l = layerMap (ls s)" for l
        using that assms(9) by (simp add: chain layerGetter_def layerStore_Get_def layerStore_getWithoutLock_def)
      show "layerMap l' = layerMap (ls s)" if "layerMap l = layerMap (ls s)" "lsGet ?E d l = (x, l')" for d l x l'
        using that(2) that(1) unfolding layerEnv_sel by (cases rule: layerGetter_cases) simp_all
    qed (use f s1 json chain assms(8) sep in \<open>simp_all add: contentOf_def\<close>)
    then show ?thesis
      using fs_io_ok [OF s1(2)] unfolding NewImageStore_def imageStore_restore_def withFs_def by (cases "fs_io (fs s1)") auto
  qed
  ultimately show ?thesis using s1 by simp
qed

theorem failed_create_blocks_restart_witness:
  "\<exists>e s'. imageStore_Create demoEnv ''c'' (emptyImages noFiles (emptyStore 0)) = (IErr e, s') \<and>
     (\<exists>e2 s2. NewImageStore demoEnv (fs s') (ls s') = (Some e2, s2))"
proof -
  have "is_inv demoEnv (emptyImages noFiles (emptyStore 0))" by (rule emptyImages_ok) simp_all
  from failed_create_blocks_restart [OF this, of "''c''" _ "[''#A'']"] demo_digest_valid [of "''c''"] show ?thesis
    by (auto simp: demoImage_def emptyImages_def emptyStore_def known_def RootFS_ChainID_def CreateChainID_def)
qed

text \<open>
  \<open>SetParent\<close> for an image that has no file fails, but records it as a child all the same:
  afterwards \<open>Children\<close> of the parent lists an unknown image, and the parent is no longer
  among the \<open>Heads\<close>.
\<close>

lemma set_parent_leaves_phantom_child:
  assumes "is_inv E s" and "known s p" and "fmlookup (content (fs s)) i = None"
    and "hasSep i" and "imageStore_SetParent E i p s = (e, s')"
  shows "e \<noteq> None \<and> i |\<in>| imageStore_Children p s' \<and> \<not> known s' i"
proof -
  have none: "contentOf (digestBytes E) (fs s) i = None" using assms(3) by (simp add: contentOf_def)
  have unknown: "\<not> known s i" using is_invD(4) [OF assms(1)] none by blast
  obtain x s1 where g: "imageStore_GetParent E i s = (x, s1)" by (rule prod.exhaust)
  have same: "same_store s s1" using GetParent_same [of s E i] g by simp
  have "x = fst (fs_GetMetadata (digestBytes E) i ''parent'' (fs s))"
    using g withFs_sel(5) [of "fs_GetMetadata (digestBytes E) i ''parent''" s] by (simp add: imageStore_GetParent_def)
  then obtain e0 where "x = Inl (FsErr e0)"
    using assms(3,4) by (auto simp: fs_GetMetadata_def fs_get_def fs_io_def split: option.splits)
  then have drop: "dropFromParent E i s = (False, s1)" by (simp add: dropFromParent_def g)
  obtain m where m: "fmlookup (images s) p = Some m" using assms(2) by (auto simp: known_iff)
  have s1: "images s1 = images s" "fmlookup (content (fs s1)) i = None" using same_store_sel [OF same] assms(3) by simp_all
  let ?s2 = "s1\<lparr>images := fmupd p (m\<lparr>metaChildren := finsert i (metaChildren m)\<rparr>) (images s)\<rparr>"
  have run: "withFs (fs_SetMetadata (digestBytes E) i ''parent'' p) ?s2 = (e, s')"
    using assms(5) m s1(1) by (simp add: imageStore_SetParent_def drop)
  have "e = fst (fs_SetMetadata (digestBytes E) i ''parent'' p (fs ?s2))" "images s' = images ?s2"
    using run withFs_sel(5,1) [of "fs_SetMetadata (digestBytes E) i ''parent'' p" ?s2] by simp_all
  moreover have "fst (fs_SetMetadata (digestBytes E) i ''parent'' p (fs ?s2)) \<noteq> None"
    using s1(2) by (simp add: fs_SetMetadata_def fs_get_def fs_io_def split: option.split)
  ultimately show ?thesis
    using unknown m by (auto simp: imageStore_Children_def imageStore_children_def known_iff)
qed


end
