(* ===== verification/Locker.thy ===== *)
theory Locker
  imports Docker_Prelude "HOL-Library.Word"
begin

text \<open>
  Locks by name: \<^verbatim>\<open>src/pkg/locker/locker.go\<close>.

  \<open>Locker.Lock\<close> is three atomic actions: the section under the locker's own mutex, which
  finds or creates the counter and counts the caller as a waiter, the acquisition of the named
  mutex, which may have to wait, and the decrement of the waiters.  \<open>Locker.Unlock\<close> is one
  section.  The relation \<open>kstep\<close> interleaves these actions of any number of calls; the
  counter of waiters is a 32-bit word, as in the code.  A nil map and an empty one are the same
  map; unlocking an unlocked mutex is Go's fatal error.
\<close>

section \<open>The code\<close>

record lockCtr =
  lmu :: bool
  waiters :: "32 word"

record Locker =
  locks :: "string \<rightharpoonup> loc"
  ctrs :: "loc \<Rightarrow> lockCtr"
  lnext :: loc

definition lockCtr_inc :: "lockCtr \<Rightarrow> lockCtr" where
  "lockCtr_inc l = l\<lparr>waiters := waiters l + 1\<rparr>"

definition lockCtr_dec :: "lockCtr \<Rightarrow> lockCtr" where
  "lockCtr_dec l = l\<lparr>waiters := waiters l - 1\<rparr>"

definition lockCtr_count :: "lockCtr \<Rightarrow> 32 word" where
  "lockCtr_count l = waiters l"

text \<open>\<open>None\<close>: the caller has to wait.\<close>

definition lockCtr_Lock :: "lockCtr \<Rightarrow> lockCtr option" where
  "lockCtr_Lock l = (if lmu l then None else Some (l\<lparr>lmu := True\<rparr>))"

text \<open>\<open>None\<close>: fatal error, unlock of unlocked mutex.\<close>

definition lockCtr_Unlock :: "lockCtr \<Rightarrow> lockCtr option" where
  "lockCtr_Unlock l = (if lmu l then Some (l\<lparr>lmu := False\<rparr>) else None)"

definition newLocker :: Locker where
  "newLocker = \<lparr>locks = Map.empty, ctrs = \<lambda>_. \<lparr>lmu = False, waiters = 0\<rparr>, lnext = 0\<rparr>"

text \<open>The section of \<open>Lock\<close> under the locker's mutex; it returns the address of the counter.\<close>

definition Locker_Lock_enter :: "string \<Rightarrow> Locker \<Rightarrow> loc \<times> Locker" where
  "Locker_Lock_enter name s =
     (case locks s name of
        Some a \<Rightarrow> (a, s\<lparr>ctrs := (ctrs s)(a := lockCtr_inc (ctrs s a))\<rparr>)
      | None \<Rightarrow>
          (let a = lnext s
           in (a, s\<lparr>locks := (locks s)(name \<mapsto> a), lnext := a + 1,
                    ctrs := (ctrs s)(a := lockCtr_inc \<lparr>lmu = False, waiters = 0\<rparr>)\<rparr>)))"

definition Locker_Lock_acquire :: "loc \<Rightarrow> Locker \<Rightarrow> Locker option" where
  "Locker_Lock_acquire a s =
     (case lockCtr_Lock (ctrs s a) of None \<Rightarrow> None | Some l \<Rightarrow> Some (s\<lparr>ctrs := (ctrs s)(a := l)\<rparr>))"

definition Locker_Lock_leave :: "loc \<Rightarrow> Locker \<Rightarrow> Locker" where
  "Locker_Lock_leave a s = s\<lparr>ctrs := (ctrs s)(a := lockCtr_dec (ctrs s a))\<rparr>"

datatype unlockResult = Unlocked | ErrNoSuchLock | FatalUnlock

definition Locker_Unlock :: "string \<Rightarrow> Locker \<Rightarrow> unlockResult \<times> Locker" where
  "Locker_Unlock name s =
     (case locks s name of
        None \<Rightarrow> (ErrNoSuchLock, s)
      | Some a \<Rightarrow>
          (let s1 = (if lockCtr_count (ctrs s a) = 0 then s\<lparr>locks := (locks s)(name := None)\<rparr> else s)
           in case lockCtr_Unlock (ctrs s a) of
                None \<Rightarrow> (FatalUnlock, s1)
              | Some l \<Rightarrow> (Unlocked, s1\<lparr>ctrs := (ctrs s1)(a := l)\<rparr>)))"

section \<open>Calls in flight\<close>

text \<open>
  A call is idle, counted as a waiter, past the named mutex but still counted, or holds the
  lock.  The bound on the calls in flight is what the width of the counter asks for; a call
  unlocks a name only when it holds it.
\<close>

datatype callState = Idle | Waiting string loc | Acquired string loc | Holding string loc

record 't kcfg =
  calls :: "'t \<Rightarrow> callState"
  locker :: Locker

definition busy :: "'t kcfg \<Rightarrow> 't set" where
  "busy c = {t. calls c t \<noteq> Idle}"

inductive kstep :: "'t kcfg \<Rightarrow> 't kcfg \<Rightarrow> bool" where
  enter: "calls c t = Idle \<Longrightarrow> card (busy c) < 2 ^ 31 - 1 \<Longrightarrow> Locker_Lock_enter n (locker c) = (a, s) \<Longrightarrow>
    kstep c (c\<lparr>calls := (calls c)(t := Waiting n a), locker := s\<rparr>)"
| acquire: "calls c t = Waiting n a \<Longrightarrow> Locker_Lock_acquire a (locker c) = Some s \<Longrightarrow>
    kstep c (c\<lparr>calls := (calls c)(t := Acquired n a), locker := s\<rparr>)"
| leave: "calls c t = Acquired n a \<Longrightarrow>
    kstep c (c\<lparr>calls := (calls c)(t := Holding n a), locker := Locker_Lock_leave a (locker c)\<rparr>)"
| unlock: "calls c t = Holding n a \<Longrightarrow> Locker_Unlock n (locker c) = (r, s) \<Longrightarrow>
    kstep c (c\<lparr>calls := (calls c)(t := Idle), locker := s\<rparr>)"

definition kinit :: "'t kcfg" where
  "kinit = \<lparr>calls = \<lambda>_. Idle, locker = newLocker\<rparr>"

fun counted :: "loc \<Rightarrow> callState \<Rightarrow> bool" where
  "counted a (Waiting n b) = (b = a)"
| "counted a (Acquired n b) = (b = a)"
| "counted a _ = False"

fun owns :: "loc \<Rightarrow> callState \<Rightarrow> bool" where
  "owns a (Acquired n b) = (b = a)"
| "owns a (Holding n b) = (b = a)"
| "owns a _ = False"

fun uses :: "string \<Rightarrow> loc \<Rightarrow> callState \<Rightarrow> bool" where
  "uses m a Idle = False"
| "uses m a (Waiting n b) = (n = m \<and> b = a)"
| "uses m a (Acquired n b) = (n = m \<and> b = a)"
| "uses m a (Holding n b) = (n = m \<and> b = a)"

definition waiting :: "('t \<Rightarrow> callState) \<Rightarrow> loc \<Rightarrow> 't set" where
  "waiting f a = {t. counted a (f t)}"

definition owners :: "('t \<Rightarrow> callState) \<Rightarrow> loc \<Rightarrow> 't set" where
  "owners f a = {t. owns a (f t)}"

text \<open>
  The invariant: every name in use is in the map, and nothing else is; the counter counts the
  waiters; the mutex is locked by exactly one call or free.
\<close>

definition ctr_ok :: "'t set \<Rightarrow> 't set \<Rightarrow> lockCtr \<Rightarrow> bool" where
  "ctr_ok W H l \<longleftrightarrow> waiters l = word_of_nat (card W) \<and> (lmu l \<longleftrightarrow> H \<noteq> {}) \<and> (\<forall>t \<in> H. \<forall>u \<in> H. t = u)"

definition linv :: "('t \<Rightarrow> callState) \<Rightarrow> Locker \<Rightarrow> bool" where
  "linv f s \<longleftrightarrow>
     (\<forall>n a t. uses n a (f t) \<longrightarrow> locks s n = Some a) \<and>
     (\<forall>n a. locks s n = Some a \<longrightarrow>
        a < lnext s \<and> (\<exists>t. uses n a (f t)) \<and> ctr_ok (waiting f a) (owners f a) (ctrs s a)) \<and>
     (\<forall>n m a. locks s n = Some a \<longrightarrow> locks s m = Some a \<longrightarrow> n = m)"

definition kinv :: "'t kcfg \<Rightarrow> bool" where
  "kinv c \<longleftrightarrow> finite (busy c) \<and> card (busy c) < 2 ^ 31 \<and> linv (calls c) (locker c)"

lemma linvD:
  assumes "linv f s"
  shows "uses n a (f t) \<Longrightarrow> locks s n = Some a"
    and "locks s n = Some a \<Longrightarrow> a < lnext s" "locks s n = Some a \<Longrightarrow> \<exists>t. uses n a (f t)"
    and "locks s n = Some a \<Longrightarrow> ctr_ok (waiting f a) (owners f a) (ctrs s a)"
    and "locks s n = Some a \<Longrightarrow> locks s m = Some a \<Longrightarrow> n = m"
  using assms unfolding linv_def by blast+

lemma linvI:
  assumes "\<And>n a t. uses n a (f t) \<Longrightarrow> locks s n = Some a"
    and "\<And>n a. locks s n = Some a \<Longrightarrow> a < lnext s" "\<And>n a. locks s n = Some a \<Longrightarrow> \<exists>t. uses n a (f t)"
    and "\<And>n a. locks s n = Some a \<Longrightarrow> ctr_ok (waiting f a) (owners f a) (ctrs s a)"
    and "\<And>n m a. locks s n = Some a \<Longrightarrow> locks s m = Some a \<Longrightarrow> n = m"
  shows "linv f s"
  using assms unfolding linv_def by blast

text \<open>The sets of a counter, when one call changes its state.\<close>

lemma waiting_upd: "waiting (f(t := y)) a = (if counted a y then insert t (waiting f a) else waiting f a - {t})"
  by (auto simp: waiting_def)

lemma owners_upd: "owners (f(t := y)) a = (if owns a y then insert t (owners f a) else owners f a - {t})"
  by (auto simp: owners_def)

lemma waiting_fin: "finite {t. f t \<noteq> Idle} \<Longrightarrow> finite (waiting f a)"
  by (rule finite_subset [of _ "{t. f t \<noteq> Idle}"]) (auto simp: waiting_def)

lemma waiting_card: "finite {t. f t \<noteq> Idle} \<Longrightarrow> card (waiting f a) \<le> card {t. f t \<noteq> Idle}"
  by (rule card_mono) (auto simp: waiting_def)

lemma uses_counted: "counted a x \<Longrightarrow> \<exists>n. uses n a x" "owns a x \<Longrightarrow> \<exists>n. uses n a x"
  by (cases x; simp)+

text \<open>A call that changes its state with respect to one lock, leaving the map as it is.\<close>

lemma upd_other:
  assumes "f t = Idle \<or> uses n a (f t)" and "y = Idle \<or> uses n a y" and "b \<noteq> a"
  shows "waiting (f(t := y)) b = waiting f b" "owners (f(t := y)) b = owners f b"
  using assms by (cases "f t"; cases y; auto simp: waiting_def owners_def)+

lemma linv_move:
  assumes inv: "linv f s" and na: "locks s n = Some a" and t: "f t = Idle \<or> uses n a (f t)" and y: "y = Idle \<or> uses n a y"
    and used: "\<exists>u. uses n a ((f(t := y)) u)"
    and ctr: "ctr_ok (waiting (f(t := y)) a) (owners (f(t := y)) a) k"
  shows "linv (f(t := y)) (s\<lparr>ctrs := (ctrs s)(a := k)\<rparr>)"
proof (rule linvI)
  fix m b u
  assume "uses m b ((f(t := y)) u)"
  then show "locks (s\<lparr>ctrs := (ctrs s)(a := k)\<rparr>) m = Some b"
    using linvD(1) [OF inv, of m b u] y na by (cases y) (auto split: if_splits)
next
  fix m b
  assume "locks (s\<lparr>ctrs := (ctrs s)(a := k)\<rparr>) m = Some b"
  then have m: "locks s m = Some b" by simp
  then show "b < lnext (s\<lparr>ctrs := (ctrs s)(a := k)\<rparr>)" using linvD(2) [OF inv] by simp
  have same: "b = a \<Longrightarrow> m = n" using linvD(5) [OF inv] m na by simp
  show "\<exists>v. uses m b ((f(t := y)) v)"
  proof (cases "b = a")
    case True
    with same used show ?thesis by simp
  next
    case False
    obtain v where v: "uses m b (f v)" using linvD(3) [OF inv m] by blast
    with False t have "v \<noteq> t" by (cases "f t") auto
    with v show ?thesis by (intro exI [of _ v]) simp
  qed
  show "ctr_ok (waiting (f(t := y)) b) (owners (f(t := y)) b) (ctrs (s\<lparr>ctrs := (ctrs s)(a := k)\<rparr>) b)"
    using ctr linvD(4) [OF inv m] upd_other [where f = f and t = t and y = y, OF t y, of b] by (cases "b = a") simp_all
next
  fix m m' b
  assume "locks (s\<lparr>ctrs := (ctrs s)(a := k)\<rparr>) m = Some b" "locks (s\<lparr>ctrs := (ctrs s)(a := k)\<rparr>) m' = Some b"
  then show "m = m'" using linvD(5) [OF inv] by simp
qed

lemma linv_self:
  assumes "linv f s" and "locks s n = Some a" and "f t = Idle \<or> uses n a (f t)" and "uses n a y"
    and "ctr_ok (waiting (f(t := y)) a) (owners (f(t := y)) a) k"
  shows "linv (f(t := y)) (s\<lparr>ctrs := (ctrs s)(a := k)\<rparr>)"
proof (rule linv_move [OF assms(1,2,3) _ _ assms(5)])
  show "\<exists>u. uses n a ((f(t := y)) u)" using assms(4) by (intro exI [of _ t]) simp
qed (simp add: assms(4))

lemma linv_new:
  assumes inv: "linv f s" and n: "locks s n = None" and t: "f t = Idle"
  shows "linv (f(t := Waiting n (lnext s))) (snd (Locker_Lock_enter n s))"
proof (rule linvI)
  let ?a = "lnext s"
  let ?s = "snd (Locker_Lock_enter n s)" and ?f = "f(t := Waiting n (lnext s))"
  have locks': "locks ?s = (locks s)(n \<mapsto> ?a)" and next': "lnext ?s = ?a + 1"
    and ctrs': "ctrs ?s = (ctrs s)(?a := \<lparr>lmu = False, waiters = 1\<rparr>)"
    using n by (simp_all add: Locker_Lock_enter_def Let_def lockCtr_inc_def)
  have fresh: "\<not> uses m ?a (f u)" for m u using linvD(1,2) [OF inv] by blast
  have none: "waiting f ?a = {}" "owners f ?a = {}"
    using uses_counted fresh by (fastforce simp: waiting_def owners_def)+
  {
    fix m b u assume "uses m b (?f u)"
    then show "locks ?s m = Some b" using linvD(1) [OF inv, of m b u] n by (auto simp: locks' split: if_splits)
  next
    fix m b assume m: "locks ?s m = Some b"
    then have old: "m = n \<and> b = ?a \<or> m \<noteq> n \<and> locks s m = Some b" by (auto simp: locks' split: if_splits)
    then show "b < lnext ?s" using linvD(2) [OF inv, of m b] by (auto simp: next')
    show "\<exists>u. uses m b (?f u)"
      using old linvD(3) [OF inv, of m b] t by (metis fun_upd_apply uses.simps(1,2))
    have "m \<noteq> n \<Longrightarrow> b \<noteq> ?a" using old linvD(2) [OF inv, of m b] by auto
    moreover have "ctr_ok (waiting ?f ?a) (owners ?f ?a) (ctrs ?s ?a)"
      using none by (simp add: ctrs' waiting_upd owners_upd ctr_ok_def)
    ultimately show "ctr_ok (waiting ?f b) (owners ?f b) (ctrs ?s b)"
      using old linvD(4) [OF inv, of m b] upd_other [of f t n ?a "Waiting n ?a" b] t
      by (cases "b = ?a") (auto simp: ctrs')
  next
    fix m m' b assume "locks ?s m = Some b" "locks ?s m' = Some b"
    then show "m = m'" using linvD(2,5) [OF inv] by (fastforce simp: locks' split: if_splits)
  }
qed

lemma linv_drop:
  assumes inv: "linv f s" and na: "locks s n = Some a" and t: "uses n a (f t)"
    and only: "\<And>u. uses n a (f u) \<Longrightarrow> u = t"
  shows "linv (f(t := Idle)) (s\<lparr>locks := (locks s)(n := None), ctrs := (ctrs s)(a := k)\<rparr>)"
proof (rule linvI)
  let ?s = "s\<lparr>locks := (locks s)(n := None), ctrs := (ctrs s)(a := k)\<rparr>" and ?f = "f(t := Idle)"
  {
    fix m b u assume u: "uses m b (?f u)"
    then have "u \<noteq> t" "uses m b (f u)" by (auto split: if_splits)
    moreover have "m \<noteq> n" using calculation only [of u] linvD(1) [OF inv, of m b u] na by auto
    ultimately show "locks ?s m = Some b" using linvD(1) [OF inv] by simp
  next
    fix m b assume "locks ?s m = Some b"
    then have m: "m \<noteq> n" "locks s m = Some b" by (auto split: if_splits)
    have b: "b \<noteq> a" using linvD(5) [OF inv m(2)] na m(1) by auto
    show "b < lnext ?s" using linvD(2) [OF inv m(2)] by simp
    obtain u where u: "uses m b (f u)" using linvD(3) [OF inv m(2)] by blast
    with t b have "u \<noteq> t" by (cases "f t") auto
    with u show "\<exists>u. uses m b (?f u)" by (intro exI [of _ u]) simp
    show "ctr_ok (waiting ?f b) (owners ?f b) (ctrs ?s b)"
      using linvD(4) [OF inv m(2)] upd_other [of f t n a Idle b] t b by simp
  next
    fix m m' b assume "locks ?s m = Some b" "locks ?s m' = Some b"
    then show "m = m'" using linvD(5) [OF inv] by (auto split: if_splits)
  }
qed
section \<open>Every action keeps the invariant\<close>

lemma uses_cases: "uses n a x \<Longrightarrow> counted a x \<or> owns a x"
  by (cases x) auto

lemma busy_upd:
  "busy (c\<lparr>calls := (calls c)(t := y), locker := s\<rparr>) = (if y = Idle then busy c - {t} else insert t (busy c))"
  by (auto simp: busy_def)

lemma waiters_zero:
  assumes "ctr_ok (waiting f a) H l" and "finite {t. f t \<noteq> Idle}" and "card {t. f t \<noteq> Idle} < 2 ^ 31"
  shows "lockCtr_count l = 0 \<longleftrightarrow> waiting f a = {}"
proof -
  have "card (waiting f a) < 2 ^ 31" by (rule le_less_trans [OF waiting_card [OF assms(2)] assms(3)])
  then have "\<not> 2 ^ 32 dvd card (waiting f a)" if "card (waiting f a) \<noteq> 0" using that by (intro nat_dvd_not_less) simp_all
  then have "word_of_nat (card (waiting f a)) = (0 :: 32 word) \<longleftrightarrow> card (waiting f a) = 0"
    by (auto simp: word_of_nat_eq_0_iff)
  with assms waiting_fin [OF assms(2), of a] show ?thesis by (simp add: ctr_ok_def lockCtr_count_def)
qed

lemma enter_inv:
  assumes inv: "linv f s" and t: "f t = Idle" and fin: "finite {t. f t \<noteq> Idle}" and run: "Locker_Lock_enter n s = (a, s')"
  shows "linv (f(t := Waiting n a)) s'"
proof (cases "locks s n")
  case None
  then have "a = lnext s" using run by (simp add: Locker_Lock_enter_def Let_def)
  with linv_new [OF inv None t] run show ?thesis by simp
next
  case (Some b)
  then have s': "b = a" "s' = s\<lparr>ctrs := (ctrs s)(a := lockCtr_inc (ctrs s a))\<rparr>" using run by (auto simp: Locker_Lock_enter_def)
  have ok: "ctr_ok (waiting f a) (owners f a) (ctrs s a)" using linvD(4) [OF inv] Some s'(1) by simp
  have "t \<notin> waiting f a" "t \<notin> owners f a" using t by (simp_all add: waiting_def owners_def)
  with ok waiting_fin [OF fin, of a]
  have "ctr_ok (waiting (f(t := Waiting n a)) a) (owners (f(t := Waiting n a)) a) (lockCtr_inc (ctrs s a))"
    by (simp add: waiting_upd owners_upd ctr_ok_def lockCtr_inc_def)
  from linv_self [OF inv _ _ _ this, of n] Some t s' show ?thesis by simp
qed

lemma acquire_inv:
  assumes inv: "linv f s" and t: "f t = Waiting n a" and run: "Locker_Lock_acquire a s = Some s'"
  shows "linv (f(t := Acquired n a)) s'" and "owners f a = {}"
proof -
  have na: "locks s n = Some a" using linvD(1) [OF inv, of n a t] t by simp
  note ok = linvD(4) [OF inv na]
  have free: "\<not> lmu (ctrs s a)" and s': "s' = s\<lparr>ctrs := (ctrs s)(a := (ctrs s a)\<lparr>lmu := True\<rparr>)\<rparr>"
    using run by (auto simp: Locker_Lock_acquire_def lockCtr_Lock_def split: if_splits)
  then show none: "owners f a = {}" using ok by (simp add: ctr_ok_def)
  have "t \<in> waiting f a" using t by (simp add: waiting_def)
  with ok none have "ctr_ok (waiting (f(t := Acquired n a)) a) (owners (f(t := Acquired n a)) a) ((ctrs s a)\<lparr>lmu := True\<rparr>)"
    by (simp add: waiting_upd owners_upd ctr_ok_def insert_absorb)
  from linv_self [OF inv na _ _ this] t show "linv (f(t := Acquired n a)) s'" unfolding s' by simp
qed

lemma leave_inv:
  assumes inv: "linv f s" and t: "f t = Acquired n a" and fin: "finite {t. f t \<noteq> Idle}"
  shows "linv (f(t := Holding n a)) (Locker_Lock_leave a s)"
proof -
  have na: "locks s n = Some a" using linvD(1) [OF inv, of n a t] t by simp
  note ok = linvD(4) [OF inv na]
  have mem: "t \<in> waiting f a" "t \<in> owners f a" using t by (simp_all add: waiting_def owners_def)
  then have "Suc (card (waiting f a - {t})) = card (waiting f a)" by (intro card_Suc_Diff1 waiting_fin [OF fin])
  then have "word_of_nat (card (waiting f a)) - 1 = (word_of_nat (card (waiting f a - {t})) :: 32 word)"
    by (metis add_diff_cancel_left' of_nat_Suc)
  moreover have "waiting (f(t := Holding n a)) a = waiting f a - {t}" "owners (f(t := Holding n a)) a = owners f a"
    using mem by (auto simp: waiting_upd owners_upd)
  ultimately have "ctr_ok (waiting (f(t := Holding n a)) a) (owners (f(t := Holding n a)) a) (lockCtr_dec (ctrs s a))"
    using ok by (simp add: ctr_ok_def lockCtr_dec_def)
  from linv_self [OF inv na _ _ this] t show ?thesis unfolding Locker_Lock_leave_def by simp
qed

lemma unlock_inv:
  assumes inv: "linv f s" and t: "f t = Holding n a" and fin: "finite {t. f t \<noteq> Idle}" "card {t. f t \<noteq> Idle} < 2 ^ 31"
    and run: "Locker_Unlock n s = (r, s')"
  shows "linv (f(t := Idle)) s'" and "r = Unlocked"
proof -
  have na: "locks s n = Some a" using linvD(1) [OF inv, of n a t] t by simp
  note ok = linvD(4) [OF inv na]
  have mem: "t \<notin> waiting f a" "t \<in> owners f a" using t by (simp_all add: waiting_def owners_def)
  then have own: "owners f a = {t}" and locked: "lmu (ctrs s a)" using ok by (auto simp: ctr_ok_def)
  let ?k = "(ctrs s a)\<lparr>lmu := False\<rparr>"
  note zero = waiters_zero [OF ok fin]
  show "r = Unlocked" using run na locked by (simp add: Locker_Unlock_def lockCtr_Unlock_def Let_def)
  show "linv (f(t := Idle)) s'"
  proof (cases "waiting f a = {}")
    case True
    have only: "u = t" if "uses n a (f u)" for u
      using uses_cases [OF that] True own by (auto simp: waiting_def owners_def)
    have "s' = s\<lparr>locks := (locks s)(n := None), ctrs := (ctrs s)(a := ?k)\<rparr>"
      using run na locked True zero by (simp add: Locker_Unlock_def lockCtr_Unlock_def Let_def)
    with linv_drop [OF inv na _ only] t show ?thesis by simp
  next
    case False
    then obtain u where u: "u \<in> waiting f a" by blast
    then obtain m where m: "uses m a (f u)" using uses_counted(1) by (auto simp: waiting_def)
    have "m = n" using linvD(1) [OF inv m] linvD(5) [OF inv] na by blast
    moreover have "u \<noteq> t" using u mem by blast
    ultimately have used: "\<exists>u. uses n a ((f(t := Idle)) u)" using m by (intro exI [of _ u]) simp
    have "ctr_ok (waiting (f(t := Idle)) a) (owners (f(t := Idle)) a) ?k"
      using ok mem own by (simp add: waiting_upd owners_upd ctr_ok_def)
    from linv_move [OF inv na _ _ used this] t
    have "linv (f(t := Idle)) (s\<lparr>ctrs := (ctrs s)(a := ?k)\<rparr>)" by simp
    moreover have "s' = s\<lparr>ctrs := (ctrs s)(a := ?k)\<rparr>"
      using run na locked False zero by (simp add: Locker_Unlock_def lockCtr_Unlock_def Let_def)
    ultimately show ?thesis by simp
  qed
qed

lemma kstep_inv: "kstep c c' \<Longrightarrow> kinv c \<Longrightarrow> kinv c'"
proof (induction rule: kstep.induct)
  case (enter c t n a s)
  have "card (insert t (busy c)) < 2 ^ 31"
    using card_insert_le_m1 [of "2 ^ 31 - 1" "busy c" t] enter.hyps(2) by simp
  then show ?case using enter enter_inv [of "calls c" "locker c" t n a s] by (simp add: kinv_def busy_upd) (simp add: busy_def)
next
  case (acquire c t n a s)
  then have "insert t (busy c) = busy c" by (auto simp: busy_def)
  with acquire acquire_inv(1) [of "calls c" "locker c" t n a s] show ?case by (simp add: kinv_def busy_upd)
next
  case (leave c t n a)
  then have "insert t (busy c) = busy c" by (auto simp: busy_def)
  with leave leave_inv [of "calls c" "locker c" t n a] show ?case by (simp add: kinv_def busy_upd) (simp add: busy_def)
next
  case (unlock c t n a r s)
  have "card (busy c - {t}) < 2 ^ 31" using unlock.prems card_Diff1_le [of "busy c" t] by (simp add: kinv_def)
  with unlock unlock_inv(1) [of "calls c" "locker c" t n a r s] show ?case by (simp add: kinv_def busy_upd) (simp add: busy_def)
qed

lemma kinit_inv: "kinv kinit"
  by (simp add: kinv_def kinit_def busy_def linv_def newLocker_def)

lemma reach_inv: "kstep\<^sup>*\<^sup>* kinit c \<Longrightarrow> kinv c"
  by (induction rule: rtranclp_induct) (auto intro: kstep_inv kinit_inv)

section \<open>Properties\<close>

text \<open>
  C9: Mutual exclusion by name, and no lost lock.  However calls of \<open>Lock\<close> and \<open>Unlock\<close> are
  interleaved, two calls never hold the same name, also not across the deletion and
  re-creation of its counter; \<open>Unlock\<close> by a holder never reports a missing lock and never
  unlocks an unlocked mutex.
\<close>

theorem locker_mutual_exclusion:
  assumes "kstep\<^sup>*\<^sup>* kinit c" and "calls c t = Holding n a" and "calls c u = Holding n b \<or> calls c u = Acquired n b"
  shows "t = u \<and> fst (Locker_Unlock n (locker c)) = Unlocked"
proof -
  have inv: "linv (calls c) (locker c)" "finite {t. calls c t \<noteq> Idle}" "card {t. calls c t \<noteq> Idle} < 2 ^ 31"
    using reach_inv [OF assms(1)] by (simp_all add: kinv_def busy_def)
  have n: "locks (locker c) n = Some a" "locks (locker c) n = Some b"
    using linvD(1) [OF inv(1), of n a t] linvD(1) [OF inv(1), of n b u] assms(2,3) by auto
  then have "t \<in> owners (calls c) a" "u \<in> owners (calls c) a" using assms(2,3) by (auto simp: owners_def)
  then have "t = u" using linvD(4) [OF inv(1) n(1)] by (simp add: ctr_ok_def)
  moreover have "fst (Locker_Unlock n (locker c)) = Unlocked"
    using unlock_inv(2) [OF inv(1) assms(2) inv(2,3)] by (metis prod.collapse)
  ultimately show ?thesis ..
qed

definition demoHeld :: "nat kcfg" where
  "demoHeld = \<lparr>calls = (\<lambda>_. Idle)(0 := Holding ''v'' 0),
     locker = Locker_Lock_leave 0 (the (Locker_Lock_acquire 0 (snd (Locker_Lock_enter ''v'' newLocker))))\<rparr>"

lemma demoHeld_reachable: "kstep\<^sup>*\<^sup>* kinit demoHeld"
proof -
  let ?s1 = "snd (Locker_Lock_enter ''v'' newLocker)"
  let ?s2 = "the (Locker_Lock_acquire 0 ?s1)"
  have e: "Locker_Lock_enter ''v'' newLocker = (0, ?s1)" by (simp add: Locker_Lock_enter_def newLocker_def Let_def)
  have a: "Locker_Lock_acquire 0 ?s1 = Some ?s2"
    by (simp add: Locker_Lock_enter_def newLocker_def Let_def Locker_Lock_acquire_def lockCtr_Lock_def lockCtr_inc_def)
  have "kstep\<^sup>*\<^sup>* kinit \<lparr>calls = (\<lambda>_. Idle)((0 :: nat) := Waiting ''v'' 0), locker = ?s1\<rparr>"
    by (rule r_into_rtranclp) (use kstep.enter [of kinit 0 "''v''" 0 ?s1] e in \<open>simp add: kinit_def busy_def\<close>)
  also have "kstep \<dots> \<lparr>calls = (\<lambda>_. Idle)(0 := Acquired ''v'' 0), locker = ?s2\<rparr>"
    using kstep.acquire [of "\<lparr>calls = (\<lambda>_. Idle)((0 :: nat) := Waiting ''v'' 0), locker = ?s1\<rparr>" 0 "''v''" 0 ?s2] a by simp
  also have "kstep \<dots> demoHeld"
    using kstep.leave [of "\<lparr>calls = (\<lambda>_. Idle)((0 :: nat) := Acquired ''v'' 0), locker = ?s2\<rparr>" 0 "''v''" 0]
    by (simp add: demoHeld_def)
  finally show ?thesis by blast
qed

theorem locker_mutual_exclusion_witness:
  "(0 :: nat) = 0 \<and> fst (Locker_Unlock ''v'' (locker demoHeld)) = Unlocked"
  using locker_mutual_exclusion [OF demoHeld_reachable, of 0 "''v''" 0 0 0] by (simp add: demoHeld_def)

lemma get_free:
  assumes inv: "kinv c" and t: "calls c t = Waiting n a" and free: "owners (calls c) a = {}"
  shows "\<exists>c'. (kstep ^^ 2) c c' \<and> calls c' t = Holding n a"
proof -
  have linv: "linv (calls c) (locker c)" using inv by (simp add: kinv_def)
  have na: "locks (locker c) n = Some a" using linvD(1) [OF linv, of n a t] t by simp
  have "\<not> lmu (ctrs (locker c) a)" using linvD(4) [OF linv na] free by (simp add: ctr_ok_def)
  then obtain s where s: "Locker_Lock_acquire a (locker c) = Some s" by (simp add: Locker_Lock_acquire_def lockCtr_Lock_def)
  note one = kstep.acquire [OF t s]
  have "kstep (c\<lparr>calls := (calls c)(t := Acquired n a), locker := s\<rparr>)
     (c\<lparr>calls := (calls c)(t := Holding n a), locker := Locker_Lock_leave a s\<rparr>)"
    using kstep.leave [of "c\<lparr>calls := (calls c)(t := Acquired n a), locker := s\<rparr>" t n a] by simp
  with one show ?thesis
    by (intro exI [of _ "c\<lparr>calls := (calls c)(t := Holding n a), locker := Locker_Lock_leave a s\<rparr>"])
      (auto simp: numeral_2_eq_2)
qed

lemma get_held:
  assumes inv: "kinv c" and t: "calls c t = Waiting n a" and u: "calls c u = Holding m a"
  shows "\<exists>c'. (kstep ^^ 3) c c' \<and> calls c' t = Holding n a"
proof -
  have linv: "linv (calls c) (locker c)" using inv by (simp add: kinv_def)
  have ma: "locks (locker c) m = Some a" using linvD(1) [OF linv, of m a u] u by simp
  obtain r s where s: "Locker_Unlock m (locker c) = (r, s)" by (rule prod.exhaust)
  let ?c1 = "c\<lparr>calls := (calls c)(u := Idle), locker := s\<rparr>"
  have one: "kstep c ?c1" by (rule kstep.unlock [OF u s])
  have "owners (calls ?c1) a = {}"
    using linvD(4) [OF linv ma] u by (auto simp: ctr_ok_def owners_def split: if_splits)
  moreover have "calls ?c1 t = Waiting n a" using t u by auto
  ultimately obtain c' where "(kstep ^^ 2) ?c1 c'" "calls c' t = Holding n a"
    using get_free [OF kstep_inv [OF one inv]] by blast
  with one show ?thesis by (metis numeral_2_eq_2 numeral_3_eq_3 relpowp_Suc_I2)
qed

lemma get_lock:
  assumes inv: "kinv c" and t: "calls c t = Waiting n a"
  shows "\<exists>k \<le> 4. \<exists>c'. (kstep ^^ k) c c' \<and> calls c' t = Holding n a"
proof (cases "owners (calls c) a = {}")
  case True
  with get_free [OF inv t] show ?thesis by (intro exI [of _ 2]) simp
next
  case False
  then obtain u where u: "owns a (calls c u)" by (auto simp: owners_def)
  then consider m where "calls c u = Holding m a" | m where "calls c u = Acquired m a" by (cases "calls c u") auto
  then show ?thesis
  proof cases
    case 1
    with get_held [OF inv t] show ?thesis by (intro exI [of _ 3]) simp
  next
    case 2
    let ?c1 = "c\<lparr>calls := (calls c)(u := Holding m a), locker := Locker_Lock_leave a (locker c)\<rparr>"
    have one: "kstep c ?c1" by (rule kstep.leave [OF 2])
    have "calls ?c1 t = Waiting n a" "calls ?c1 u = Holding m a" using t 2 by auto
    then obtain c' where "(kstep ^^ 3) ?c1 c'" "calls c' t = Holding n a"
      using get_held [OF kstep_inv [OF one inv]] by blast
    then have "(kstep ^^ Suc 3) c c'" "calls c' t = Holding n a" using relpowp_Suc_I2 [of kstep, OF one] by blast+
    then show ?thesis by (intro exI [of _ "Suc 3"]) auto
  qed
qed

text \<open>
  C25: No waiter is forgotten.  Whenever a call waits for a name, it gets the lock after at most
  the remaining actions of the current owner: there is a run of at most four actions after
  which the waiting call holds the name; and once no call is in flight the locker's map is
  empty, so names do not pile up.
\<close>

theorem locker_waiter_served:
  assumes "kstep\<^sup>*\<^sup>* kinit c"
  shows "(calls c t = Waiting n a \<longrightarrow> (\<exists>k \<le> 4. \<exists>c'. (kstep ^^ k) c c' \<and> calls c' t = Holding n a)) \<and>
         ((\<forall>t. calls c t = Idle) \<longrightarrow> locks (locker c) = Map.empty)"
proof (intro conjI impI)
  assume "calls c t = Waiting n a"
  then show "\<exists>k \<le> 4. \<exists>c'. (kstep ^^ k) c c' \<and> calls c' t = Holding n a" by (rule get_lock [OF reach_inv [OF assms]])
next
  assume idle: "\<forall>t. calls c t = Idle"
  have inv: "linv (calls c) (locker c)" using reach_inv [OF assms] by (simp add: kinv_def)
  have "locks (locker c) m = None" for m
    using linvD(3) [OF inv, of m] idle by (cases "locks (locker c) m") auto
  then show "locks (locker c) = Map.empty" by (simp add: fun_eq_iff)
qed

definition demoWait :: "nat kcfg" where
  "demoWait = \<lparr>calls = (\<lambda>_. Idle)(0 := Holding ''v'' 0, 1 := Waiting ''v'' 0),
     locker = snd (Locker_Lock_enter ''v'' (locker demoHeld))\<rparr>"

lemma demoWait_reachable: "kstep\<^sup>*\<^sup>* kinit demoWait"
proof -
  have e: "Locker_Lock_enter ''v'' (locker demoHeld) = (0, snd (Locker_Lock_enter ''v'' (locker demoHeld)))"
    by (simp add: demoHeld_def Locker_Lock_enter_def newLocker_def Let_def Locker_Lock_acquire_def lockCtr_Lock_def
        lockCtr_inc_def Locker_Lock_leave_def)
  have "busy demoHeld = {0}" by (auto simp: busy_def demoHeld_def)
  then have "kstep demoHeld demoWait"
    using kstep.enter [of demoHeld 1 "''v''" 0 "snd (Locker_Lock_enter ''v'' (locker demoHeld))"] e
    by (simp add: demoHeld_def demoWait_def)
  with demoHeld_reachable show ?thesis by simp
qed

theorem locker_waiter_served_witness:
  "calls demoWait 1 = Waiting ''v'' 0 \<and> (\<exists>k \<le> 4. \<exists>c'. (kstep ^^ k) demoWait c' \<and> calls c' 1 = Holding ''v'' 0)"
  using locker_waiter_served [OF demoWait_reachable, of 1 "''v''" 0] by (simp add: demoWait_def)

end
