(* ===== verification/Restart_Manager.thy ===== *)
theory Restart_Manager
  imports Docker_Prelude "HOL-Library.Word"
begin

text \<open>
  The restart manager: \<^verbatim>\<open>src/restartmanager/restartmanager.go\<close>, with the restart policies of the
  vendored \<^verbatim>\<open>engine-api\<close> types.

  A \<open>time.Duration\<close> is a signed 64-bit count of nanoseconds, so the back-off is computed on
  \<^typ>\<open>64 word\<close> and wraps as in Go.  The goroutine that a granted restart starts is the pair of
  later actions \<open>restart_fired\<close> and \<open>restart_canceled\<close>.  Closing a closed channel is a panic; the
  \<open>sync.Once\<close> of \<open>Cancel\<close> is the flag \<open>onceDone\<close>.
\<close>

section \<open>The code\<close>

record RestartPolicy =
  rpName :: string
  MaximumRetryCount :: int

definition IsNone :: "RestartPolicy \<Rightarrow> bool" where
  "IsNone rp \<longleftrightarrow> rpName rp = ''no'' \<or> rpName rp = []"

definition IsAlways :: "RestartPolicy \<Rightarrow> bool" where
  "IsAlways rp \<longleftrightarrow> rpName rp = ''always''"

definition IsOnFailure :: "RestartPolicy \<Rightarrow> bool" where
  "IsOnFailure rp \<longleftrightarrow> rpName rp = ''on-failure''"

definition IsUnlessStopped :: "RestartPolicy \<Rightarrow> bool" where
  "IsUnlessStopped rp \<longleftrightarrow> rpName rp = ''unless-stopped''"

record restartManager =
  rmPolicy :: RestartPolicy
  restartCount :: int
  rmTimeout :: "64 word"
  rmActive :: bool
  cancelClosed :: bool
  rmCanceled :: bool
  onceDone :: bool

definition backoffMultiplier :: "64 word" where
  "backoffMultiplier = 2"

definition defaultTimeout :: "64 word" where
  "defaultTimeout = 100000000"

definition newRestartManager :: "RestartPolicy \<Rightarrow> int \<Rightarrow> restartManager" where
  "newRestartManager policy n =
     \<lparr>rmPolicy = policy, restartCount = n, rmTimeout = 0, rmActive = False, cancelClosed = False,
      rmCanceled = False, onceDone = False\<rparr>"

definition restartManager_SetPolicy :: "RestartPolicy \<Rightarrow> restartManager \<Rightarrow> restartManager" where
  "restartManager_SetPolicy policy rm = rm\<lparr>rmPolicy := policy\<rparr>"

datatype rm_error = ErrRestartCanceled | ErrActive

text \<open>
  \<open>executionDuration.Seconds() >= 10\<close> compares a duration with ten seconds; \<open>Inr True\<close> stands for
  the result \<open>true\<close> with a channel, on which the goroutine answers later.
\<close>

definition nextTimeout :: "64 word \<Rightarrow> restartManager \<Rightarrow> 64 word" where
  "nextTimeout executionDuration rm =
     (let timeout = (if 10000000000 \<le> sint executionDuration then 0 else rmTimeout rm)
      in if timeout = 0 then defaultTimeout else timeout * backoffMultiplier)"

definition wantsRestart :: "32 word \<Rightarrow> bool \<Rightarrow> restartManager \<Rightarrow> bool" where
  "wantsRestart exitCode hasBeenManuallyStopped rm =
     (if IsAlways (rmPolicy rm) then True
      else if IsUnlessStopped (rmPolicy rm) \<and> \<not> hasBeenManuallyStopped then True
      else if IsOnFailure (rmPolicy rm) then
        (if MaximumRetryCount (rmPolicy rm) = 0 \<or> restartCount rm < MaximumRetryCount (rmPolicy rm)
         then exitCode \<noteq> 0 else False)
      else False)"

definition restartManager_ShouldRestart ::
    "32 word \<Rightarrow> bool \<Rightarrow> 64 word \<Rightarrow> restartManager \<Rightarrow> (rm_error + bool) \<times> restartManager" where
  "restartManager_ShouldRestart exitCode hasBeenManuallyStopped executionDuration rm =
     (if IsNone (rmPolicy rm) then (Inr False, rm)
      else if rmCanceled rm then (Inl ErrRestartCanceled, rm)
      else if rmActive rm then (Inl ErrActive, rm)
      else
        (let rm1 = rm\<lparr>rmTimeout := nextTimeout executionDuration rm\<rparr>
         in if \<not> wantsRestart exitCode hasBeenManuallyStopped rm1 then (Inr False, rm1\<lparr>rmActive := False\<rparr>)
            else (Inr True, rm1\<lparr>restartCount := restartCount rm1 + 1, rmActive := True\<rparr>)))"

text \<open>The goroutine: it is canceled only if the channel is closed, and fires after the timeout.\<close>

definition restart_fired :: "restartManager \<Rightarrow> restartManager" where
  "restart_fired rm = rm\<lparr>rmActive := False\<rparr>"

definition restart_canceled :: "restartManager \<Rightarrow> bool" where
  "restart_canceled rm \<longleftrightarrow> cancelClosed rm"

text \<open>\<open>None\<close>: panic, close of a closed channel.\<close>

definition restartManager_Cancel :: "restartManager \<Rightarrow> restartManager option" where
  "restartManager_Cancel rm =
     (if onceDone rm then Some rm
      else if cancelClosed rm then None
      else Some (rm\<lparr>onceDone := True, rmCanceled := True, cancelClosed := True\<rparr>))"

section \<open>Histories\<close>

datatype rm_call = ShouldRestart "32 word" bool "64 word" | Fired | CancelIt

fun rm_exec :: "rm_call \<Rightarrow> restartManager \<Rightarrow> nat \<times> restartManager" where
  "rm_exec (ShouldRestart c m d) rm =
     (case restartManager_ShouldRestart c m d rm of (res, rm') \<Rightarrow> (if res = Inr True then 1 else 0, rm'))"
| "rm_exec Fired rm = (0, if rmActive rm then restart_fired rm else rm)"
| "rm_exec CancelIt rm = (0, case restartManager_Cancel rm of None \<Rightarrow> rm | Some rm' \<Rightarrow> rm')"

text \<open>The number of granted restarts over a sequence of calls.\<close>

fun granted :: "rm_call list \<Rightarrow> restartManager \<Rightarrow> nat" where
  "granted [] rm = 0"
| "granted (c # cs) rm = (case rm_exec c rm of (n, rm') \<Rightarrow> n + granted cs rm')"

definition rm_inv :: "restartManager \<Rightarrow> bool" where
  "rm_inv rm \<longleftrightarrow> (onceDone rm = rmCanceled rm) \<and> (cancelClosed rm = rmCanceled rm)"

lemma rm_inv_new [simp]: "rm_inv (newRestartManager p n)"
  by (simp add: rm_inv_def newRestartManager_def)

lemma Cancel_spec: "rm_inv rm \<Longrightarrow> restartManager_Cancel rm = Some (rm\<lparr>onceDone := True, rmCanceled := True, cancelClosed := True\<rparr>)"
  by (cases rm) (auto simp: rm_inv_def restartManager_Cancel_def)

lemma rm_exec_inv: "rm_inv rm \<Longrightarrow> rm_inv (snd (rm_exec c rm))"
  by (cases c) (auto simp: Cancel_spec rm_inv_def restart_fired_def restartManager_ShouldRestart_def Let_def)

lemma rm_exec_policy: "rmPolicy (snd (rm_exec c rm)) = rmPolicy rm"
  by (cases c) (auto simp: restart_fired_def restartManager_ShouldRestart_def restartManager_Cancel_def Let_def)

lemma rm_exec_canceled: "rm_inv rm \<Longrightarrow> rmCanceled rm \<Longrightarrow> rmCanceled (snd (rm_exec c rm)) \<and> fst (rm_exec c rm) = 0"
  by (cases c) (auto simp: Cancel_spec restart_fired_def restartManager_ShouldRestart_def Let_def)

lemma granted_canceled: "rm_inv rm \<Longrightarrow> rmCanceled rm \<Longrightarrow> granted cs rm = 0"
proof (induction cs arbitrary: rm)
  case (Cons c cs)
  have "granted cs (snd (rm_exec c rm)) = 0"
    using Cons.IH rm_exec_inv [OF Cons.prems(1)] rm_exec_canceled [OF Cons.prems] by blast
  then show ?case using rm_exec_canceled [OF Cons.prems, of c] by (simp add: case_prod_unfold)
qed simp

lemma wantsRestart_timeout [simp]: "wantsRestart c m (rm\<lparr>rmTimeout := x\<rparr>) = wantsRestart c m rm"
  by (simp add: wantsRestart_def)

lemma ShouldRestart_spec:
  assumes "restartManager_ShouldRestart c m d rm = (res, rm')"
  shows "restartCount rm' = restartCount rm + (if res = Inr True then 1 else 0)"
    and "res = Inr True \<Longrightarrow> wantsRestart c m rm \<and> \<not> rmCanceled rm \<and> \<not> rmActive rm \<and> rmActive rm' \<and> \<not> IsNone (rmPolicy rm) \<and>
           rmTimeout rm' = nextTimeout d rm"
  using assms unfolding restartManager_ShouldRestart_def by (simp_all add: Let_def split: if_splits) (auto split: if_splits)

lemma wants_on_failure:
  assumes "IsOnFailure (rmPolicy rm)" and "0 < MaximumRetryCount (rmPolicy rm)" and "wantsRestart c m rm"
  shows "restartCount rm < MaximumRetryCount (rmPolicy rm)"
proof -
  have "\<not> IsAlways (rmPolicy rm)" "\<not> IsUnlessStopped (rmPolicy rm)"
    using assms(1) by (simp_all add: IsOnFailure_def IsAlways_def IsUnlessStopped_def)
  with assms show ?thesis by (simp add: wantsRestart_def split: if_splits)
qed

lemma on_failure_step:
  assumes "IsOnFailure (rmPolicy rm)" and "0 < MaximumRetryCount (rmPolicy rm)"
  shows "restartCount (snd (rm_exec c rm)) = restartCount rm + int (fst (rm_exec c rm))"
    and "fst (rm_exec c rm) = 0 \<or> fst (rm_exec c rm) = 1 \<and> restartCount rm < MaximumRetryCount (rmPolicy rm)"
proof -
  have "restartCount (snd (rm_exec c rm)) = restartCount rm + int (fst (rm_exec c rm)) \<and>
    (fst (rm_exec c rm) = 0 \<or> fst (rm_exec c rm) = 1 \<and> restartCount rm < MaximumRetryCount (rmPolicy rm))"
  proof (cases c)
    case (ShouldRestart e m d)
    obtain res rm' where r: "restartManager_ShouldRestart e m d rm = (res, rm')" by (rule prod.exhaust)
    show ?thesis
      using ShouldRestart_spec [OF r] wants_on_failure [OF assms, of e m] by (simp add: ShouldRestart r)
  qed (simp_all add: restart_fired_def restartManager_Cancel_def)
  then show "restartCount (snd (rm_exec c rm)) = restartCount rm + int (fst (rm_exec c rm))"
    and "fst (rm_exec c rm) = 0 \<or> fst (rm_exec c rm) = 1 \<and> restartCount rm < MaximumRetryCount (rmPolicy rm)" by blast+
qed

lemma granted_on_failure:
  assumes "IsOnFailure (rmPolicy rm)" and "0 < MaximumRetryCount (rmPolicy rm)"
  shows "int (granted cs rm) \<le> max 0 (MaximumRetryCount (rmPolicy rm) - restartCount rm)"
  using assms
proof (induction cs arbitrary: rm)
  case (Cons c cs)
  let ?rm = "snd (rm_exec c rm)"
  have "int (granted cs ?rm) \<le> max 0 (MaximumRetryCount (rmPolicy rm) - restartCount ?rm)"
    using Cons.IH [of ?rm] Cons.prems by (simp add: rm_exec_policy)
  then show ?case using on_failure_step [OF Cons.prems, of c] by (auto simp: case_prod_unfold)
qed simp

fun rm_run :: "rm_call list \<Rightarrow> restartManager \<Rightarrow> restartManager" where
  "rm_run [] rm = rm"
| "rm_run (c # cs) rm = rm_run cs (snd (rm_exec c rm))"

lemma rm_run_inv: "rm_inv rm \<Longrightarrow> rm_inv (rm_run cs rm)"
  by (induction cs arbitrary: rm) (simp_all add: rm_exec_inv)

section \<open>Properties\<close>



text \<open>Exits in a row, each soon after the start, with the timer fired in between.\<close>

fun quickExits :: "64 word \<Rightarrow> nat \<Rightarrow> restartManager \<Rightarrow> restartManager" where
  "quickExits d 0 rm = rm"
| "quickExits d (Suc k) rm = restart_fired (snd (restartManager_ShouldRestart 1 False d (quickExits d k rm)))"

lemma timeout_nonzero:
  assumes "k < 56"
  shows "defaultTimeout * 2 ^ k \<noteq> 0"
proof -
  have "coprime (2 :: nat) 390625" by (subst coprime_left_2_iff_odd) simp
  then have "coprime ((2 :: nat) ^ 64) 390625" by (subst coprime_power_left_iff) simp
  then have "(2 :: nat) ^ 64 dvd 390625 * 2 ^ (8 + k) \<longleftrightarrow> (2 :: nat) ^ 64 dvd 2 ^ (8 + k)" by (rule coprime_dvd_mult_right_iff)
  also have "\<dots> \<longleftrightarrow> 64 \<le> 8 + k" by (rule dvd_power_iff_le) simp
  finally have "\<not> (2 :: nat) ^ 64 dvd 100000000 * 2 ^ k" using assms by (simp add: power_add)
  then have "word_of_nat (100000000 * 2 ^ k) \<noteq> (0 :: 64 word)" unfolding word_of_nat_eq_0_iff by simp
  then show ?thesis by (simp add: defaultTimeout_def)
qed

lemma quickExits_spec:
  assumes "IsAlways policy" and "sint d < 10000000000"
  shows "k \<le> 56 \<Longrightarrow> quickExits d (Suc k) (newRestartManager policy n) =
     (newRestartManager policy n)\<lparr>restartCount := n + int k + 1, rmTimeout := defaultTimeout * 2 ^ k\<rparr>"
proof (induction k)
  case 0
  have "\<not> IsNone policy" using assms(1) by (simp add: IsAlways_def IsNone_def)
  then show ?case using assms
    by (simp add: newRestartManager_def restartManager_ShouldRestart_def nextTimeout_def wantsRestart_def Let_def restart_fired_def)
next
  case (Suc k)
  have "\<not> IsNone policy" using assms(1) by (simp add: IsAlways_def IsNone_def)
  moreover have "defaultTimeout * 2 ^ k \<noteq> 0" using Suc.prems by (intro timeout_nonzero) simp
  moreover have "quickExits d (Suc k) (newRestartManager policy n) =
     (newRestartManager policy n)\<lparr>restartCount := n + int k + 1, rmTimeout := defaultTimeout * 2 ^ k\<rparr>"
    using Suc by simp
  ultimately show ?case using assms
    by (simp add: newRestartManager_def restartManager_ShouldRestart_def nextTimeout_def wantsRestart_def Let_def
        restart_fired_def backoffMultiplier_def del: mult_eq_0_iff)
qed

text \<open>
  The back-off schedule.  Under policy \<open>always\<close>, the (k+1)-th quick exit in a row waits
  \<open>100 ms * 2 ^ k\<close>, computed without overflow up to the 37th; the 38th multiplication wraps
  the 64-bit duration to a negative one, for which the timer would fire at once.
\<close>

lemma backoff_schedule:
  assumes "IsAlways policy" and "sint d < 10000000000" and "k \<le> 36"
  shows "sint (rmTimeout (quickExits d (Suc k) (newRestartManager policy n))) = 100000000 * 2 ^ k \<and>
         sint (rmTimeout (quickExits d 38 (newRestartManager policy n))) < 0"
proof
  have "(2 :: int) ^ k \<le> 68719476736" using power_increasing [OF assms(3), of "2 :: int"] by simp
  moreover have "(0 :: int) \<le> 2 ^ k" by simp
  ultimately have "signed_take_bit 63 (100000000 * 2 ^ k) = (100000000 * 2 ^ k :: int)" by (intro signed_take_bit_int_eq_self; simp; linarith)
  then have "sint (word_of_int (100000000 * 2 ^ k) :: 64 word) = 100000000 * 2 ^ k" unfolding sint_sbintrunc' by simp
  then show "sint (rmTimeout (quickExits d (Suc k) (newRestartManager policy n))) = 100000000 * 2 ^ k"
    using quickExits_spec [OF assms(1,2), of k n] assms(3) by (simp add: defaultTimeout_def del: quickExits.simps)
  have "sint (defaultTimeout * 2 ^ 37) < 0" unfolding defaultTimeout_def by code_simp
  then show "sint (rmTimeout (quickExits d 38 (newRestartManager policy n))) < 0"
    using quickExits_spec [OF assms(1,2), of 37 n] by (simp del: quickExits.simps)
qed

end
