(* ===== verification/Health_Check.thy ===== *)
theory Health_Check
  imports Docker_Prelude
begin

text \<open>
  Health checks: \<^verbatim>\<open>src/daemon/health.go\<close> and \<^verbatim>\<open>src/container/health.go\<close>.

  The first part is the record of probe results and the buffer for their output.  The second
  part is the interplay of the monitor thread with the handler of state changes: the container
  lock and the unbuffered channel \<open>stop\<close> are the two resources, and the relation \<open>hstep\<close>
  interleaves the actions of the two threads as the code orders them.
\<close>

section \<open>Probe results\<close>

datatype healthStatus = Starting | Healthy | Unhealthy

fun healthStatus_string :: "healthStatus \<Rightarrow> string" where
  "healthStatus_string Starting = ''starting''"
| "healthStatus_string Healthy = ''healthy''"
| "healthStatus_string Unhealthy = ''unhealthy''"

record HealthcheckResult =
  hrExitCode :: int
  hrOutput :: string

record Health =
  hStatus :: healthStatus
  FailingStreak :: int
  hLog :: "HealthcheckResult list"
  hStop :: bool

text \<open>\<open>hStop\<close> says that the pointer \<open>stop\<close> is not nil.\<close>

definition maxOutputLen :: nat where
  "maxOutputLen = 4096"

definition defaultProbeRetries :: int where
  "defaultProbeRetries = 3"

definition maxLogEntries :: nat where
  "maxLogEntries = 5"

definition exitStatusHealthy :: int where
  "exitStatusHealthy = 0"

definition Health_String :: "Health \<Rightarrow> string" where
  "Health_String s =
     (if \<not> hStop s then healthStatus_string Unhealthy
      else case hStatus s of Starting \<Rightarrow> ''health: starting'' | st \<Rightarrow> healthStatus_string st)"

definition OpenMonitorChannel :: "Health \<Rightarrow> bool \<times> Health" where
  "OpenMonitorChannel s = (if \<not> hStop s then (True, s\<lparr>hStop := True\<rparr>) else (False, s))"

text \<open>The second component says whether the status changed, which is when an event is logged.\<close>

definition handleProbeResult :: "int \<Rightarrow> HealthcheckResult \<Rightarrow> Health \<Rightarrow> Health \<times> bool" where
  "handleProbeResult configured result h =
     (let retries = (if configured \<le> 0 then defaultProbeRetries else configured);
          oldStatus = hStatus h;
          h1 = (if maxLogEntries \<le> length (hLog h)
                then h\<lparr>hLog := drop (length (hLog h) + 1 - maxLogEntries) (hLog h) @ [result]\<rparr>
                else h\<lparr>hLog := hLog h @ [result]\<rparr>);
          h2 = (if hrExitCode result = exitStatusHealthy then h1\<lparr>FailingStreak := 0, hStatus := Healthy\<rparr>
                else let h3 = h1\<lparr>FailingStreak := FailingStreak h1 + 1\<rparr>
                     in if retries \<le> FailingStreak h3 then h3\<lparr>hStatus := Unhealthy\<rparr> else h3)
      in (h2, oldStatus \<noteq> hStatus h2))"

record limitedBuffer =
  lbuf :: bytes
  truncated :: bool

definition limitedBuffer_Write :: "bytes \<Rightarrow> limitedBuffer \<Rightarrow> nat \<times> limitedBuffer" where
  "limitedBuffer_Write d b =
     (let keep = min (int maxOutputLen - int (length (lbuf b))) (int (length d));
          b1 = (if 0 < keep then b\<lparr>lbuf := lbuf b @ take (nat keep) d\<rparr> else b)
      in (length d, if keep < int (length d) then b1\<lparr>truncated := True\<rparr> else b1))"

definition limitedBuffer_String :: "limitedBuffer \<Rightarrow> string" where
  "limitedBuffer_String b = (if truncated b then lbuf b @ ''...'' else lbuf b)"

definition timeoutWithDefault :: "int \<Rightarrow> int \<Rightarrow> int" where
  "timeoutWithDefault configuredValue defaultValue = (if configuredValue = 0 then defaultValue else configuredValue)"

text \<open>\<open>getProbe\<close>: no probe, or a command with or without a shell.\<close>

definition getProbe :: "string list option \<Rightarrow> bool option" where
  "getProbe test =
     (case test of
        None \<Rightarrow> None
      | Some [] \<Rightarrow> None
      | Some (t # _) \<Rightarrow> if t = ''CMD'' then Some False else if t = ''CMD-SHELL'' then Some True else None)"

section \<open>Histories of probes\<close>

definition failing :: "HealthcheckResult \<Rightarrow> bool" where
  "failing r \<longleftrightarrow> hrExitCode r \<noteq> 0"

definition newHealth :: Health where
  "newHealth = \<lparr>hStatus = Starting, FailingStreak = 0, hLog = [], hStop = True\<rparr>"

definition probed :: "int \<Rightarrow> HealthcheckResult list \<Rightarrow> Health" where
  "probed configured rs = fold (\<lambda>r h. fst (handleProbeResult configured r h)) rs newHealth"

definition lastFailures :: "HealthcheckResult list \<Rightarrow> nat" where
  "lastFailures rs = length (takeWhile failing (rev rs))"

lemma lastFailures_snoc: "lastFailures (rs @ [r]) = (if failing r then Suc (lastFailures rs) else 0)"
  by (simp add: lastFailures_def)

lemma probed_snoc: "probed c (rs @ [r]) = fst (handleProbeResult c r (probed c rs))"
  by (simp add: probed_def)

lemma probed_log: "hLog (probed c rs) = drop (length rs - 5) rs"
proof (induction rs rule: rev_induct)
  case Nil
  then show ?case by (simp add: probed_def newHealth_def)
next
  case (snoc r rs)
  show ?case
  proof (cases "5 \<le> length rs")
    case True
    then have "Suc (length rs - 5) = length rs - 4" by simp
    with snoc True show ?thesis by (simp add: probed_snoc handleProbeResult_def Let_def maxLogEntries_def)
  next
    case False
    with snoc show ?thesis by (simp add: probed_snoc handleProbeResult_def Let_def maxLogEntries_def)
  qed
qed

lemma probed_streak: "FailingStreak (probed c rs) = int (lastFailures rs)"
  by (induction rs rule: rev_induct)
    (auto simp: probed_snoc lastFailures_snoc handleProbeResult_def Let_def failing_def exitStatusHealthy_def,
     simp add: probed_def newHealth_def lastFailures_def)

lemma probed_status:
  assumes k: "k = (if c \<le> 0 then 3 else nat c)"
  shows "hStatus (probed c rs) =
     (if k \<le> lastFailures rs then Unhealthy else if \<exists>r \<in> set rs. \<not> failing r then Healthy else Starting)"
proof (induction rs rule: rev_induct)
  case Nil
  then show ?case using k by (auto simp: probed_def newHealth_def lastFailures_def)
next
  case (snoc r rs)
  have pos: "0 < k" using k by auto
  have kk: "int k = (if c \<le> 0 then defaultProbeRetries else c)" using k by (auto simp: defaultProbeRetries_def)
  show ?case
  proof (cases "failing r")
    case False
    then show ?thesis using pos
      by (simp add: probed_snoc handleProbeResult_def Let_def exitStatusHealthy_def failing_def lastFailures_snoc)
  next
    case True
    have "hStatus (probed c (rs @ [r])) = (if int k \<le> FailingStreak (probed c rs) + 1 then Unhealthy else hStatus (probed c rs))"
      using True unfolding kk by (simp add: probed_snoc handleProbeResult_def Let_def exitStatusHealthy_def failing_def)
    with snoc True show ?thesis by (auto simp: probed_streak lastFailures_snoc)
  qed
qed

text \<open>
  C31: What the health record says.  After any sequence of probe results since the start of the
  container, the status is unhealthy exactly when the last \<open>retries\<close> (three, unless
  configured) probes failed, healthy when a probe succeeded since the start otherwise, and
  starting else; the failing streak is the number of failures since the last success, and the
  log holds the last five results, oldest first.
\<close>

theorem health_record:
  "hStatus (probed c rs) =
     (if (if c \<le> 0 then 3 else nat c) \<le> lastFailures rs then Unhealthy
      else if list_all failing rs then Starting else Healthy) \<and>
   FailingStreak (probed c rs) = int (lastFailures rs) \<and> hLog (probed c rs) = drop (length rs - 5) rs"
  using probed_status [OF refl, of c rs] by (auto simp: probed_streak probed_log list_all_iff)

text \<open>Writing to the buffer in pieces is writing the whole output and cutting it.\<close>

definition written :: "bytes list \<Rightarrow> limitedBuffer" where
  "written ds = fold (\<lambda>d b. snd (limitedBuffer_Write d b)) ds \<lparr>lbuf = [], truncated = False\<rparr>"

lemma written_spec:
  "lbuf (written ds) = take maxOutputLen (concat ds)" "truncated (written ds) \<longleftrightarrow> maxOutputLen < length (concat ds)"
proof (induction ds rule: rev_induct)
  case Nil
  case 1
  show ?case by (simp add: written_def)
next
  case Nil
  case 2
  show ?case by (simp add: written_def)
next
  case (snoc d ds)
  have w: "written (ds @ [d]) = snd (limitedBuffer_Write d (written ds))" by (simp add: written_def)
  case 1
  show ?case using snoc unfolding w
    by (cases "length (concat ds) < maxOutputLen") (auto simp: limitedBuffer_Write_def Let_def min_def not_less nat_diff_distrib)
next
  case (snoc d ds)
  have w: "written (ds @ [d]) = snd (limitedBuffer_Write d (written ds))" by (simp add: written_def)
  case 2
  show ?case using snoc unfolding w
    by (auto simp: limitedBuffer_Write_def Let_def min_def not_less split: if_splits)
qed

text \<open>
  The output buffer of a probe keeps the first 4096 bytes of everything written, in
  whatever pieces it is written, reports every piece as fully written, and marks the text with
  dots exactly when something was cut off.
\<close>

lemma probe_output_cut:
  "limitedBuffer_String (written ds) =
     (if 4096 < length (concat ds) then take 4096 (concat ds) @ ''...'' else concat ds) \<and>
   fst (limitedBuffer_Write d (written ds)) = length d"
  by (simp add: limitedBuffer_String_def written_spec maxOutputLen_def limitedBuffer_Write_def Let_def)

section \<open>The monitor and the handler of state changes\<close>

text \<open>
  The monitor thread waits for the timer or for \<open>stop\<close>; while a probe runs it waits for
  \<open>stop\<close>, a result or the timeout; \<open>handleProbeResult\<close> takes the container lock; after a timeout
  it waits for the probe to exit.  The handler of an exit event (\<open>StateChanged\<close>) takes the
  container lock, and still holding it calls \<open>updateHealthMonitor\<close>, whose
  \<open>CloseMonitorChannel\<close> sends on the unbuffered \<open>stop\<close>.
\<close>

datatype monitorPc =
  MIdle | MProbing | MWantLock bool | MHandling bool | MDrain | MStopped

datatype handlerPc = HNew | HLocked | HSending | HUnlock | HDone

datatype lockOwner = Free | ByMonitor | ByHandler

record hcfg =
  mpc :: monitorPc
  hpc :: handlerPc
  clock :: lockOwner

text \<open>The flag of \<open>MWantLock\<close> and \<open>MHandling\<close> says that the probe timed out and has to be waited for.\<close>

inductive hstep :: "hcfg \<Rightarrow> hcfg \<Rightarrow> bool" where
  timer: "mpc c = MIdle \<Longrightarrow> hstep c (c\<lparr>mpc := MProbing\<rparr>)"
| result: "mpc c = MProbing \<Longrightarrow> hstep c (c\<lparr>mpc := MWantLock False\<rparr>)"
| timeout: "mpc c = MProbing \<Longrightarrow> hstep c (c\<lparr>mpc := MWantLock True\<rparr>)"
| lockM: "mpc c = MWantLock b \<Longrightarrow> clock c = Free \<Longrightarrow> hstep c (c\<lparr>mpc := MHandling b, clock := ByMonitor\<rparr>)"
| unlockM: "mpc c = MHandling b \<Longrightarrow> hstep c (c\<lparr>mpc := (if b then MDrain else MIdle), clock := Free\<rparr>)"
| drained: "mpc c = MDrain \<Longrightarrow> hstep c (c\<lparr>mpc := MIdle\<rparr>)"
| lockH: "hpc c = HNew \<Longrightarrow> clock c = Free \<Longrightarrow> hstep c (c\<lparr>hpc := HLocked, clock := ByHandler\<rparr>)"
| close: "hpc c = HLocked \<Longrightarrow> hstep c (c\<lparr>hpc := HSending\<rparr>)"
| stop: "hpc c = HSending \<Longrightarrow> mpc c = MIdle \<or> mpc c = MProbing \<Longrightarrow> hstep c (c\<lparr>hpc := HUnlock, mpc := MStopped\<rparr>)"
| unlockH: "hpc c = HUnlock \<Longrightarrow> hstep c (c\<lparr>hpc := HDone, clock := Free\<rparr>)"

inductive_cases hstepE: "hstep c c'"

definition hinit :: hcfg where
  "hinit = \<lparr>mpc = MIdle, hpc = HNew, clock = Free\<rparr>"

definition hstuck :: "hcfg \<Rightarrow> bool" where
  "hstuck c \<longleftrightarrow> hpc c \<noteq> HDone \<and> (\<forall>c'. \<not> hstep c c')"

lemma hstuckI: "mpc c = MWantLock b \<Longrightarrow> hpc c = HSending \<Longrightarrow> clock c = ByHandler \<Longrightarrow> hstuck c"
  unfolding hstuck_def by (auto elim: hstepE)

definition hinv :: "hcfg \<Rightarrow> bool" where
  "hinv c \<longleftrightarrow>
     (clock c = ByMonitor \<longleftrightarrow> (\<exists>b. mpc c = MHandling b)) \<and> (clock c = ByHandler \<longleftrightarrow> hpc c \<in> {HLocked, HSending, HUnlock}) \<and>
     (hpc c \<in> {HUnlock, HDone} \<longleftrightarrow> mpc c = MStopped)"

lemma hstep_inv: "hstep c c' \<Longrightarrow> hinv c \<Longrightarrow> hinv c'"
  by (induction rule: hstep.induct) (auto simp: hinv_def)

lemma hreach_inv: "hstep\<^sup>*\<^sup>* hinit c \<Longrightarrow> hinv c"
proof (induction rule: rtranclp_induct)
  case base
  then show ?case by (simp add: hinv_def hinit_def)
next
  case (step c c')
  then show ?case by (blast intro: hstep_inv)
qed

lemma hstep_exists:
  assumes "hinv c" and "hpc c \<noteq> HDone" and "\<not> (hpc c = HSending \<and> (\<exists>b. mpc c = MWantLock b))"
  shows "\<exists>c'. hstep c c'"
proof (cases "hpc c")
  case HNew
  show ?thesis
  proof (cases "mpc c")
    case (MWantLock b)
    then have "clock c = Free" using assms(1) HNew by (cases "clock c") (auto simp: hinv_def)
    with HNew show ?thesis by (blast intro: hstep.lockH)
  next
    case MStopped
    with assms(1) HNew show ?thesis by (auto simp: hinv_def)
  qed (blast intro: hstep.intros)+
next
  case HSending
  then show ?thesis using assms by (cases "mpc c") (auto simp: hinv_def intro: hstep.intros)
next
  case HDone
  with assms(2) show ?thesis by simp
qed (blast intro: hstep.intros)+


end
