(* ===== verification/Container_State.thy ===== *)
theory Container_State
  imports Restart_Manager Health_Check
begin

text \<open>
  The state of a container: \<^verbatim>\<open>src/container/state.go\<close> and \<^verbatim>\<open>src/container/state_unix.go\<close>.

  A time is an integer, 0 being Go's zero time; \<open>time.Now()\<close> is an argument.  Channels are
  numbers; \<open>closedChans\<close> are the closed ones.  Closing a closed channel is a panic, so the
  operations that close return an option.  A wait is split where the code releases the lock:
  its first part returns at once or yields the channel to wait on.
\<close>

section \<open>State\<close>

record State =
  Running :: bool
  Paused :: bool
  Restarting :: bool
  OOMKilled :: bool
  RemovalInProgress :: bool
  Dead :: bool
  Pid :: int
  exitCode :: int
  stError :: string
  StartedAt :: int
  FinishedAt :: int
  waitChan :: nat
  closedChans :: "nat set"
  nextChan :: nat
  stHealth :: "Health option"

record ExitStatus =
  esExitCode :: int
  esOOMKilled :: bool

definition NewState :: State where
  "NewState =
     \<lparr>Running = False, Paused = False, Restarting = False, OOMKilled = False, RemovalInProgress = False, Dead = False,
      Pid = 0, exitCode = 0, stError = [], StartedAt = 0, FinishedAt = 0, waitChan = 0, closedChans = {}, nextChan = 1,
      stHealth = None\<rparr>"

text \<open>\<open>show\<close> prints an integer, \<open>human\<close> is \<open>units.HumanDuration\<close> of the vendored library.\<close>

definition State_String :: "(int \<Rightarrow> string) \<Rightarrow> (int \<Rightarrow> string) \<Rightarrow> int \<Rightarrow> State \<Rightarrow> string" where
  "State_String showInt human now s =
     (if Running s then
        (if Paused s then ''Up '' @ human (now - StartedAt s) @ '' (Paused)''
         else if Restarting s then ''Restarting ('' @ showInt (exitCode s) @ '') '' @ human (now - FinishedAt s) @ '' ago''
         else case stHealth s of
                Some h \<Rightarrow> ''Up '' @ human (now - StartedAt s) @ '' ('' @ Health_String h @ '')''
              | None \<Rightarrow> ''Up '' @ human (now - StartedAt s))
      else if RemovalInProgress s then ''Removal In Progress''
      else if Dead s then ''Dead''
      else if StartedAt s = 0 then ''Created''
      else if FinishedAt s = 0 then []
      else ''Exited ('' @ showInt (exitCode s) @ '') '' @ human (now - FinishedAt s) @ '' ago'')"

definition StateString :: "State \<Rightarrow> string" where
  "StateString s =
     (if Running s then (if Paused s then ''paused'' else if Restarting s then ''restarting'' else ''running'')
      else if Dead s then ''dead''
      else if StartedAt s = 0 then ''created''
      else ''exited'')"

definition IsValidStateString :: "string \<Rightarrow> bool" where
  "IsValidStateString s =
     (if s \<noteq> ''paused'' \<and> s \<noteq> ''restarting'' \<and> s \<noteq> ''running'' \<and> s \<noteq> ''dead'' \<and> s \<noteq> ''created'' \<and> s \<noteq> ''exited''
      then False else True)"

definition setFromExitStatus :: "ExitStatus \<Rightarrow> State \<Rightarrow> State" where
  "setFromExitStatus es s = s\<lparr>exitCode := esExitCode es, OOMKilled := esOOMKilled es\<rparr>"

text \<open>\<open>close(s.waitChan); s.waitChan = make(chan struct{})\<close>\<close>

definition fireWaiters :: "State \<Rightarrow> State option" where
  "fireWaiters s =
     (if waitChan s \<in> closedChans s then None
      else Some (s\<lparr>closedChans := insert (waitChan s) (closedChans s), waitChan := nextChan s, nextChan := nextChan s + 1\<rparr>))"

definition State_SetRunning :: "int \<Rightarrow> bool \<Rightarrow> int \<Rightarrow> State \<Rightarrow> State" where
  "State_SetRunning pid initial now s =
     (let s1 = s\<lparr>stError := [], Running := True, Paused := False, Restarting := False, exitCode := 0, Pid := pid\<rparr>
      in if initial then s1\<lparr>StartedAt := now\<rparr> else s1)"

definition State_SetStopped :: "ExitStatus \<Rightarrow> int \<Rightarrow> State \<Rightarrow> State option" where
  "State_SetStopped es now s =
     fireWaiters (setFromExitStatus es
       (s\<lparr>Running := False, Paused := False, Restarting := False, Pid := 0, FinishedAt := now\<rparr>))"

definition State_SetRestarting :: "ExitStatus \<Rightarrow> int \<Rightarrow> State \<Rightarrow> State option" where
  "State_SetRestarting es now s =
     fireWaiters (setFromExitStatus es (s\<lparr>Running := True, Restarting := True, Pid := 0, FinishedAt := now\<rparr>))"

definition State_SetError :: "string \<Rightarrow> State \<Rightarrow> State" where
  "State_SetError e s = s\<lparr>stError := e\<rparr>"

definition State_SetExitCode :: "int \<Rightarrow> State \<Rightarrow> State" where
  "State_SetExitCode ec s = s\<lparr>exitCode := ec\<rparr>"

definition State_SetRemovalInProgress :: "State \<Rightarrow> bool \<times> State" where
  "State_SetRemovalInProgress s =
     (if RemovalInProgress s then (True, s) else (False, s\<lparr>RemovalInProgress := True\<rparr>))"

definition State_ResetRemovalInProgress :: "State \<Rightarrow> State" where
  "State_ResetRemovalInProgress s = s\<lparr>RemovalInProgress := False\<rparr>"

definition State_SetDead :: "State \<Rightarrow> State" where
  "State_SetDead s = s\<lparr>Dead := True\<rparr>"

section \<open>Waiting\<close>

text \<open>
  \<open>wait\<close>: \<open>None\<close> while neither the channel is closed nor the timer has fired; if both are
  ready, the select of Go picks one of them, here by \<open>pick\<close>.
\<close>

definition wait :: "int \<Rightarrow> bool \<Rightarrow> bool \<Rightarrow> nat \<Rightarrow> State \<Rightarrow> (string + unit) option" where
  "wait timeout fired pick ch s =
     (if timeout < 0 then (if ch \<in> closedChans s then Some (Inr ()) else None)
      else if ch \<in> closedChans s \<and> (\<not> fired \<or> pick) then Some (Inr ())
      else if fired then Some (Inl ''Timed out'')
      else None)"

definition State_WaitStop_begin :: "State \<Rightarrow> int + nat" where
  "State_WaitStop_begin s = (if \<not> Running s then Inl (exitCode s) else Inr (waitChan s))"

definition State_WaitStop_end :: "int \<Rightarrow> bool \<Rightarrow> bool \<Rightarrow> nat \<Rightarrow> State \<Rightarrow> (string + int) option" where
  "State_WaitStop_end timeout fired pick ch s =
     (case wait timeout fired pick ch s of
        None \<Rightarrow> None
      | Some (Inl e) \<Rightarrow> Some (Inl e)
      | Some (Inr _) \<Rightarrow> Some (Inr (exitCode s)))"

text \<open>\<open>WaitWithContext\<close>: the error is the state itself when the exit code is not 0.\<close>

definition State_WaitWithContext_end :: "bool \<Rightarrow> bool \<Rightarrow> nat \<Rightarrow> State \<Rightarrow> (string + State option) option" where
  "State_WaitWithContext_end canceled pick ch s =
     (if ch \<in> closedChans s \<and> (\<not> canceled \<or> pick) then Some (Inr (if exitCode s = 0 then None else Some s))
      else if canceled then Some (Inl ''context canceled'')
      else None)"

section \<open>The type of a state\<close>

text \<open>
  What the combinations of flags mean: a container that is paused or restarting is running, a
  process id is kept only while a process runs, and the channel waiters use is open.
\<close>

definition chans_ok :: "State \<Rightarrow> bool" where
  "chans_ok s \<longleftrightarrow> waitChan s < nextChan s \<and> closedChans s = {..<nextChan s} - {waitChan s}"

definition state_ok :: "State \<Rightarrow> bool" where
  "state_ok s \<longleftrightarrow>
     (Paused s \<longrightarrow> Running s) \<and> (Restarting s \<longrightarrow> Running s) \<and> (\<not> Running s \<or> Restarting s \<longrightarrow> Pid s = 0) \<and> chans_ok s"

lemma NewState_ok: "state_ok NewState"
  by (auto simp: state_ok_def NewState_def chans_ok_def)

lemma fireWaiters_ok:
  assumes "chans_ok s"
  shows "fireWaiters s = Some (s\<lparr>closedChans := {..<nextChan s}, waitChan := nextChan s, nextChan := nextChan s + 1\<rparr>)"
    (is "_ = Some ?s")
  and "chans_ok (s\<lparr>closedChans := {..<nextChan s}, waitChan := nextChan s, nextChan := nextChan s + 1\<rparr>)"
proof -
  have "insert (waitChan s) (closedChans s) = {..<nextChan s}" using assms by (auto simp: chans_ok_def)
  with assms show "fireWaiters s = Some ?s" by (simp add: fireWaiters_def chans_ok_def)
  show "chans_ok ?s" by (auto simp: chans_ok_def)
qed

lemma chans_ok_sel: "waitChan s' = waitChan s \<Longrightarrow> nextChan s' = nextChan s \<Longrightarrow> closedChans s' = closedChans s \<Longrightarrow> chans_ok s' = chans_ok s"
  by (simp add: chans_ok_def)

lemma SetRunning_ok: "state_ok s \<Longrightarrow> state_ok (State_SetRunning pid initial now s)"
  by (auto simp: state_ok_def State_SetRunning_def Let_def chans_ok_def)

lemma SetStopped_spec:
  assumes "state_ok s"
  obtains s' where "State_SetStopped es now s = Some s'" "state_ok s'" "\<not> Running s'" "closedChans s' = {..<nextChan s}"
    "nextChan s' = nextChan s + 1" "exitCode s' = esExitCode es" "\<not> Paused s'" "\<not> Restarting s'"
proof -
  let ?s = "setFromExitStatus es (s\<lparr>Running := False, Paused := False, Restarting := False, Pid := 0, FinishedAt := now\<rparr>)"
  have ok: "chans_ok ?s" using assms by (simp add: state_ok_def setFromExitStatus_def chans_ok_def)
  let ?s' = "?s\<lparr>closedChans := {..<nextChan ?s}, waitChan := nextChan ?s, nextChan := nextChan ?s + 1\<rparr>"
  have run: "State_SetStopped es now s = Some ?s'" unfolding State_SetStopped_def by (rule fireWaiters_ok(1) [OF ok])
  show thesis
    by (rule that [OF run]) (use assms fireWaiters_ok(2) [OF ok] in \<open>simp_all add: state_ok_def setFromExitStatus_def\<close>)
qed

lemma SetRestarting_spec:
  assumes "state_ok s"
  obtains s' where "State_SetRestarting es now s = Some s'" "state_ok s'" "Running s'" "closedChans s' = {..<nextChan s}"
    "nextChan s' = nextChan s + 1" "exitCode s' = esExitCode es" "Paused s' = Paused s" "Restarting s'"
proof -
  let ?s = "setFromExitStatus es (s\<lparr>Running := True, Restarting := True, Pid := 0, FinishedAt := now\<rparr>)"
  have ok: "chans_ok ?s" using assms by (simp add: state_ok_def setFromExitStatus_def chans_ok_def)
  let ?s' = "?s\<lparr>closedChans := {..<nextChan ?s}, waitChan := nextChan ?s, nextChan := nextChan ?s + 1\<rparr>"
  have run: "State_SetRestarting es now s = Some ?s'" unfolding State_SetRestarting_def by (rule fireWaiters_ok(1) [OF ok])
  show thesis
    by (rule that [OF run]) (use assms fireWaiters_ok(2) [OF ok] in \<open>simp_all add: state_ok_def setFromExitStatus_def\<close>)
qed

end
