(* ===== verification/Container_Lifecycle.thy ===== *)
theory Container_Lifecycle
  imports Container_State "HOL-Library.Sublist"
begin

text \<open>
  The life of a container: the handler of state changes \<^verbatim>\<open>src/daemon/monitor.go\<close>
  (and \<^verbatim>\<open>monitor_linux.go\<close>), the calls that start, pause, resume and kill
  (\<^verbatim>\<open>src/daemon/start.go\<close>, \<^verbatim>\<open>pause.go\<close>, \<^verbatim>\<open>unpause.go\<close>, \<^verbatim>\<open>kill.go\<close>), the parts of
  \<^verbatim>\<open>src/container/container.go\<close> they use, and the event side of libcontainerd
  (\<^verbatim>\<open>src/libcontainerd/container_linux.go\<close>, \<^verbatim>\<open>queue_linux.go\<close>).

  Each function is the effect on the container; what mounts, networks, disks and containerd
  answer are arguments.  Published events are appended to \<open>cEvents\<close>.  The restart manager is
  one object that the container and libcontainerd share.
\<close>

section \<open>The container\<close>

record execConfig =
  exExitCode :: "int option"
  exRunning :: bool

record Container =
  cID :: string
  cPath :: string
  cstate :: State
  RestartCount :: int
  HasBeenManuallyStopped :: bool
  cRestartManager :: "restartManager option"
  hcRestartPolicy :: RestartPolicy
  healthTest :: "string list option"
  ExecCommands :: "string set"
  daemonExecs :: "string \<rightharpoonup> execConfig"
  cEvents :: "string list"

datatype eventState =
  StateStart | StatePause | StateResume | StateExit | StateRestart | StateRestore | StateExitProcess | StateOOM

record StateInfo =
  siState :: eventState
  siPid :: "32 word"
  siExitCode :: "32 word"
  siProcessID :: string
  siOOMKilled :: bool

definition platformConstructExitStatus :: "StateInfo \<Rightarrow> ExitStatus" where
  "platformConstructExitStatus e = \<lparr>esExitCode = uint (siExitCode e), esOOMKilled = siOOMKilled e\<rparr>"

definition logEvent :: "string \<Rightarrow> Container \<Rightarrow> Container" where
  "logEvent a c = c\<lparr>cEvents := cEvents c @ [a]\<rparr>"

text \<open>
  The exec commands: the ids the container has, and the daemon's store of their configurations,
  which keeps a finished one for inspection.  \<open>unregisterExecs\<close> is the loop of \<open>Cleanup\<close>.
\<close>

definition registerExecCommand :: "string \<Rightarrow> execConfig \<Rightarrow> Container \<Rightarrow> Container" where
  "registerExecCommand i x c = c\<lparr>ExecCommands := insert i (ExecCommands c), daemonExecs := (daemonExecs c)(i \<mapsto> x)\<rparr>"

definition unregisterExecs :: "Container \<Rightarrow> Container" where
  "unregisterExecs c = c\<lparr>ExecCommands := {}, daemonExecs := daemonExecs c |` (- ExecCommands c)\<rparr>"

definition Container_RestartManager :: "bool \<Rightarrow> Container \<Rightarrow> Container" where
  "Container_RestartManager reset c =
     (let c1 = (if reset then c\<lparr>RestartCount := 0, cRestartManager := None\<rparr> else c)
      in case cRestartManager c1 of
           None \<Rightarrow> c1\<lparr>cRestartManager := Some (newRestartManager (hcRestartPolicy c1) (RestartCount c1))\<rparr>
         | Some _ \<Rightarrow> c1)"

definition Container_UpdateMonitor :: "RestartPolicy \<Rightarrow> Container \<Rightarrow> Container" where
  "Container_UpdateMonitor policy c =
     (let c1 = Container_RestartManager False c
      in c1\<lparr>cRestartManager := map_option (restartManager_SetPolicy policy) (cRestartManager c1)\<rparr>)"

definition Container_ExitOnNext :: "Container \<Rightarrow> Container option" where
  "Container_ExitOnNext c =
     (case cRestartManager c of
        None \<Rightarrow> Some c
      | Some rm \<Rightarrow> map_option (\<lambda>rm'. c\<lparr>cRestartManager := Some rm'\<rparr>) (restartManager_Cancel rm))"

text \<open>The monitor thread is started, or told to stop, which the send waits for.\<close>

definition closeMonitor :: "Container \<Rightarrow> Container" where
  "closeMonitor c = c\<lparr>cstate := (cstate c)\<lparr>stHealth := map_option (hStop_update (\<lambda>_. False)) (stHealth (cstate c))\<rparr>\<rparr>"

definition updateHealthMonitor :: "Container \<Rightarrow> Container" where
  "updateHealthMonitor c =
     (case stHealth (cstate c) of
        None \<Rightarrow> c
      | Some h \<Rightarrow>
          if Running (cstate c) \<and> \<not> Paused (cstate c) \<and> getProbe (healthTest c) \<noteq> None
          then c\<lparr>cstate := (cstate c)\<lparr>stHealth := Some (snd (OpenMonitorChannel h))\<rparr>\<rparr>
          else closeMonitor c)"

definition initHealthMonitor :: "Container \<Rightarrow> Container" where
  "initHealthMonitor c =
     (if getProbe (healthTest c) = None then c
      else
        (let c1 = closeMonitor c;
             h = (case stHealth (cstate c1) of
                    Some h \<Rightarrow> h\<lparr>hStatus := Starting, FailingStreak := 0\<rparr>
                  | None \<Rightarrow> \<lparr>hStatus = Starting, FailingStreak = 0, hLog = [], hStop = False\<rparr>)
         in updateHealthMonitor (c1\<lparr>cstate := (cstate c1)\<lparr>stHealth := Some h\<rparr>\<rparr>)))"

section \<open>The handler of state changes\<close>

text \<open>
  \<open>None\<close>: panic.  \<open>disk\<close> is the error of \<open>ToDisk\<close>, if any.  Of \<open>Cleanup\<close> the effect on the
  container is modelled, which is that it forgets the exec commands.
\<close>

definition stateChanged_exit ::
    "StateInfo \<Rightarrow> int \<Rightarrow> string option \<Rightarrow> Container \<Rightarrow> (string option \<times> Container) option" where
  "stateChanged_exit e now disk c =
     (case State_SetStopped (platformConstructExitStatus e) now (cstate c) of
        None \<Rightarrow> None
      | Some s \<Rightarrow> Some (disk, unregisterExecs (logEvent ''die'' (updateHealthMonitor (c\<lparr>cstate := s\<rparr>)))))"

definition stateChanged_restart ::
    "StateInfo \<Rightarrow> int \<Rightarrow> string option \<Rightarrow> Container \<Rightarrow> (string option \<times> Container) option" where
  "stateChanged_restart e now disk c =
     (case State_SetRestarting (platformConstructExitStatus e) now (cstate c) of
        None \<Rightarrow> None
      | Some s \<Rightarrow>
          Some (disk, updateHealthMonitor (logEvent ''die'' (c\<lparr>cstate := s, RestartCount := RestartCount c + 1\<rparr>))))"

definition stateChanged_exitProcess :: "StateInfo \<Rightarrow> Container \<Rightarrow> Container" where
  "stateChanged_exitProcess e c =
     (if siProcessID e \<in> ExecCommands c then
        c\<lparr>daemonExecs := (daemonExecs c)(siProcessID e :=
             map_option (\<lambda>x. x\<lparr>exExitCode := Some (uint (siExitCode e)), exRunning := False\<rparr>) (daemonExecs c (siProcessID e))),
          ExecCommands := ExecCommands c - {siProcessID e}\<rparr>
      else c)"

definition stateChanged_start ::
    "StateInfo \<Rightarrow> int \<Rightarrow> string option \<Rightarrow> Container \<Rightarrow> string option \<times> Container" where
  "stateChanged_start e now disk c =
     (let c1 = c\<lparr>cstate := State_SetRunning (uint (siPid e)) (siState e = StateStart) now (cstate c),
                 HasBeenManuallyStopped := False\<rparr>
      in case disk of
           Some err \<Rightarrow> (Some err, c1)
         | None \<Rightarrow> (None, logEvent ''start'' (initHealthMonitor c1)))"

definition containerStateChanged ::
    "StateInfo \<Rightarrow> int \<Rightarrow> string option \<Rightarrow> Container \<Rightarrow> (string option \<times> Container) option" where
  "containerStateChanged e now disk c =
     (case siState e of
        StateOOM \<Rightarrow> Some (None, logEvent ''oom'' (updateHealthMonitor c))
      | StateExit \<Rightarrow> stateChanged_exit e now disk c
      | StateRestart \<Rightarrow> stateChanged_restart e now disk c
      | StateExitProcess \<Rightarrow> Some (None, stateChanged_exitProcess e c)
      | StateStart \<Rightarrow> Some (stateChanged_start e now disk c)
      | StateRestore \<Rightarrow> Some (stateChanged_start e now disk c)
      | StatePause \<Rightarrow> Some (None, logEvent ''pause'' (updateHealthMonitor (c\<lparr>cstate := (cstate c)\<lparr>Paused := True\<rparr>\<rparr>)))
      | StateResume \<Rightarrow> Some (None, logEvent ''unpause'' (updateHealthMonitor (c\<lparr>cstate := (cstate c)\<lparr>Paused := False\<rparr>\<rparr>))))"

definition Daemon_StateChanged ::
    "string \<Rightarrow> StateInfo \<Rightarrow> int \<Rightarrow> string option \<Rightarrow> (string \<rightharpoonup> Container) \<Rightarrow>
     (string option \<times> (string \<rightharpoonup> Container)) option" where
  "Daemon_StateChanged i e now disk m =
     (case m i of
        None \<Rightarrow> Some (Some ''no such container'', m)
      | Some c \<Rightarrow> map_option (\<lambda>(r, c'). (r, m(i \<mapsto> c'))) (containerStateChanged e now disk c))"

section \<open>Calls of the API\<close>

datatype apiError =
  ErrNotRunning | ErrAlreadyPaused | ErrNotPaused | ErrIsRestarting | ErrIsPaused | ErrMarkedForRemoval | ErrRuntime string

text \<open>\<open>Inr True\<close>: the request goes to containerd.\<close>

definition containerPause :: "Container \<Rightarrow> apiError + unit" where
  "containerPause c =
     (if \<not> Running (cstate c) then Inl ErrNotRunning
      else if Paused (cstate c) then Inl ErrAlreadyPaused
      else if Restarting (cstate c) then Inl ErrIsRestarting
      else Inr ())"

definition containerUnpause :: "Container \<Rightarrow> apiError + unit" where
  "containerUnpause c =
     (if \<not> Running (cstate c) then Inl ErrNotRunning
      else if \<not> Paused (cstate c) then Inl ErrNotPaused
      else Inr ())"

text \<open>
  What the environment of \<open>containerStart\<close> answers: the error of the preparation (mount,
  network, specification, options), and what containerd says, with the pid of the new process.
\<close>

definition startFailed :: "string \<Rightarrow> Container \<Rightarrow> Container" where
  "startFailed err c =
     (let s1 = State_SetError err (cstate c);
          s2 = (if exitCode s1 = 0 then State_SetExitCode 128 s1 else s1)
      in unregisterExecs (c\<lparr>cstate := s2\<rparr>))"

definition createFailed :: "string \<Rightarrow> Container \<Rightarrow> Container" where
  "createFailed errDesc c =
     (let s1 = (if sublist (cPath c) errDesc \<and>
                   (sublist ''executable file not found'' errDesc \<or> sublist ''no such file or directory'' errDesc \<or>
                    sublist ''system cannot find the file specified'' errDesc)
                then State_SetExitCode 127 (cstate c) else cstate c);
          s2 = (if sublist ''permission denied'' errDesc then State_SetExitCode 126 s1 else s1)
      in c\<lparr>cstate := s2\<rparr>)"

definition containerStart ::
    "string option \<Rightarrow> (string + 32 word) \<Rightarrow> int \<Rightarrow> string option \<Rightarrow> Container \<Rightarrow> (apiError option \<times> bool) \<times> Container" where
  "containerStart prep create now disk c =
     (if Running (cstate c) then ((None, False), c)
      else if RemovalInProgress (cstate c) \<or> Dead (cstate c) then ((Some ErrMarkedForRemoval, False), c)
      else case prep of
        Some err \<Rightarrow> ((Some (ErrRuntime err), False), startFailed err c)
      | None \<Rightarrow>
          (let c1 = Container_RestartManager True c
           in case create of
                Inl err \<Rightarrow> ((Some (ErrRuntime err), False), startFailed err (createFailed err c1))
              | Inr pid \<Rightarrow>
                  (case stateChanged_start \<lparr>siState = StateStart, siPid = pid, siExitCode = 0, siProcessID = [], siOOMKilled = False\<rparr>
                          now disk c1 of
                     (None, c2) \<Rightarrow> ((None, True), c2)
                   | (Some err, c2) \<Rightarrow> ((Some (ErrRuntime err), True), startFailed err (createFailed err c2)))))"

text \<open>The flag of the result says that the signal was sent; \<open>sig\<close> is what containerd answers.\<close>

definition killWithSignal :: "bool \<Rightarrow> string option \<Rightarrow> Container \<Rightarrow> ((apiError option \<times> bool) \<times> Container) option" where
  "killWithSignal shuttingDown sig c =
     (if Paused (cstate c) then Some ((Some ErrIsPaused, False), c)
      else if \<not> Running (cstate c) then Some ((Some ErrNotRunning, False), c)
      else case Container_ExitOnNext c of
        None \<Rightarrow> None
      | Some c1 \<Rightarrow>
          (let c2 = (if shuttingDown then c1 else c1\<lparr>HasBeenManuallyStopped := True\<rparr>)
           in if Restarting (cstate c2) then Some ((None, False), c2)
              else case sig of
                None \<Rightarrow> Some ((None, True), logEvent ''kill'' c2)
              | Some err \<Rightarrow>
                  if sublist ''container not found'' err \<or> sublist ''no such process'' err
                  then Some ((None, True), logEvent ''kill'' c2)
                  else Some ((Some (ErrRuntime err), True), c2)))"

section \<open>Events of containerd\<close>

record ctr =
  ctrRestarting :: bool
  ctrOom :: bool

text \<open>
  \<open>handleEvent\<close> for the events it handles: the change of state to report, whether a restart is
  to be waited for, and the shared restart manager.  \<open>InitFriendlyName\<close> is the process id of
  the first process.
\<close>

definition InitFriendlyName :: string where
  "InitFriendlyName = ''init''"

definition container_handleEvent ::
    "eventState \<Rightarrow> string \<Rightarrow> 32 word \<Rightarrow> 64 word \<Rightarrow> ctr \<Rightarrow> restartManager option \<Rightarrow>
     StateInfo \<times> ctr \<times> restartManager option" where
  "container_handleEvent t pid status since k rm =
     (let st = \<lparr>siState = t, siPid = 0, siExitCode = status, siProcessID = [], siOOMKilled = (t = StateExit \<and> ctrOom k)\<rparr>;
          k1 = (if t = StateOOM then k\<lparr>ctrOom := True\<rparr> else k);
          st1 = (if t = StateExit \<and> pid \<noteq> InitFriendlyName then st\<lparr>siProcessID := pid, siState := StateExitProcess\<rparr> else st)
      in case (siState st1 = StateExit, rm) of
           (True, Some m) \<Rightarrow>
             (case restartManager_ShouldRestart status False since m of
                (Inr True, m') \<Rightarrow> (st1\<lparr>siState := StateRestart\<rparr>, k1\<lparr>ctrRestarting := True\<rparr>, Some m')
              | (_, m') \<Rightarrow> (st1, k1, Some m'))
         | _ \<Rightarrow> (st1, k1, rm))"

section \<open>The whole system\<close>

text \<open>
  A configuration: the container as the daemon has it, the process as containerd has it, the
  queue of state changes that are reported but not yet handled (\<open>queue.append\<close> runs the
  functions of one container in order), and a restart that is waited for.
\<close>

datatype runtime = RtDown | RtUp | RtFrozen

record sys =
  cont :: Container
  rt :: runtime
  evq :: "StateInfo list"
  pend :: "StateInfo option"
  libctr :: ctr

definition startInfo :: "32 word \<Rightarrow> StateInfo" where
  "startInfo pid = \<lparr>siState = StateStart, siPid = pid, siExitCode = 0, siProcessID = [], siOOMKilled = False\<rparr>"

definition eventInfo :: "eventState \<Rightarrow> StateInfo" where
  "eventInfo t = \<lparr>siState = t, siPid = 0, siExitCode = 0, siProcessID = [], siOOMKilled = False\<rparr>"

inductive sstep :: "sys \<Rightarrow> sys \<Rightarrow> bool" where
  exit: "rt y \<noteq> RtDown \<Longrightarrow>
    container_handleEvent StateExit InitFriendlyName status since (libctr y) (cRestartManager (cont y)) = (st, k, m) \<Longrightarrow>
    sstep y (y\<lparr>rt := RtDown, evq := evq y @ [st], libctr := k, cont := (cont y)\<lparr>cRestartManager := m\<rparr>\<rparr>)"
| oom: "rt y \<noteq> RtDown \<Longrightarrow>
    container_handleEvent StateOOM InitFriendlyName 0 0 (libctr y) (cRestartManager (cont y)) = (st, k, m) \<Longrightarrow>
    sstep y (y\<lparr>evq := evq y @ [st], libctr := k\<rparr>)"
| pause: "containerPause (cont y) = Inr () \<Longrightarrow> rt y = RtUp \<Longrightarrow>
    sstep y (y\<lparr>rt := RtFrozen, evq := evq y @ [eventInfo StatePause]\<rparr>)"
| resume: "containerUnpause (cont y) = Inr () \<Longrightarrow> rt y = RtFrozen \<Longrightarrow>
    sstep y (y\<lparr>rt := RtUp, evq := evq y @ [eventInfo StateResume]\<rparr>)"
| deliver: "evq y = e # q \<Longrightarrow> containerStateChanged e now disk (cont y) = Some (r, c) \<Longrightarrow>
    sstep y (y\<lparr>cont := c, evq := q, pend := (if siState e = StateRestart then Some e else pend y)\<rparr>)"
| fired: "pend y = Some st \<Longrightarrow> cRestartManager (cont y) = Some m \<Longrightarrow>
    stateChanged_start (startInfo pid) now disk ((cont y)\<lparr>cRestartManager := Some (restart_fired m)\<rparr>) = (None, c) \<Longrightarrow>
    sstep y (y\<lparr>cont := c, rt := RtUp, pend := None, libctr := (libctr y)\<lparr>ctrRestarting := False\<rparr>\<rparr>)"
| not_restarted: "pend y = Some st \<Longrightarrow>
    sstep y (y\<lparr>pend := None, evq := evq y @ [st\<lparr>siState := StateExit\<rparr>], libctr := (libctr y)\<lparr>ctrRestarting := False\<rparr>\<rparr>)"
| start: "rt y = RtDown \<Longrightarrow> \<not> Running (cstate (cont y)) \<Longrightarrow> containerStart prep create now disk (cont y) = ((r, up), c) \<Longrightarrow>
    sstep y (y\<lparr>cont := c, rt := (if up then RtUp else RtDown)\<rparr>)"
| kill: "killWithSignal b sig (cont y) = Some (r, c) \<Longrightarrow> sstep y (y\<lparr>cont := c\<rparr>)"

definition newContainer :: "string \<Rightarrow> string \<Rightarrow> RestartPolicy \<Rightarrow> string list option \<Rightarrow> Container" where
  "newContainer i p policy test =
     \<lparr>cID = i, cPath = p, cstate = NewState, RestartCount = 0, HasBeenManuallyStopped = False, cRestartManager = None,
      hcRestartPolicy = policy, healthTest = test, ExecCommands = {}, daemonExecs = Map.empty, cEvents = []\<rparr>"

definition sysInit :: "string \<Rightarrow> string \<Rightarrow> RestartPolicy \<Rightarrow> string list option \<Rightarrow> sys" where
  "sysInit i p policy test =
     \<lparr>cont = newContainer i p policy test, rt = RtDown, evq = [], pend = None, libctr = \<lparr>ctrRestarting = False, ctrOom = False\<rparr>\<rparr>"

text \<open>What the flags will be when the queue is handled.\<close>

fun effect :: "eventState \<Rightarrow> bool \<times> bool \<times> bool \<Rightarrow> bool \<times> bool \<times> bool" where
  "effect StateExit (r, p, x) = (False, False, False)"
| "effect StateRestart (r, p, x) = (True, p, True)"
| "effect StatePause (r, p, x) = (r, True, x)"
| "effect StateResume (r, p, x) = (r, False, x)"
| "effect _ f = f"

definition flags :: "State \<Rightarrow> bool \<times> bool \<times> bool" where
  "flags s = (Running s, Paused s, Restarting s)"

definition drained :: "sys \<Rightarrow> bool \<times> bool \<times> bool" where
  "drained y = fold (effect \<circ> siState) (evq y) (flags (cstate (cont y)))"

definition minor :: "StateInfo \<Rightarrow> bool" where
  "minor e \<longleftrightarrow> siState e \<in> {StatePause, StateResume, StateOOM}"

definition sinv :: "sys \<Rightarrow> bool" where
  "sinv y \<longleftrightarrow>
     state_ok (cstate (cont y)) \<and>
     (evq y \<noteq> [] \<or> pend y \<noteq> None \<or> rt y \<noteq> RtDown \<longrightarrow> Running (cstate (cont y))) \<and>
     (case rt y of
        RtUp \<Rightarrow> pend y = None \<and> list_all minor (evq y) \<and> drained y = (True, False, False)
      | RtFrozen \<Rightarrow> pend y = None \<and> list_all minor (evq y) \<and> drained y = (True, True, False)
      | RtDown \<Rightarrow>
          (case pend y of
             Some st \<Rightarrow> evq y = [] \<and> Restarting (cstate (cont y)) \<and> cRestartManager (cont y) \<noteq> None
           | None \<Rightarrow>
               if evq y = [] then flags (cstate (cont y)) = (False, False, False)
               else list_all minor (butlast (evq y)) \<and> siState (last (evq y)) \<in> {StateExit, StateRestart} \<and>
                    (siState (last (evq y)) = StateRestart \<longrightarrow> cRestartManager (cont y) \<noteq> None)))"

subsection \<open>Health and events leave the flags alone\<close>

definition sameFlags :: "Container \<Rightarrow> Container \<Rightarrow> bool" where
  "sameFlags c c' \<longleftrightarrow>
     flags (cstate c') = flags (cstate c) \<and> state_ok (cstate c') = state_ok (cstate c) \<and> cRestartManager c' = cRestartManager c"

lemma state_ok_health [simp]: "state_ok (s\<lparr>stHealth := h\<rparr>) = state_ok s"
  by (simp add: state_ok_def chans_ok_def)

lemma sameFlags_simps [simp]:
  "sameFlags c c" "sameFlags c (logEvent a c') = sameFlags c c'" "sameFlags c (closeMonitor c') = sameFlags c c'"
  "sameFlags c (unregisterExecs c') = sameFlags c c'" "sameFlags c (c'\<lparr>HasBeenManuallyStopped := b\<rparr>) = sameFlags c c'"
  "sameFlags c (c'\<lparr>cstate := (cstate c')\<lparr>stHealth := h\<rparr>\<rparr>) = sameFlags c c'"
  by (simp_all add: sameFlags_def flags_def logEvent_def closeMonitor_def unregisterExecs_def)

lemma sameFlags_update [simp]: "sameFlags c (updateHealthMonitor c') = sameFlags c c'"
  by (simp add: updateHealthMonitor_def split: option.split)

lemma sameFlags_init [simp]: "sameFlags c (initHealthMonitor c') = sameFlags c c'"
  unfolding initHealthMonitor_def Let_def by (simp split: option.split)

lemma flags_sel: "flags s = (r, p, x) \<longleftrightarrow> Running s = r \<and> Paused s = p \<and> Restarting s = x"
  by (simp add: flags_def)

lemma minor_changed:
  assumes "minor e" and "containerStateChanged e now disk c = Some (r, c')" and "state_ok (cstate c)" and "Running (cstate c)"
  shows "flags (cstate c') = effect (siState e) (flags (cstate c))" and "state_ok (cstate c')" and "Running (cstate c')"
    and "cRestartManager c' = cRestartManager c"
proof -
  consider "siState e = StatePause" | "siState e = StateResume" | "siState e = StateOOM" using assms(1) by (auto simp: minor_def)
  then have "\<exists>d. sameFlags d c' \<and> flags (cstate d) = effect (siState e) (flags (cstate c)) \<and> state_ok (cstate d) \<and> Running (cstate d) \<and>
      cRestartManager d = cRestartManager c"
  proof cases
    case 1
    then have c': "c' = logEvent ''pause'' (updateHealthMonitor (c\<lparr>cstate := (cstate c)\<lparr>Paused := True\<rparr>\<rparr>))"
      using assms(2) by (simp add: containerStateChanged_def)
    have "sameFlags (c\<lparr>cstate := (cstate c)\<lparr>Paused := True\<rparr>\<rparr>) c'" unfolding c' by simp
    with 1 assms(3,4) show ?thesis
      by (intro exI [of _ "c\<lparr>cstate := (cstate c)\<lparr>Paused := True\<rparr>\<rparr>"]) (simp add: flags_def state_ok_def chans_ok_def)
  next
    case 2
    then have c': "c' = logEvent ''unpause'' (updateHealthMonitor (c\<lparr>cstate := (cstate c)\<lparr>Paused := False\<rparr>\<rparr>))"
      using assms(2) by (simp add: containerStateChanged_def)
    have "sameFlags (c\<lparr>cstate := (cstate c)\<lparr>Paused := False\<rparr>\<rparr>) c'" unfolding c' by simp
    with 2 assms(3,4) show ?thesis
      by (intro exI [of _ "c\<lparr>cstate := (cstate c)\<lparr>Paused := False\<rparr>\<rparr>"]) (simp add: flags_def state_ok_def chans_ok_def)
  next
    case 3
    then have c': "c' = logEvent ''oom'' (updateHealthMonitor c)" using assms(2) by (simp add: containerStateChanged_def)
    have "sameFlags c c'" unfolding c' by simp
    with 3 assms(3,4) show ?thesis by (intro exI [of _ c]) (simp add: flags_def)
  qed
  then obtain d where d: "sameFlags d c'" "flags (cstate d) = effect (siState e) (flags (cstate c))" "state_ok (cstate d)"
    "Running (cstate d)" "cRestartManager d = cRestartManager c" by blast
  from d(1) have f: "flags (cstate c') = flags (cstate d)" "state_ok (cstate c') = state_ok (cstate d)"
    "cRestartManager c' = cRestartManager d" by (simp_all add: sameFlags_def)
  show "flags (cstate c') = effect (siState e) (flags (cstate c))" "state_ok (cstate c')" "cRestartManager c' = cRestartManager c"
    using f d by simp_all
  show "Running (cstate c')" using f(1) d(4) by (simp add: flags_def)
qed

lemma exit_changed:
  assumes "siState e = StateExit" and "containerStateChanged e now disk c = Some (r, c')" and "state_ok (cstate c)"
  shows "flags (cstate c') = (False, False, False)" and "state_ok (cstate c')" and "cRestartManager c' = cRestartManager c"
proof -
  obtain s where s: "State_SetStopped (platformConstructExitStatus e) now (cstate c) = Some s" "state_ok s"
    "\<not> Running s" "\<not> Paused s" "\<not> Restarting s"
    by (rule SetStopped_spec [OF assms(3)]) blast
  have "sameFlags (c\<lparr>cstate := s\<rparr>) c'" using assms(1,2) s by (auto simp: containerStateChanged_def stateChanged_exit_def)
  with s show "flags (cstate c') = (False, False, False)" "state_ok (cstate c')" "cRestartManager c' = cRestartManager c"
    by (simp_all add: sameFlags_def flags_def)
qed

lemma restart_changed:
  assumes "siState e = StateRestart" and "containerStateChanged e now disk c = Some (r, c')" and "state_ok (cstate c)"
  shows "flags (cstate c') = (True, Paused (cstate c), True)" and "state_ok (cstate c')" and "cRestartManager c' = cRestartManager c"
proof -
  obtain s where s: "State_SetRestarting (platformConstructExitStatus e) now (cstate c) = Some s" "state_ok s"
    "Running s" "Paused s = Paused (cstate c)" "Restarting s"
    by (rule SetRestarting_spec [OF assms(3)]) blast
  have "sameFlags (c\<lparr>cstate := s, RestartCount := RestartCount c + 1\<rparr>) c'"
    using assms(1,2) s by (auto simp: containerStateChanged_def stateChanged_restart_def)
  with s show "flags (cstate c') = (True, Paused (cstate c), True)" "state_ok (cstate c')" "cRestartManager c' = cRestartManager c"
    by (simp_all add: sameFlags_def flags_def)
qed

lemma start_changed:
  assumes "stateChanged_start e now disk c = (r, c')" and "state_ok (cstate c)"
  shows "flags (cstate c') = (True, False, False)" and "state_ok (cstate c')"
proof -
  let ?d = "c\<lparr>cstate := State_SetRunning (uint (siPid e)) (siState e = StateStart) now (cstate c), HasBeenManuallyStopped := False\<rparr>"
  have "sameFlags ?d c'" using assms(1) by (auto simp: stateChanged_start_def Let_def split: option.splits)
  moreover have "flags (cstate ?d) = (True, False, False)" by (simp add: flags_def State_SetRunning_def Let_def)
  moreover have "state_ok (cstate ?d)" using SetRunning_ok [OF assms(2)] by simp
  ultimately show "flags (cstate c') = (True, False, False)" "state_ok (cstate c')" by (simp_all add: sameFlags_def)
qed

lemma failed_flags:
  "flags (cstate (startFailed e c)) = flags (cstate c)" "state_ok (cstate (startFailed e c)) = state_ok (cstate c)"
  "flags (cstate (createFailed e c)) = flags (cstate c)" "state_ok (cstate (createFailed e c)) = state_ok (cstate c)"
  by (simp_all add: startFailed_def createFailed_def Let_def flags_def state_ok_def chans_ok_def State_SetError_def State_SetExitCode_def unregisterExecs_def)

lemma RestartManager_sel: "cstate (Container_RestartManager b c) = cstate c" "cRestartManager (Container_RestartManager b c) \<noteq> None"
  by (simp_all add: Container_RestartManager_def Let_def split: option.split)

lemma containerStart_spec:
  assumes "containerStart prep create now disk c = ((r, up), c')" and "state_ok (cstate c)"
    and down: "flags (cstate c) = (False, False, False)"
  shows "state_ok (cstate c')" and "flags (cstate c') = (up, False, False)"
proof -
  let ?c1 = "Container_RestartManager True c"
  have c1: "cstate ?c1 = cstate c" by (rule RestartManager_sel)
  have nr: "\<not> Running (cstate c)" using down by (simp add: flags_def)
  have "state_ok (cstate c') \<and> flags (cstate c') = (up, False, False)"
  proof (cases "RemovalInProgress (cstate c) \<or> Dead (cstate c)")
    case True
    with assms nr show ?thesis by (auto simp: containerStart_def)
  next
    case False
    show ?thesis
    proof (cases prep)
      case (Some e)
      with assms nr False show ?thesis by (auto simp: containerStart_def failed_flags)
    next
      case None
      show ?thesis
      proof (cases create)
        case (Inl e)
        with None assms nr False c1 show ?thesis by (auto simp: containerStart_def Let_def failed_flags)
      next
        case (Inr pid)
        obtain r2 c2 where st: "stateChanged_start \<lparr>siState = StateStart, siPid = pid, siExitCode = 0, siProcessID = [], siOOMKilled = False\<rparr>
            now disk ?c1 = (r2, c2)" by (rule prod.exhaust)
        have "state_ok (cstate ?c1)" using assms(2) c1 by simp
        note s = start_changed [OF st this]
        have "up \<and> (c' = c2 \<or> (\<exists>e. c' = startFailed e (createFailed e c2)))"
          using None Inr assms(1) nr False st by (auto simp: containerStart_def Let_def split: option.splits)
        with s show ?thesis by (auto simp: failed_flags)
      qed
    qed
  qed
  then show "state_ok (cstate c')" "flags (cstate c') = (up, False, False)" by blast+
qed

lemma killWithSignal_spec:
  assumes "killWithSignal b sig c = Some (r, c')"
  shows "cstate c' = cstate c" and "cRestartManager c \<noteq> None \<Longrightarrow> cRestartManager c' \<noteq> None"
proof -
  have exit: "cstate c1 = cstate c \<and> (cRestartManager c \<noteq> None \<longrightarrow> cRestartManager c1 \<noteq> None)" if "Container_ExitOnNext c = Some c1" for c1
    using that by (auto simp: Container_ExitOnNext_def split: option.splits)
  have "c' = c \<or> (\<exists>c1. Container_ExitOnNext c = Some c1 \<and> cstate c' = cstate c1 \<and> cRestartManager c' = cRestartManager c1)"
    using assms unfolding killWithSignal_def Let_def
    by (auto simp: logEvent_def split: if_splits option.splits)
  then show "cstate c' = cstate c" "cRestartManager c \<noteq> None \<Longrightarrow> cRestartManager c' \<noteq> None" using exit by auto
qed

lemma handleEvent_exit:
  assumes "container_handleEvent StateExit InitFriendlyName status since k m = (st, k', m')"
  shows "siState st = StateExit \<or> siState st = StateRestart \<and> m' \<noteq> None"
  using assms unfolding container_handleEvent_def Let_def
  by (auto split: option.splits prod.splits sum.splits bool.splits)

lemma handleEvent_oom:
  assumes "container_handleEvent StateOOM p status since k m = (st, k', m')"
  shows "siState st = StateOOM"
  using assms unfolding container_handleEvent_def Let_def by (auto split: option.splits)

lemma drained_snoc: "drained (y\<lparr>evq := evq y @ [e]\<rparr>) = effect (siState e) (drained y)"
  by (simp add: drained_def)

subsection \<open>Every step keeps the invariant\<close>

lemma sinvD:
  assumes "sinv y"
  shows "state_ok (cstate (cont y))"
    and "evq y \<noteq> [] \<or> pend y \<noteq> None \<or> rt y \<noteq> RtDown \<Longrightarrow> Running (cstate (cont y))"
    and "rt y = RtUp \<Longrightarrow> pend y = None \<and> list_all minor (evq y) \<and> drained y = (True, False, False)"
    and "rt y = RtFrozen \<Longrightarrow> pend y = None \<and> list_all minor (evq y) \<and> drained y = (True, True, False)"
    and "pend y \<noteq> None \<Longrightarrow> rt y = RtDown \<and> evq y = [] \<and> Restarting (cstate (cont y)) \<and> cRestartManager (cont y) \<noteq> None"
    and "rt y = RtDown \<Longrightarrow> pend y = None \<Longrightarrow> evq y = [] \<Longrightarrow> flags (cstate (cont y)) = (False, False, False)"
    and "rt y = RtDown \<Longrightarrow> pend y = None \<Longrightarrow> evq y \<noteq> [] \<Longrightarrow>
           list_all minor (butlast (evq y)) \<and> siState (last (evq y)) \<in> {StateExit, StateRestart} \<and>
           (siState (last (evq y)) = StateRestart \<longrightarrow> cRestartManager (cont y) \<noteq> None)"
  using assms unfolding sinv_def by (auto split: runtime.splits option.splits if_splits)

lemma sinv_up:
  assumes "state_ok (cstate (cont y))" "Running (cstate (cont y))" "pend y = None" "list_all minor (evq y)"
    and "rt y = RtUp \<and> drained y = (True, False, False) \<or> rt y = RtFrozen \<and> drained y = (True, True, False)"
  shows "sinv y"
  using assms by (auto simp: sinv_def)

lemma sinv_dying:
  assumes "state_ok (cstate (cont y))" "Running (cstate (cont y))" "pend y = None" "rt y = RtDown"
    and "evq y = es @ [e]" "list_all minor es" "siState e = StateExit \<or> siState e = StateRestart \<and> cRestartManager (cont y) \<noteq> None"
  shows "sinv y"
  using assms by (auto simp: sinv_def)

lemma sinv_down:
  assumes "state_ok (cstate (cont y))" "flags (cstate (cont y)) = (False, False, False)" "pend y = None" "rt y = RtDown" "evq y = []"
  shows "sinv y"
  using assms by (auto simp: sinv_def)

lemma sinv_pending:
  assumes "state_ok (cstate (cont y))" "flags (cstate (cont y)) = (True, p, True)" "pend y \<noteq> None" "rt y = RtDown" "evq y = []"
    "cRestartManager (cont y) \<noteq> None"
  shows "sinv y"
  using assms by (auto simp: sinv_def flags_def)

lemma deliver_inv:
  assumes inv: "sinv y" and q: "evq y = e # q" and run: "containerStateChanged e now disk (cont y) = Some (r, c)"
  shows "sinv (y\<lparr>cont := c, evq := q, pend := (if siState e = StateRestart then Some e else pend y)\<rparr>)" (is "sinv ?y")
proof -
  note ok = sinvD(1) [OF inv]
  have running: "Running (cstate (cont y))" by (rule sinvD(2) [OF inv]) (simp add: q)
  have pend: "pend y = None" using sinvD(5) [OF inv] q by fastforce
  show ?thesis
  proof (cases "minor e")
    case True
    note m = minor_changed [OF True run ok running]
    have nr: "siState e \<noteq> StateRestart" using True by (auto simp: minor_def)
    have dr: "drained ?y = drained y" using m(1) by (simp add: drained_def q)
    show ?thesis
    proof (cases "rt y = RtDown")
      case False
      then have "list_all minor (evq y)" "rt y = RtUp \<and> drained y = (True, False, False) \<or> rt y = RtFrozen \<and> drained y = (True, True, False)"
        using sinvD(3,4) [OF inv] by (cases "rt y"; simp)+
      with m nr pend q dr show ?thesis by (intro sinv_up) simp_all
    next
      case True
      have dying: "list_all minor (butlast (evq y))" "siState (last (evq y)) \<in> {StateExit, StateRestart}"
        "siState (last (evq y)) = StateRestart \<longrightarrow> cRestartManager (cont y) \<noteq> None"
        using sinvD(7) [OF inv True pend] q by auto
      then have "q \<noteq> []" using q \<open>minor e\<close> by (auto simp: minor_def)
      then have "list_all minor (butlast q)" "q = butlast q @ [last q]" "last (evq y) = last q" using dying q by simp_all
      with m nr pend True dying show ?thesis by (intro sinv_dying [of _ "butlast q" "last q"]) auto
    qed
  next
    case False
    have down: "rt y = RtDown" using sinvD(3,4) [OF inv] False q by (cases "rt y") auto
    have dying: "list_all minor (butlast (evq y))" "siState (last (evq y)) \<in> {StateExit, StateRestart}"
      "siState (last (evq y)) = StateRestart \<longrightarrow> cRestartManager (cont y) \<noteq> None"
      using sinvD(7) [OF inv down pend] q by auto
    have "q = []" using dying(1) q False by (cases q) auto
    then consider "siState e = StateExit" | "siState e = StateRestart" "cRestartManager (cont y) \<noteq> None" using dying q by auto
    then show ?thesis
    proof cases
      case 1
      with exit_changed [OF 1 run ok] down pend \<open>q = []\<close> show ?thesis by (intro sinv_down) simp_all
    next
      case 2
      with restart_changed [OF 2(1) run ok] down pend \<open>q = []\<close> show ?thesis by (intro sinv_pending) simp_all
    qed
  qed
qed

lemma sstep_inv: "sstep y y' \<Longrightarrow> sinv y \<Longrightarrow> sinv y'"
proof (induction rule: sstep.induct)
  case (exit y status since st k m)
  have up: "pend y = None" "list_all minor (evq y)" using sinvD(3,4) [OF exit.prems] exit.hyps(1) by (cases "rt y"; simp)+
  show ?case
    using sinvD(1,2) [OF exit.prems] exit.hyps(1) handleEvent_exit [OF exit.hyps(2)] up
    by (intro sinv_dying [of _ "evq y" st]) auto
next
  case (oom y st k m)
  let ?y = "y\<lparr>evq := evq y @ [st], libctr := k\<rparr>"
  have st: "siState st = StateOOM" by (rule handleEvent_oom [OF oom.hyps(2)])
  then have dr: "drained ?y = drained y" by (simp add: drained_def)
  have "minor st" using st by (simp add: minor_def)
  with st dr sinvD(1,2,3,4) [OF oom.prems] oom.hyps(1) show ?case by (intro sinv_up) (cases "rt y"; auto)+
next
  case (pause y)
  let ?y = "y\<lparr>rt := RtFrozen, evq := evq y @ [eventInfo StatePause]\<rparr>"
  have "drained ?y = effect StatePause (drained y)" by (simp add: drained_def eventInfo_def)
  with sinvD(1,2,3) [OF pause.prems] pause.hyps show ?case by (intro sinv_up) (auto simp: minor_def eventInfo_def)
next
  case (resume y)
  let ?y = "y\<lparr>rt := RtUp, evq := evq y @ [eventInfo StateResume]\<rparr>"
  have "drained ?y = effect StateResume (drained y)" by (simp add: drained_def eventInfo_def)
  with sinvD(1,2,4) [OF resume.prems] resume.hyps show ?case by (intro sinv_up) (auto simp: minor_def eventInfo_def)
next
  case (deliver y e q now disk r c)
  then show ?case using deliver_inv by blast
next
  case (fired y st m pid now disk c)
  have "state_ok (cstate ((cont y)\<lparr>cRestartManager := Some (restart_fired m)\<rparr>))" using sinvD(1) [OF fired.prems] by simp
  note s = start_changed [OF fired.hyps(3) this]
  have "evq y = []" using sinvD(5) [OF fired.prems] fired.hyps(1) by simp
  with s show ?case by (intro sinv_up) (simp_all add: drained_def flags_def)
next
  case (not_restarted y st)
  then show ?case using sinvD(1,2,5) [OF not_restarted.prems] by (intro sinv_dying [of _ "[]" "st\<lparr>siState := StateExit\<rparr>"]) auto
next
  case (start y prep create now disk r up c)
  have idle: "evq y = []" "pend y = None" using sinvD(2) [OF start.prems] start.hyps(2) by blast+
  then have "flags (cstate (cont y)) = (False, False, False)" using sinvD(6) [OF start.prems start.hyps(1)] by simp
  note s = containerStart_spec [OF start.hyps(3) sinvD(1) [OF start.prems] this]
  show ?case
  proof (cases up)
    case True
    with s idle show ?thesis by (intro sinv_up) (simp_all add: drained_def flags_def)
  next
    case False
    with s idle start.hyps(1) show ?thesis by (intro sinv_down) simp_all
  qed
next
  case (kill b sig y r c)
  note k = killWithSignal_spec [OF kill.hyps]
  have "drained (y\<lparr>cont := c\<rparr>) = drained y" using k by (simp add: drained_def)
  with kill.prems k show ?case unfolding sinv_def by (auto split: runtime.splits option.splits)
qed

lemma sysInit_inv: "sinv (sysInit i p policy test)"
  by (rule sinv_down) (simp_all add: sysInit_def newContainer_def NewState_ok flags_def, simp add: NewState_def)

lemma sreach_inv: "sstep\<^sup>*\<^sup>* (sysInit i p policy test) y \<Longrightarrow> sinv y"
proof (induction rule: rtranclp_induct)
  case base
  show ?case by (rule sysInit_inv)
next
  case (step y z)
  then show ?case by (blast intro: sstep_inv)
qed

section \<open>Properties\<close>




text \<open>A run: start, pause, exit of the frozen process, restart granted.\<close>

definition demoPolicy :: RestartPolicy where
  "demoPolicy = \<lparr>rpName = ''always'', MaximumRetryCount = 0\<rparr>"

definition demoUp :: sys where
  "demoUp = (let y = sysInit ''c'' ''/x'' demoPolicy None
     in y\<lparr>cont := snd (containerStart None (Inr 7) 1 None (cont y)), rt := RtUp\<rparr>)"

definition demoPaused :: sys where
  "demoPaused = demoUp\<lparr>rt := RtFrozen, cont := snd (the (containerStateChanged (eventInfo StatePause) 2 None (cont demoUp)))\<rparr>"

definition demoExit :: StateInfo where
  "demoExit = fst (container_handleEvent StateExit InitFriendlyName 1 0 (libctr demoPaused) (cRestartManager (cont demoPaused)))"

definition demoRestarting :: sys where
  "demoRestarting = demoPaused\<lparr>rt := RtDown, pend := Some demoExit, libctr := \<lparr>ctrRestarting = True, ctrOom = False\<rparr>,
     cont := snd (the (containerStateChanged demoExit 3 None ((cont demoPaused)\<lparr>cRestartManager :=
       snd (snd (container_handleEvent StateExit InitFriendlyName 1 0 (libctr demoPaused) (cRestartManager (cont demoPaused))))\<rparr>)))\<rparr>"

lemmas demo_defs =
  sysInit_def newContainer_def NewState_def containerStart_def Container_RestartManager_def stateChanged_start_def
  State_SetRunning_def initHealthMonitor_def getProbe_def logEvent_def containerStateChanged_def updateHealthMonitor_def
  stateChanged_restart_def State_SetRestarting_def setFromExitStatus_def fireWaiters_def platformConstructExitStatus_def
  container_handleEvent_def restartManager_ShouldRestart_def newRestartManager_def nextTimeout_def wantsRestart_def
  demoPolicy_def IsNone_def IsAlways_def InitFriendlyName_def eventInfo_def Let_def

lemma demoUp_eq: "demoUp =
  \<lparr>cont = \<lparr>cID = ''c'', cPath = ''/x'', cstate = NewState\<lparr>Running := True, Pid := 7, StartedAt := 1\<rparr>, RestartCount = 0,
     HasBeenManuallyStopped = False, cRestartManager = Some (newRestartManager demoPolicy 0), hcRestartPolicy = demoPolicy,
     healthTest = None, ExecCommands = {}, daemonExecs = Map.empty, cEvents = [''start'']\<rparr>,
   rt = RtUp, evq = [], pend = None, libctr = \<lparr>ctrRestarting = False, ctrOom = False\<rparr>\<rparr>"
  by (simp add: demoUp_def demo_defs)

lemma demoPaused_eq: "demoPaused = demoUp\<lparr>rt := RtFrozen, cont := (cont demoUp)\<lparr>
    cstate := (cstate (cont demoUp))\<lparr>Paused := True\<rparr>, cEvents := [''start'', ''pause'']\<rparr>\<rparr>"
  by (simp add: demoPaused_def demoUp_eq NewState_def containerStateChanged_def eventInfo_def updateHealthMonitor_def logEvent_def)

lemma demo_handle: "container_handleEvent StateExit InitFriendlyName 1 0 (libctr demoPaused) (cRestartManager (cont demoPaused)) =
   (\<lparr>siState = StateRestart, siPid = 0, siExitCode = 1, siProcessID = [], siOOMKilled = False\<rparr>,
    \<lparr>ctrRestarting = True, ctrOom = False\<rparr>,
    Some ((newRestartManager demoPolicy 0)\<lparr>restartCount := 1, rmTimeout := defaultTimeout, rmActive := True\<rparr>))"
  by (simp add: demoPaused_eq demoUp_eq container_handleEvent_def restartManager_ShouldRestart_def newRestartManager_def
      nextTimeout_def wantsRestart_def demoPolicy_def IsNone_def IsAlways_def Let_def)

lemma demoPaused_reachable: "sstep\<^sup>*\<^sup>* (sysInit ''c'' ''/x'' demoPolicy None) demoPaused"
proof -
  let ?y = "sysInit ''c'' ''/x'' demoPolicy None"
  have "containerStart None (Inr 7) 1 None (cont ?y) = ((None, True), snd (containerStart None (Inr 7) 1 None (cont ?y)))"
    by (simp add: demo_defs)
  from sstep.start [OF _ _ this] have "sstep ?y demoUp" by (simp add: demoUp_def sysInit_def newContainer_def NewState_def Let_def)
  then have "sstep\<^sup>*\<^sup>* ?y demoUp" by blast
  also have "sstep demoUp (demoUp\<lparr>rt := RtFrozen, evq := [eventInfo StatePause]\<rparr>)"
    using sstep.pause [of demoUp] by (simp add: demoUp_eq containerPause_def NewState_def)
  also have "sstep (demoUp\<lparr>rt := RtFrozen, evq := [eventInfo StatePause]\<rparr>) demoPaused"
    using sstep.deliver [of "demoUp\<lparr>rt := RtFrozen, evq := [eventInfo StatePause]\<rparr>" "eventInfo StatePause" "[]" 2 None None "cont demoPaused"]
    by (simp add: demoPaused_eq demoUp_eq containerStateChanged_def eventInfo_def NewState_def updateHealthMonitor_def logEvent_def)
  finally show ?thesis .
qed


lemma demoRestarting_eq: "demoRestarting = demoPaused\<lparr>rt := RtDown, pend := Some demoExit, libctr := \<lparr>ctrRestarting = True, ctrOom = False\<rparr>,
    cont := (cont demoPaused)\<lparr>
      cstate := (cstate (cont demoPaused))\<lparr>Restarting := True, Pid := 0, exitCode := 1, FinishedAt := 3, closedChans := {0}, waitChan := 1, nextChan := 2\<rparr>,
      RestartCount := 1, cRestartManager := Some ((newRestartManager demoPolicy 0)\<lparr>restartCount := 1, rmTimeout := defaultTimeout, rmActive := True\<rparr>),
      cEvents := [''start'', ''pause'', ''die'']\<rparr>\<rparr>"
  unfolding demoRestarting_def demo_handle demoExit_def
  by (simp add: demoPaused_eq demoUp_eq NewState_def containerStateChanged_def stateChanged_restart_def
      State_SetRestarting_def setFromExitStatus_def fireWaiters_def platformConstructExitStatus_def updateHealthMonitor_def logEvent_def)

lemma demoRestarting_reachable: "sstep\<^sup>*\<^sup>* (sysInit ''c'' ''/x'' demoPolicy None) demoRestarting"
proof -
  let ?m = "Some ((newRestartManager demoPolicy 0)\<lparr>restartCount := 1, rmTimeout := defaultTimeout, rmActive := True\<rparr>)"
  let ?y = "demoPaused\<lparr>rt := RtDown, evq := [demoExit], libctr := \<lparr>ctrRestarting = True, ctrOom = False\<rparr>,
    cont := (cont demoPaused)\<lparr>cRestartManager := ?m\<rparr>\<rparr>"
  have ex: "demoExit = \<lparr>siState = StateRestart, siPid = 0, siExitCode = 1, siProcessID = [], siOOMKilled = False\<rparr>"
    unfolding demoExit_def demo_handle by simp
  have "sstep demoPaused ?y"
    using sstep.exit [of demoPaused, OF _ demo_handle] unfolding ex by (simp add: demoPaused_eq demoUp_eq)
  moreover have "sstep ?y demoRestarting"
    using sstep.deliver [of ?y demoExit "[]" 3 None None "cont demoRestarting"]
    unfolding demoRestarting_eq
    by (simp add: demoPaused_eq demoUp_eq NewState_def containerStateChanged_def ex stateChanged_restart_def
      State_SetRestarting_def setFromExitStatus_def fireWaiters_def platformConstructExitStatus_def updateHealthMonitor_def logEvent_def)
  ultimately show ?thesis using demoPaused_reachable by (meson rtranclp.rtrancl_into_rtrancl)
qed


end
