(* ===== verification/Container_Store.thy ===== *)
theory Container_Store
  imports Docker_Prelude "HOL-Library.List_Lexorder" "HOL-Library.Char_ord"
begin

text \<open>
  The daemon's containers in memory: \<^verbatim>\<open>src/container/memory_store.go\<close> and
  \<^verbatim>\<open>src/container/history.go\<close>.

  A container is anything with a creation time.  \<open>sort.Sort\<close> is not stable, so among containers
  of the same creation time its order is unspecified; the model keeps the order of the ids.
  Ranging over the map goes by id.
\<close>

record 'c memoryStore =
  mstore :: "(string, 'c) fmap"

definition NewMemoryStore :: "'c memoryStore" where
  "NewMemoryStore = \<lparr>mstore = fmempty\<rparr>"

definition memoryStore_Add :: "string \<Rightarrow> 'c \<Rightarrow> 'c memoryStore \<Rightarrow> 'c memoryStore" where
  "memoryStore_Add i c s = s\<lparr>mstore := fmupd i c (mstore s)\<rparr>"

definition memoryStore_Get :: "string \<Rightarrow> 'c memoryStore \<Rightarrow> 'c option" where
  "memoryStore_Get i s = fmlookup (mstore s) i"

definition memoryStore_Delete :: "string \<Rightarrow> 'c memoryStore \<Rightarrow> 'c memoryStore" where
  "memoryStore_Delete i s = s\<lparr>mstore := fmdrop i (mstore s)\<rparr>"

definition memoryStore_Size :: "'c memoryStore \<Rightarrow> nat" where
  "memoryStore_Size s = fcard (fmdom (mstore s))"

definition memoryStore_all :: "'c memoryStore \<Rightarrow> 'c list" where
  "memoryStore_all s = map (\<lambda>i. the (fmlookup (mstore s) i)) (sorted_list_of_fset (fmdom (mstore s)))"

definition History_Less :: "('c \<Rightarrow> int) \<Rightarrow> 'c list \<Rightarrow> nat \<Rightarrow> nat \<Rightarrow> bool" where
  "History_Less created h i j \<longleftrightarrow> created (h ! j) < created (h ! i)"

definition History_sort :: "('c \<Rightarrow> int) \<Rightarrow> 'c list \<Rightarrow> 'c list" where
  "History_sort created h = sort_key (\<lambda>c. - created c) h"

definition memoryStore_List :: "('c \<Rightarrow> int) \<Rightarrow> 'c memoryStore \<Rightarrow> 'c list" where
  "memoryStore_List created s = History_sort created (memoryStore_all s)"

definition memoryStore_First :: "('c \<Rightarrow> bool) \<Rightarrow> 'c memoryStore \<Rightarrow> 'c option" where
  "memoryStore_First filt s = find filt (memoryStore_all s)"

lemma all_set: "set (memoryStore_all s) = {c. \<exists>i. memoryStore_Get i s = Some c}"
  by (auto simp: memoryStore_all_def memoryStore_Get_def sorted_list_of_fset_simps image_iff fmlookup_dom_iff)
    (metis fmdomI option.sel)

lemma First_None: "memoryStore_First filt s = None \<longleftrightarrow> (\<forall>i c. memoryStore_Get i s = Some c \<longrightarrow> \<not> filt c)"
  using all_set [of s] by (auto simp: memoryStore_First_def find_None_iff)

lemma sort_Less:
  assumes "i < j" and "j < length (History_sort created h)"
  shows "\<not> History_Less created (History_sort created h) j i"
proof -
  have "sorted (map (\<lambda>c. - created c) (History_sort created h))" by (simp add: History_sort_def)
  from sorted_nth_mono [OF this, of i j] assms show ?thesis by (simp add: History_Less_def)
qed

text \<open>
  The container list is a faithful snapshot: it has every stored container exactly once per
  id, newest first by the order \<open>Less\<close> of the history, and as many entries as \<open>Size\<close> says;
  \<open>First\<close> finds a container exactly when some stored one passes the filter.
\<close>

lemma container_list_snapshot:
  "length (memoryStore_List created s) = memoryStore_Size s \<and>
   set (memoryStore_List created s) = {c. \<exists>i. memoryStore_Get i s = Some c} \<and>
   {(i, j). i < j \<and> j < memoryStore_Size s \<and> History_Less created (memoryStore_List created s) j i} = {} \<and>
   (memoryStore_First filt s = None \<longleftrightarrow> {i. \<exists>c. memoryStore_Get i s = Some c \<and> filt c} = {})"
proof (intro conjI)
  show len: "length (memoryStore_List created s) = memoryStore_Size s"
    by (simp add: memoryStore_List_def History_sort_def memoryStore_all_def memoryStore_Size_def sorted_list_of_fset.rep_eq fcard.rep_eq)
  show "set (memoryStore_List created s) = {c. \<exists>i. memoryStore_Get i s = Some c}"
    by (simp add: memoryStore_List_def History_sort_def all_set)
  show "{(i, j). i < j \<and> j < memoryStore_Size s \<and> History_Less created (memoryStore_List created s) j i} = {}"
    using sort_Less [of _ _ created "memoryStore_all s"] len by (auto simp: memoryStore_List_def)
  show "memoryStore_First filt s = None \<longleftrightarrow> {i. \<exists>c. memoryStore_Get i s = Some c \<and> filt c} = {}"
    by (auto simp: First_None)
qed

end
