(* ===== verification/Stdcopy.thy ===== *)
theory Stdcopy
  imports Docker_Prelude "HOL-Library.Word"
begin

text \<open>
  Multiplexing of standard streams: \<^verbatim>\<open>src/pkg/stdcopy/stdcopy.go\<close>.

  Bytes are 8-bit words.  A reader is the bytes it still has to deliver and a schedule that says
  how many bytes each \<open>Read\<close> returns, whether it reports the end together with the last bytes,
  and where it fails; a writer is told by a stream of outcomes.  The two reading loops and the
  outer loop of \<open>StdCopy\<close> are \<open>partial_function\<close>s, \<open>None\<close> being a loop that does not return.
  The buffer is the list of its valid bytes and its length, which grows as in the code.
\<close>

section \<open>Writing frames\<close>

type_synonym byte = "8 word"

definition stdWriterPrefixLen :: nat where
  "stdWriterPrefixLen = 8"

definition startingBufLen :: nat where
  "startingBufLen = 32 * 1024 + stdWriterPrefixLen + 1"

definition Stdin :: byte where "Stdin = 0"
definition Stdout :: byte where "Stdout = 1"
definition Stderr :: byte where "Stderr = 2"

definition PutUint32 :: "32 word \<Rightarrow> byte list" where
  "PutUint32 v = [ucast (drop_bit 24 v), ucast (drop_bit 16 v), ucast (drop_bit 8 v), ucast v]"

definition Uint32 :: "byte list \<Rightarrow> 32 word" where
  "Uint32 b = or (or (push_bit 24 (ucast (b ! 0))) (push_bit 16 (ucast (b ! 1)))) (or (push_bit 8 (ucast (b ! 2))) (ucast (b ! 3)))"

text \<open>The bytes that \<open>stdWriter.Write\<close> hands to the underlying writer.\<close>

definition frame :: "byte \<Rightarrow> byte list \<Rightarrow> byte list" where
  "frame pre p = [pre, 0, 0, 0] @ PutUint32 (word_of_nat (length p)) @ p"

text \<open>
  A writer is nil or not; a nil slice is \<open>None\<close>; \<open>sink\<close> is what the underlying \<open>Write\<close>
  returns for the bytes it gets.
\<close>

definition stdWriter_Write ::
    "byte option \<Rightarrow> byte list option \<Rightarrow> (byte list \<Rightarrow> int \<times> string option) \<Rightarrow> int \<times> string option" where
  "stdWriter_Write w p sink =
     (case w of
        None \<Rightarrow> (0, Some ''Writer not instantiated'')
      | Some pre \<Rightarrow>
          (case p of
             None \<Rightarrow> (0, None)
           | Some p1 \<Rightarrow>
               (case sink (frame pre p1) of
                  (n, err) \<Rightarrow> (let n1 = n - int stdWriterPrefixLen in (if n1 < 0 then 0 else n1, err)))))"

section \<open>Reading frames\<close>

datatype readPlan = ReadSome nat bool | ReadFails string

record reader =
  left :: "byte list"
  plan :: "readPlan list"

datatype readStatus = RNil | REOF | RErr string

definition src_Read :: "nat \<Rightarrow> reader \<Rightarrow> byte list \<times> readStatus \<times> reader" where
  "src_Read room s =
     (case plan s of
        [] \<Rightarrow> (take room (left s), if left s = [] then REOF else RNil, s\<lparr>left := drop room (left s)\<rparr>)
      | ReadFails e # ps \<Rightarrow> ([], RErr e, s\<lparr>plan := ps\<rparr>)
      | ReadSome k early # ps \<Rightarrow>
          (let n = min k room
           in (take n (left s), if left s = [] \<or> early \<and> drop n (left s) = [] then REOF else RNil,
               s\<lparr>left := drop n (left s), plan := ps\<rparr>)))"

datatype fillResult = Full | Cut | FillErr string

text \<open>\<open>for nr < need { ... }\<close>\<close>

partial_function (option) fill ::
    "nat \<Rightarrow> nat \<Rightarrow> byte list \<Rightarrow> reader \<Rightarrow> (fillResult \<times> byte list \<times> reader) option" where
  "fill need bufLen d s =
     (if need \<le> length d then Some (Full, d, s)
      else
        (case src_Read (bufLen - length d) s of
           (p, st, s') \<Rightarrow>
             (case st of
                REOF \<Rightarrow> Some (if length (d @ p) < need then Cut else Full, d @ p, s')
              | RErr e \<Rightarrow> Some (FillErr e, d @ p, s')
              | RNil \<Rightarrow> fill need bufLen (d @ p) s')))"

datatype writeOutcome = WriteAll | WriteShort nat | WriteFails nat string

datatype copyError = ErrHeader byte | ErrRead string | ErrWrite string | ErrShortWrite

record outputs =
  dstout :: "byte list"
  dsterr :: "byte list"
  wcount :: nat

definition out_Write ::
    "(nat \<Rightarrow> writeOutcome) \<Rightarrow> bool \<Rightarrow> byte list \<Rightarrow> outputs \<Rightarrow> (string + nat) \<times> outputs" where
  "out_Write W err p o1 =
     (let n = (case W (wcount o1) of WriteAll \<Rightarrow> length p | WriteShort k \<Rightarrow> min k (length p) | WriteFails k _ \<Rightarrow> min k (length p));
          o2 = o1\<lparr>wcount := wcount o1 + 1\<rparr>;
          o3 = (if err then o2\<lparr>dsterr := dsterr o2 @ take n p\<rparr> else o2\<lparr>dstout := dstout o2 @ take n p\<rparr>)
      in case W (wcount o1) of
           WriteFails _ e \<Rightarrow> (Inl e, o3)
         | _ \<Rightarrow> (Inr n, o3))"

definition frameSize :: "byte list \<Rightarrow> nat" where
  "frameSize d = unat (Uint32 (take 4 (drop 4 d)))"

partial_function (option) copyLoop ::
    "(nat \<Rightarrow> writeOutcome) \<Rightarrow> nat \<Rightarrow> byte list \<Rightarrow> reader \<Rightarrow> int \<Rightarrow> outputs \<Rightarrow> ((copyError + int) \<times> outputs) option" where
  "copyLoop W bufLen d s written out =
     Option.bind (fill stdWriterPrefixLen bufLen d s) (\<lambda>(r, d1, s1).
       case r of
         Cut \<Rightarrow> Some (Inr written, out)
       | FillErr e \<Rightarrow> Some (Inl (ErrRead e), out)
       | Full \<Rightarrow>
           if d1 ! 0 \<noteq> Stdin \<and> d1 ! 0 \<noteq> Stdout \<and> d1 ! 0 \<noteq> Stderr then Some (Inl (ErrHeader (d1 ! 0)), out)
           else
             (let size = frameSize d1;
                  bufLen1 = (if bufLen < size + stdWriterPrefixLen then size + stdWriterPrefixLen + 1 else bufLen)
              in Option.bind (fill (size + stdWriterPrefixLen) bufLen1 d1 s1) (\<lambda>(r2, d2, s2).
                   case r2 of
                     Cut \<Rightarrow> Some (Inr written, out)
                   | FillErr e \<Rightarrow> Some (Inl (ErrRead e), out)
                   | Full \<Rightarrow>
                       (case out_Write W (d1 ! 0 = Stderr) (take size (drop stdWriterPrefixLen d2)) out of
                          (Inl e, out2) \<Rightarrow> Some (Inl (ErrWrite e), out2)
                        | (Inr nw, out2) \<Rightarrow>
                            if nw \<noteq> size then Some (Inl ErrShortWrite, out2)
                            else copyLoop W bufLen1 (drop (size + stdWriterPrefixLen) d2) s2 (written + int nw) out2))))"

definition StdCopy :: "(nat \<Rightarrow> writeOutcome) \<Rightarrow> reader \<Rightarrow> ((copyError + int) \<times> outputs) option" where
  "StdCopy W s = copyLoop W startingBufLen [] s 0 \<lparr>dstout = [], dsterr = [], wcount = 0\<rparr>"

section \<open>The reading loop returns\<close>

definition reliable :: "reader \<Rightarrow> bool" where
  "reliable s \<longleftrightarrow> (\<forall>e. ReadFails e \<notin> set (plan s))"

lemma src_Read_spec:
  assumes "src_Read room s = (p, st, s')"
  shows "p @ left s' = left s" and "set (plan s') \<subseteq> set (plan s)"
    and "st = REOF \<Longrightarrow> left s' = []" and "st = RErr e \<Longrightarrow> ReadFails e \<in> set (plan s)"
    and "st = RNil \<Longrightarrow> 0 < room \<Longrightarrow> length (plan s') + length (left s') < length (plan s) + length (left s)"
  using assms by (auto simp: src_Read_def Let_def split: list.splits readPlan.splits if_splits)

lemma fill_spec:
  assumes "need \<le> bufLen"
  shows "\<exists>r d' s'. fill need bufLen d s = Some (r, d', s') \<and> d' @ left s' = d @ left s
           \<and> set (plan s') \<subseteq> set (plan s) \<and> (r = Full \<longrightarrow> need \<le> length d')
           \<and> (r = Cut \<longrightarrow> left s' = [] \<and> length d' < need)
           \<and> (\<forall>e. r = FillErr e \<longrightarrow> ReadFails e \<in> set (plan s))"
proof (induction "length (plan s) + length (left s)" arbitrary: d s rule: less_induct)
  case less
  show ?case
  proof (cases "need \<le> length d")
    case True
    then show ?thesis by (simp add: fill.simps)
  next
    case False
    obtain p st s1 where rd: "src_Read (bufLen - length d) s = (p, st, s1)" by (metis prod_cases3)
    note sp = src_Read_spec [OF rd]
    show ?thesis
    proof (cases st)
      case RNil
      have "length (plan s1) + length (left s1) < length (plan s) + length (left s)"
        using sp(5) RNil False assms by simp
      from less [OF this, of "d @ p"] sp(1,2) show ?thesis
        using False RNil rd by (subst fill.simps) fastforce
    next
      case REOF
      then show ?thesis using False rd sp(1-3) by (subst fill.simps) auto
    next
      case (RErr e)
      then show ?thesis using False rd sp(1,2,4) by (subst fill.simps) auto
    qed
  qed
qed

lemma fillE:
  assumes "need \<le> bufLen"
  obtains (Full) d' s' where "fill need bufLen d s = Some (Full, d', s')" "d' @ left s' = d @ left s"
      "set (plan s') \<subseteq> set (plan s)" "need \<le> length d'"
  | (Cut) d' s' where "fill need bufLen d s = Some (Cut, d', s')" "length (d @ left s) < need"
  | (FillErr) e d' s' where "fill need bufLen d s = Some (FillErr e, d', s')" "ReadFails e \<in> set (plan s)"
proof -
  obtain r d' s' where f: "fill need bufLen d s = Some (r, d', s')" "d' @ left s' = d @ left s"
      "set (plan s') \<subseteq> set (plan s)" "r = Full \<longrightarrow> need \<le> length d'"
      "r = Cut \<longrightarrow> left s' = [] \<and> length d' < need" "\<forall>e. r = FillErr e \<longrightarrow> ReadFails e \<in> set (plan s)"
    using fill_spec [OF assms, of d s] by blast
  show ?thesis
  proof (cases r)
    case Full
    then show ?thesis using f that(1) by blast
  next
    case Cut
    then have "d' = d @ left s" using f(2,5) by simp
    then show ?thesis using f Cut that(2) by simp
  next
    case (FillErr e)
    then show ?thesis using f that(3) by blast
  qed
qed

section \<open>What the stream says\<close>

text \<open>
  The demultiplexer on the whole stream at once, without buffer and without reads.
\<close>

function demux :: "(nat \<Rightarrow> writeOutcome) \<Rightarrow> byte list \<Rightarrow> int \<Rightarrow> outputs \<Rightarrow> (copyError + int) \<times> outputs" where
  "demux W t written out =
     (if length t < stdWriterPrefixLen then (Inr written, out)
      else if t ! 0 \<notin> {Stdin, Stdout, Stderr} then (Inl (ErrHeader (t ! 0)), out)
      else if length t < frameSize t + stdWriterPrefixLen then (Inr written, out)
      else
        (case out_Write W (t ! 0 = Stderr) (take (frameSize t) (drop stdWriterPrefixLen t)) out of
           (Inl e, out2) \<Rightarrow> (Inl (ErrWrite e), out2)
         | (Inr nw, out2) \<Rightarrow>
             if nw \<noteq> frameSize t then (Inl ErrShortWrite, out2)
             else demux W (drop (frameSize t + stdWriterPrefixLen) t) (written + int nw) out2))"
  by pat_completeness auto
termination by (relation "measure (\<lambda>(W, t, w, out). length t)") (auto simp: stdWriterPrefixLen_def)

declare demux.simps [simp del]

lemma header_prefix:
  assumes "8 \<le> length d"
  shows "(d @ r) ! 0 = d ! 0" and "frameSize (d @ r) = frameSize d"
proof -
  show "(d @ r) ! 0 = d ! 0" using assms by (cases d) simp_all
  have "take 4 (drop 4 (d @ r)) = take 4 (drop 4 d)" using assms by simp
  then show "frameSize (d @ r) = frameSize d" by (simp only: frameSize_def)
qed


lemma reliable_mono: "reliable s \<Longrightarrow> set (plan s') \<subseteq> set (plan s) \<Longrightarrow> reliable s'"
  unfolding reliable_def by blast

text \<open>
  What the loop returns at a given stream: some result, and the demultiplexer's where no read fails.
\<close>

definition copies :: "(nat \<Rightarrow> writeOutcome) \<Rightarrow> nat \<Rightarrow> byte list \<Rightarrow> reader \<Rightarrow> int \<Rightarrow> outputs \<Rightarrow> bool" where
  "copies W bufLen d s written out \<longleftrightarrow>
     (\<exists>res. copyLoop W bufLen d s written out = Some res
        \<and> (reliable s \<longrightarrow> res = demux W (d @ left s) written out))"

lemma copyLoop_header:
  assumes "fill 8 bufLen d s = Some (Full, d1, s1)" "d1 ! 0 \<in> {Stdin, Stdout, Stderr}"
    and "b1 = (if bufLen < frameSize d1 + 8 then frameSize d1 + 8 + 1 else bufLen)"
  shows "copyLoop W bufLen d s written out =
           Option.bind (fill (frameSize d1 + 8) b1 d1 s1) (\<lambda>(r2, d2, s2).
             case r2 of
               Cut \<Rightarrow> Some (Inr written, out)
             | FillErr e \<Rightarrow> Some (Inl (ErrRead e), out)
             | Full \<Rightarrow>
                 (case out_Write W (d1 ! 0 = Stderr) (take (frameSize d1) (drop 8 d2)) out of
                    (Inl e, out2) \<Rightarrow> Some (Inl (ErrWrite e), out2)
                  | (Inr nw, out2) \<Rightarrow>
                      if nw \<noteq> frameSize d1 then Some (Inl ErrShortWrite, out2)
                      else copyLoop W b1 (drop (frameSize d1 + 8) d2) s2 (written + int nw) out2))"
proof -
  have ty: "(d1 ! 0 \<noteq> Stdin \<and> d1 ! 0 \<noteq> Stdout \<and> d1 ! 0 \<noteq> Stderr) = False" using assms(2) by blast
  show ?thesis
    unfolding copyLoop.simps [of W bufLen] stdWriterPrefixLen_def assms(1,3) bind.simps prod.case fillResult.case ty if_False Let_def
    by (rule refl)
qed

lemma copies_frame:
  assumes hd: "fill 8 bufLen d s = Some (Full, d1, s1)" "d1 @ left s1 = d @ left s" "8 \<le> length d1"
      "set (plan s1) \<subseteq> set (plan s)"
    and ty: "d1 ! 0 \<in> {Stdin, Stdout, Stderr}"
    and IH: "\<And>b d' s' w o1. length (d' @ left s') < length (d @ left s) \<Longrightarrow> 8 \<le> b \<Longrightarrow> copies W b d' s' w o1"
    and b: "8 \<le> bufLen"
  shows "copies W bufLen d s written out"
proof -
  define t where "t = d @ left s"
  define b1 where "b1 = (if bufLen < frameSize d1 + 8 then frameSize d1 + 8 + 1 else bufLen)"
  note loop = copyLoop_header [OF hd(1) ty b1_def, of W written out]
  have n: "frameSize t = frameSize d1" and t0: "t ! 0 = d1 ! 0" and t8: "\<not> length t < 8"
    using header_prefix [OF hd(3), of "left s1"] hd(3) unfolding t_def hd(2) [symmetric] by simp_all
  note dm = demux.simps [of W t written out] n t0 stdWriterPrefixLen_def
  have "frameSize d1 + 8 \<le> b1" by (simp add: b1_def)
  then show ?thesis
  proof (cases rule: fillE [where d = d1 and s = s1])
    case (Full d2 s2)
    have t: "t = d2 @ left s2" using Full(2) hd(2) by (simp add: t_def)
    obtain wr o2 where w: "out_Write W (d1 ! 0 = Stderr) (take (frameSize d1) (drop 8 d2)) out = (wr, o2)" by fastforce
    have rel: "reliable s \<Longrightarrow> reliable s2" using Full(3) hd(4) by (metis reliable_mono subset_trans)
    have "length (drop (frameSize d1 + 8) d2 @ left s2) < length (d @ left s)"
      using Full(4) unfolding t_def [symmetric] t by simp
    from IH [OF this, of b1 "written + int (frameSize d1)" o2] b
    have "copies W b1 (drop (frameSize d1 + 8) d2) s2 (written + int (frameSize d1)) o2" by (simp add: b1_def)
    then show ?thesis
      unfolding copies_def t_def [symmetric] loop Full(1) using dm t8 ty w Full(4) rel
      by (cases wr) (auto simp: t)
  next
    case (Cut d2 s2)
    then have "length t < frameSize d1 + 8" using hd(2) by (simp add: t_def)
    then show ?thesis unfolding copies_def t_def [symmetric] loop Cut(1) using dm t8 ty by auto
  next
    case (FillErr e d2 s2)
    then have "\<not> reliable s" using hd(4) by (auto simp: reliable_def)
    then show ?thesis unfolding copies_def loop FillErr(1) by simp
  qed
qed

lemma copyLoop_copies: "8 \<le> bufLen \<Longrightarrow> copies W bufLen d s written out"
proof (induction "length (d @ left s)" arbitrary: bufLen d s written out rule: less_induct)
  case less
  from less.prems show ?case
  proof (cases rule: fillE [where d = d and s = s])
    case (Full d1 s1)
    show ?thesis
    proof (cases "d1 ! 0 \<in> {Stdin, Stdout, Stderr}")
      case True
      show ?thesis by (rule copies_frame [OF Full(1,2,4,3) True less.hyps less.prems]) assumption+
    next
      case False
      have "(d @ left s) ! 0 = d1 ! 0" "\<not> length (d @ left s) < 8"
        using header_prefix(1) [OF Full(4), of "left s1"] Full(4) unfolding Full(2) [symmetric] by simp_all
      then show ?thesis
        using Full(1) False unfolding copies_def copyLoop.simps [of W bufLen] demux.simps [of W "d @ left s"]
        by (simp add: stdWriterPrefixLen_def)
    qed
  next
    case (Cut d1 s1)
    then show ?thesis
      unfolding copies_def copyLoop.simps [of W bufLen] demux.simps [of W "d @ left s"] by (simp add: stdWriterPrefixLen_def)
  next
    case (FillErr e d1 s1)
    then have "\<not> reliable s" by (auto simp: reliable_def)
    then show ?thesis using FillErr(1) unfolding copies_def copyLoop.simps [of W bufLen] by (simp add: stdWriterPrefixLen_def)
  qed
qed

lemma StdCopy_demux:
  "\<exists>res. StdCopy W s = Some res \<and> (reliable s \<longrightarrow> res = demux W (left s) 0 \<lparr>dstout = [], dsterr = [], wcount = 0\<rparr>)"
  using copyLoop_copies [of startingBufLen W "[]" s 0 "\<lparr>dstout = [], dsterr = [], wcount = 0\<rparr>"]
  by (simp add: StdCopy_def copies_def startingBufLen_def stdWriterPrefixLen_def)

section \<open>Round trip\<close>

lemma Uint32_PutUint32: "Uint32 (PutUint32 v) = v"
proof (rule bit_word_eqI)
  fix n
  assume "n < LENGTH(32)"
  then consider "n < 8" | "8 \<le> n \<and> n < 16" | "16 \<le> n \<and> n < 24" | "24 \<le> n \<and> n < 32" by force
  then show "bit (Uint32 (PutUint32 v)) n = bit v n"
    by cases (auto simp: Uint32_def PutUint32_def bit_simps numeral_3_eq_3)
qed

text \<open>The header counts modulo \<open>2 ^ 32\<close>: a longer payload would be cut into a frame and garbage.\<close>

lemma frameSize_frame: "frameSize (frame c p @ r) = length p mod 2 ^ 32"
proof -
  have "take 4 (drop 4 (frame c p @ r)) = PutUint32 (word_of_nat (length p))" by (simp add: frame_def PutUint32_def)
  then show ?thesis by (simp add: frameSize_def Uint32_PutUint32 unsigned_of_nat take_bit_eq_mod)
qed

lemma demux_frame:
  assumes "c \<in> {Stdin, Stdout, Stderr}" "length p < 2 ^ 32"
  shows "demux W (frame c p @ r) written out =
           (case out_Write W (c = Stderr) p out of
              (Inl e, out2) \<Rightarrow> (Inl (ErrWrite e), out2)
            | (Inr nw, out2) \<Rightarrow>
                if nw \<noteq> length p then (Inl ErrShortWrite, out2) else demux W r (written + int nw) out2)"
proof -
  have sz: "frameSize (frame c p @ r) = length p" using assms(2) by (simp only: frameSize_frame mod_less)
  have len: "length (frame c p) = length p + 8" by (simp add: frame_def PutUint32_def)
  have c0: "(frame c p @ r) ! 0 = c" by (simp add: frame_def)
  have dr: "drop (length p + 8) (frame c p @ r) = r" by (simp add: len)
  have pay: "take (length p) (drop 8 (frame c p @ r)) = p" by (simp add: frame_def PutUint32_def)
  show ?thesis
    unfolding demux.simps [of W "frame c p @ r"] sz c0 stdWriterPrefixLen_def pay dr
    using assms(1) by (auto simp: len)
qed

lemma demux_frames:
  assumes "\<forall>(c, p) \<in> set fs. c \<in> {Stdin, Stdout, Stderr} \<and> length p < 2 ^ 32" "length r < 8"
  shows "demux (\<lambda>_. WriteAll) (concat (map (\<lambda>(c, p). frame c p) fs) @ r) written out =
     (Inr (written + int (\<Sum>(c, p) \<leftarrow> fs. length p)),
      \<lparr>dstout = dstout out @ concat [p. (c, p) \<leftarrow> fs, c \<noteq> Stderr],
       dsterr = dsterr out @ concat [p. (c, p) \<leftarrow> fs, c = Stderr],
       wcount = wcount out + length fs\<rparr>)"
  using assms(1)
proof (induction fs arbitrary: written out)
  case Nil
  then show ?case using assms(2) by (simp add: demux.simps stdWriterPrefixLen_def)
next
  case (Cons cp fs)
  obtain c p where cp: "cp = (c, p)" by fastforce
  with Cons.prems have c: "c \<in> {Stdin, Stdout, Stderr}" "length p < 2 ^ 32" by auto
  show ?case using Cons.IH Cons.prems
    by (simp add: cp demux_frame [OF c] out_Write_def Let_def)
qed


section \<open>Properties\<close>

text \<open>
  C28: \<open>StdCopy\<close> returns for every source and every pair of writers, however the source splits its
  bytes over reads, also when reads return nothing for a while, fail, or report the end of the
  stream with the last bytes; and when no read fails, its result and what it has written depend
  only on the bytes of the stream, not on how they arrived or how often the buffer grew.
\<close>
theorem stdcopy_returns:
  "(\<exists>res. StdCopy W s = Some res) \<and>
   (reliable s \<longrightarrow> StdCopy W s = Some (demux W (left s) 0 \<lparr>dstout = [], dsterr = [], wcount = 0\<rparr>))"
  using StdCopy_demux [of W s] by auto

theorem stdcopy_returns_witness:
  "StdCopy (\<lambda>_. WriteAll) \<lparr>left = [5, 0, 0, 0, 0, 0, 0, 1, 7], plan = [ReadSome 0 False, ReadSome 3 False]\<rparr>
     = Some (Inl (ErrHeader 5), \<lparr>dstout = [], dsterr = [], wcount = 0\<rparr>)"
  using stdcopy_returns [of "\<lambda>_. WriteAll" "\<lparr>left = [5, 0, 0, 0, 0, 0, 0, 1, 7], plan = [ReadSome 0 False, ReadSome 3 False]\<rparr>"]
  by (simp add: reliable_def demux.simps stdWriterPrefixLen_def Stdin_def Stdout_def Stderr_def)

text \<open>
  C12: Frames written by \<open>stdWriter.Write\<close> on any of the three streams, one after the other on one
  connection and cut off at any point inside the last header, come back out of \<open>StdCopy\<close> whatever the
  reads return: stdin and stdout payloads in order on \<open>dstout\<close>, stderr payloads in order on \<open>dsterr\<close>,
  and the count is the number of payload bytes.  The payloads must be shorter than \<open>2 ^ 32\<close> bytes, for the
  header holds the length in 32 bits.
\<close>
theorem stdcopy_roundtrip:
  assumes "\<forall>(c, p) \<in> set fs. c \<in> {Stdin, Stdout, Stderr} \<and> length p < 2 ^ 32" "length r < stdWriterPrefixLen"
    and "reliable s" "left s = concat (map (\<lambda>(c, p). frame c p) fs) @ r"
  shows "StdCopy (\<lambda>_. WriteAll) s =
     Some (Inr (\<Sum>(c, p) \<leftarrow> fs. int (length p)),
       \<lparr>dstout = concat [p. (c, p) \<leftarrow> fs, c \<noteq> Stderr], dsterr = concat [p. (c, p) \<leftarrow> fs, c = Stderr],
        wcount = length fs\<rparr>)"
proof -
  have "int (\<Sum>(c, p) \<leftarrow> fs. length p) = (\<Sum>(c, p) \<leftarrow> fs. int (length p))" by (induction fs) auto
  moreover have "StdCopy (\<lambda>_. WriteAll) s = Some (demux (\<lambda>_. WriteAll) (left s) 0 \<lparr>dstout = [], dsterr = [], wcount = 0\<rparr>)"
    using StdCopy_demux [of "\<lambda>_. WriteAll" s] assms(3) by auto
  ultimately show ?thesis
    using demux_frames [OF assms(1), of r 0] assms(2,4) by (simp add: stdWriterPrefixLen_def)
qed

theorem stdcopy_roundtrip_witness:
  "StdCopy (\<lambda>_. WriteAll)
     \<lparr>left = [1, 0, 0, 0, 0, 0, 0, 2, 65, 66] @ [2, 0, 0, 0, 0, 0, 0, 1, 67] @ [1, 0],
      plan = [ReadSome 3 True, ReadSome 0 True, ReadSome 9 False]\<rparr>
   = Some (Inr 3, \<lparr>dstout = [65, 66], dsterr = [67], wcount = 2\<rparr>)"
  using stdcopy_roundtrip [of "[(1, [65, 66]), (2, [67])]" "[1, 0]"
    "\<lparr>left = [1, 0, 0, 0, 0, 0, 0, 2, 65, 66] @ [2, 0, 0, 0, 0, 0, 0, 1, 67] @ [1, 0],
      plan = [ReadSome 3 True, ReadSome 0 True, ReadSome 9 False]\<rparr>"]
  by (simp add: reliable_def frame_def PutUint32_def stdWriterPrefixLen_def Stdin_def Stdout_def Stderr_def)

end
