(* ===== verification/Bytes_Pipe.thy ===== *)
theory Bytes_Pipe
  imports Docker_Prelude
begin

text \<open>
  The in-memory pipe between a container's streams and the clients that read them:
  \<^verbatim>\<open>src/pkg/ioutils/bytespipe.go\<close> and \<^verbatim>\<open>src/pkg/ioutils/buffer.go\<close>.

  A fixed buffer is its array, which has the length of its capacity and keeps old contents, and two
  positions.  \<open>Write\<close> and \<open>Read\<close> run under the mutex of the pipe from the call or from a wake-up to the
  return or to the next \<open>wait.Wait()\<close>; each such stretch is a function, and \<open>pstep\<close> interleaves the
  stretches of any number of threads.  A waiting thread goes on only after a \<open>Broadcast\<close>.  The loops
  are \<open>partial_function\<close>s, \<open>None\<close> being a loop that does not end.
\<close>

section \<open>Fixed buffers\<close>

definition maxCap :: nat where "maxCap = 1000000"
definition minCap :: nat where "minCap = 64"
definition blockThreshold :: int where "blockThreshold = 1000000"

datatype pipeError = ErrClosed | ErrBufferFull | ErrShortWriteBuf | CloseError string

record fixedBuffer =
  fbuf :: string
  pos :: nat
  lastRead :: nat

definition fixedBuffer_Write :: "fixedBuffer \<Rightarrow> string \<Rightarrow> fixedBuffer \<times> nat \<times> pipeError option" where
  "fixedBuffer_Write b p =
     (let n = min (length (fbuf b) - pos b) (length p);
          b1 = b\<lparr>fbuf := take (pos b) (fbuf b) @ take n p @ drop (pos b + n) (fbuf b), pos := pos b + n\<rparr>
      in (b1, n,
          if n < length p then (if pos b1 = length (fbuf b1) then Some ErrBufferFull else Some ErrShortWriteBuf)
          else None))"

definition fixedBuffer_String :: "fixedBuffer \<Rightarrow> string" where
  "fixedBuffer_String b = take (pos b - lastRead b) (drop (lastRead b) (fbuf b))"

definition fixedBuffer_Read :: "fixedBuffer \<Rightarrow> nat \<Rightarrow> string \<times> fixedBuffer" where
  "fixedBuffer_Read b k =
     (let d = take k (take (pos b - lastRead b) (drop (lastRead b) (fbuf b)))
      in (d, b\<lparr>lastRead := lastRead b + length d\<rparr>))"

definition fixedBuffer_Len :: "fixedBuffer \<Rightarrow> int" where
  "fixedBuffer_Len b = int (pos b) - int (lastRead b)"

definition fixedBuffer_Cap :: "fixedBuffer \<Rightarrow> nat" where
  "fixedBuffer_Cap b = length (fbuf b)"

definition fixedBuffer_Reset :: "fixedBuffer \<Rightarrow> fixedBuffer" where
  "fixedBuffer_Reset b = b\<lparr>pos := 0, lastRead := 0\<rparr>"

section \<open>The pipe\<close>

text \<open>
  The pools of free buffers, by capacity, are shared by all pipes; a pool hands out what was put into it
  or a new buffer.
\<close>

record BytesPipe =
  pbuf :: "fixedBuffer list"
  bufLen :: int
  closeErr :: "pipeError option"
  bufPools :: "nat \<Rightarrow> fixedBuffer list option"

definition newFixedBuffer :: "nat \<Rightarrow> fixedBuffer" where
  "newFixedBuffer sz = \<lparr>fbuf = replicate sz (CHR 0x00), pos = 0, lastRead = 0\<rparr>"

definition getBuffer ::
    "nat \<Rightarrow> (nat \<Rightarrow> fixedBuffer list option) \<Rightarrow> fixedBuffer \<times> (nat \<Rightarrow> fixedBuffer list option)" where
  "getBuffer sz pools =
     (case pools sz of
        None \<Rightarrow> (newFixedBuffer sz, pools(sz := Some []))
      | Some [] \<Rightarrow> (newFixedBuffer sz, pools)
      | Some (b # bs) \<Rightarrow> (b, pools(sz := Some bs)))"

definition returnBuffer ::
    "fixedBuffer \<Rightarrow> (nat \<Rightarrow> fixedBuffer list option) \<Rightarrow> nat \<Rightarrow> fixedBuffer list option" where
  "returnBuffer b pools =
     (case pools (fixedBuffer_Cap b) of
        None \<Rightarrow> pools
      | Some bs \<Rightarrow> pools(fixedBuffer_Cap b := Some (fixedBuffer_Reset b # bs)))"

definition pushBuffer :: "nat \<Rightarrow> BytesPipe \<Rightarrow> BytesPipe" where
  "pushBuffer sz bp =
     (case getBuffer sz (bufPools bp) of
        (b, pools) \<Rightarrow> bp\<lparr>pbuf := pbuf bp @ [b], bufPools := pools\<rparr>)"

definition NewBytesPipe :: BytesPipe where
  "NewBytesPipe = pushBuffer minCap \<lparr>pbuf = [], bufLen = 0, closeErr = None, bufPools = (\<lambda>_. None)\<rparr>"

text \<open>A stretch of \<open>Write\<close> returns, or waits with the rest of the data, the count so far and the capacity of the last buffer.\<close>

datatype writeStop = WReturn nat "pipeError option" | WWait string nat nat

definition nextCap :: "nat \<Rightarrow> nat" where
  "nextCap c = (if c * 2 > maxCap then maxCap else c * 2)"

partial_function (option) writeLoop :: "BytesPipe \<Rightarrow> string \<Rightarrow> nat \<Rightarrow> (writeStop \<times> BytesPipe) option" where
  "writeLoop bp p written =
     (if closeErr bp \<noteq> None then Some (WReturn written (Some ErrClosed), bp)
      else
        (let bp1 = (if pbuf bp = [] then pushBuffer 64 bp else bp); b = last (pbuf bp1)
         in case fixedBuffer_Write b p of
              (b1, n, err) \<Rightarrow>
                (let bp2 = bp1\<lparr>pbuf := butlast (pbuf bp1) @ [b1], bufLen := bufLen bp1 + int n\<rparr>
                 in if err \<noteq> None \<and> err \<noteq> Some ErrBufferFull then Some (WReturn (written + n) err, bp2)
                    else if length p = n then Some (WReturn (written + n) None, bp2)
                    else if blockThreshold \<le> bufLen bp2 then Some (WWait (drop n p) (written + n) (fixedBuffer_Cap b1), bp2)
                    else writeLoop (pushBuffer (nextCap (fixedBuffer_Cap b1)) bp2) (drop n p) (written + n))))"

text \<open>The rest of \<open>Write\<close> after \<open>wait.Wait()\<close> has returned.\<close>

definition writeResume :: "BytesPipe \<Rightarrow> string \<Rightarrow> nat \<Rightarrow> nat \<Rightarrow> (writeStop \<times> BytesPipe) option" where
  "writeResume bp p written c =
     (if closeErr bp \<noteq> None then writeLoop bp p written
      else if blockThreshold \<le> bufLen bp then Some (WWait p written c, bp)
      else writeLoop (pushBuffer (nextCap c) bp) p written)"

definition CloseWithError :: "pipeError option \<Rightarrow> BytesPipe \<Rightarrow> BytesPipe" where
  "CloseWithError err bp = bp\<lparr>closeErr := Some (case err of Some e \<Rightarrow> e | None \<Rightarrow> CloseError ''EOF'')\<rparr>"

definition Close :: "BytesPipe \<Rightarrow> BytesPipe" where
  "Close bp = CloseWithError None bp"

text \<open>The loop of \<open>Read\<close>, for \<open>k\<close> bytes of room; \<open>Inl\<close> is the panic of an index out of range.\<close>

partial_function (option) readLoop :: "BytesPipe \<Rightarrow> nat \<Rightarrow> string \<Rightarrow> (unit + string \<times> BytesPipe) option" where
  "readLoop bp k acc =
     (if bufLen bp > 0 then
        (case pbuf bp of
           [] \<Rightarrow> Some (Inl ())
         | b # bs \<Rightarrow>
             (case fixedBuffer_Read b k of
                (d, b1) \<Rightarrow>
                  (let bp1 = (if fixedBuffer_Len b1 = 0
                              then bp\<lparr>pbuf := bs, bufLen := bufLen bp - int (length d), bufPools := returnBuffer b1 (bufPools bp)\<rparr>
                              else bp\<lparr>pbuf := b1 # bs, bufLen := bufLen bp - int (length d)\<rparr>)
                   in if k = length d then Some (Inr (acc @ d, bp1))
                      else readLoop bp1 (k - length d) (acc @ d))))
      else Some (Inr (acc, bp)))"

section \<open>Threads\<close>

datatype pipeThread =
    PIdle
  | PWriting string nat nat bool
  | PReading nat bool

text \<open>\<open>wrote\<close> and \<open>got\<close> are the bytes that went into and came out of the pipe so far.\<close>

record pipeConf =
  pipe :: BytesPipe
  wrote :: string
  got :: string
  thr :: "nat \<Rightarrow> pipeThread"

fun woken :: "pipeThread \<Rightarrow> pipeThread" where
  "woken PIdle = PIdle"
| "woken (PWriting p w c _) = PWriting p w c True"
| "woken (PReading k _) = PReading k True"

text \<open>
  The end of a stretch of \<open>Write\<close> that began with \<open>p\<close> to write and count \<open>w\<close>: returning broadcasts
  unless the pipe was closed, waiting does not.
\<close>

definition writeStopped :: "nat \<Rightarrow> string \<Rightarrow> nat \<Rightarrow> writeStop \<times> BytesPipe \<Rightarrow> pipeConf \<Rightarrow> pipeConf" where
  "writeStopped t p w r c =
     (case r of
        (WReturn n err, bp) \<Rightarrow>
          c\<lparr>pipe := bp, wrote := wrote c @ take (n - w) p,
            thr := (if err = Some ErrClosed then thr c else woken \<circ> thr c)(t := PIdle)\<rparr>
      | (WWait q n cp, bp) \<Rightarrow>
          c\<lparr>pipe := bp, wrote := wrote c @ take (n - w) p, thr := (thr c)(t := PWriting q n cp False)\<rparr>)"

definition readReturned :: "nat \<Rightarrow> string \<times> BytesPipe \<Rightarrow> pipeConf \<Rightarrow> pipeConf" where
  "readReturned t r c = c\<lparr>pipe := snd r, got := got c @ fst r, thr := (woken \<circ> thr c)(t := PIdle)\<rparr>"

inductive pstep :: "nat \<Rightarrow> pipeConf \<Rightarrow> pipeConf \<Rightarrow> bool" where
  PWrite: "thr c t = PIdle \<Longrightarrow> writeLoop (pipe c) p 0 = Some r \<Longrightarrow> pstep t c (writeStopped t p 0 r c)"
| PWriteOn: "thr c t = PWriting p w cp True \<Longrightarrow> writeResume (pipe c) p w cp = Some r \<Longrightarrow>
    pstep t c (writeStopped t p w r c)"
| PReadClosed: "thr c t = PIdle \<Longrightarrow> bufLen (pipe c) = 0 \<Longrightarrow> closeErr (pipe c) \<noteq> None \<Longrightarrow> pstep t c c"
| PReadWait: "thr c t = PIdle \<Longrightarrow> bufLen (pipe c) = 0 \<Longrightarrow> closeErr (pipe c) = None \<Longrightarrow>
    pstep t c (c\<lparr>thr := (thr c)(t := PReading k False)\<rparr>)"
| PRead: "thr c t = PIdle \<Longrightarrow> bufLen (pipe c) \<noteq> 0 \<Longrightarrow> readLoop (pipe c) k '''' = Some (Inr r) \<Longrightarrow>
    pstep t c (readReturned t r c)"
| PReadOnClosed: "thr c t = PReading k True \<Longrightarrow> bufLen (pipe c) = 0 \<Longrightarrow> closeErr (pipe c) \<noteq> None \<Longrightarrow>
    pstep t c (c\<lparr>thr := (thr c)(t := PIdle)\<rparr>)"
| PReadOn: "thr c t = PReading k True \<Longrightarrow> \<not> (bufLen (pipe c) = 0 \<and> closeErr (pipe c) \<noteq> None) \<Longrightarrow>
    readLoop (pipe c) k '''' = Some (Inr r) \<Longrightarrow> pstep t c (readReturned t r c)"
| PClose: "thr c t = PIdle \<Longrightarrow>
    pstep t c (c\<lparr>pipe := CloseWithError err (pipe c), thr := woken \<circ> thr c\<rparr>)"

definition pipeInit :: pipeConf where
  "pipeInit = \<lparr>pipe = NewBytesPipe, wrote = '''', got = '''', thr = (\<lambda>_. PIdle)\<rparr>"

definition pipeReach :: "pipeConf \<Rightarrow> bool" where
  "pipeReach c \<longleftrightarrow> (\<lambda>c c'. \<exists>t. pstep t c c')\<^sup>*\<^sup>* pipeInit c"

section \<open>Well-formed pipes\<close>

definition fb_ok :: "fixedBuffer \<Rightarrow> bool" where
  "fb_ok b \<longleftrightarrow> lastRead b \<le> pos b \<and> pos b \<le> fixedBuffer_Cap b \<and> 0 < fixedBuffer_Cap b \<and> fixedBuffer_Cap b \<le> maxCap"

definition pools_ok :: "(nat \<Rightarrow> fixedBuffer list option) \<Rightarrow> bool" where
  "pools_ok pools \<longleftrightarrow>
     (\<forall>sz bs b. pools sz = Some bs \<longrightarrow> b \<in> set bs \<longrightarrow> fixedBuffer_Cap b = sz \<and> pos b = 0 \<and> lastRead b = 0)"

definition slices :: "fixedBuffer list \<Rightarrow> string" where
  "slices bs = concat (map fixedBuffer_String bs)"

definition pipe_ok :: "BytesPipe \<Rightarrow> bool" where
  "pipe_ok bp \<longleftrightarrow> (\<forall>b \<in> set (pbuf bp). fb_ok b) \<and> bufLen bp = int (length (slices (pbuf bp)))
     \<and> int (length (slices (butlast (pbuf bp)))) < blockThreshold \<and> pools_ok (bufPools bp)"

lemmas fb_defs = fixedBuffer_Write_def fixedBuffer_Read_def fixedBuffer_String_def fixedBuffer_Len_def
  fixedBuffer_Cap_def fixedBuffer_Reset_def newFixedBuffer_def fb_ok_def

lemma slices_simps [simp]:
  "slices [] = ''''" "slices (b # bs) = fixedBuffer_String b @ slices bs" "slices (bs @ cs) = slices bs @ slices cs"
  by (simp_all add: slices_def)

lemma String_length: "fb_ok b \<Longrightarrow> length (fixedBuffer_String b) = pos b - lastRead b"
  by (auto simp: fb_defs min_def)

lemma fixedBuffer_Write_spec:
  assumes "fb_ok b" "fixedBuffer_Write b p = (b1, n, err)"
  shows "fb_ok b1" "fixedBuffer_String b1 = fixedBuffer_String b @ take n p" "fixedBuffer_Cap b1 = fixedBuffer_Cap b"
    "n \<le> length p" "err = (if n < length p then Some ErrBufferFull else None)"
    "n = min (fixedBuffer_Cap b - pos b) (length p)"
  using assms by (auto simp: fb_defs Let_def drop_take split: if_splits)

lemma fixedBuffer_Read_spec:
  assumes "fb_ok b" "fixedBuffer_Read b k = (d, b1)"
  shows "fb_ok b1" "d = take k (fixedBuffer_String b)" "fixedBuffer_String b1 = drop k (fixedBuffer_String b)"
    "fixedBuffer_Cap b1 = fixedBuffer_Cap b" "fixedBuffer_Len b1 = 0 \<longleftrightarrow> fixedBuffer_String b1 = ''''"
  using assms by (auto simp: fb_defs Let_def drop_take min_def add.commute)

lemma getBuffer_spec:
  assumes "pools_ok pools" "getBuffer sz pools = (b, pools')"
  shows "fixedBuffer_Cap b = sz" "pos b = 0" "lastRead b = 0" "pools_ok pools'"
  using assms by (auto simp: getBuffer_def pools_ok_def newFixedBuffer_def fixedBuffer_Cap_def
      split: option.splits list.splits if_splits)

lemma returnBuffer_ok: "pools_ok pools \<Longrightarrow> pools_ok (returnBuffer b pools)"
  by (auto simp: returnBuffer_def pools_ok_def fixedBuffer_Cap_def fixedBuffer_Reset_def split: option.splits)

lemma pushBuffer_spec:
  assumes "pipe_ok bp" "bufLen bp < blockThreshold" "0 < sz" "sz \<le> maxCap"
  obtains b where "pipe_ok (pushBuffer sz bp)" "pbuf (pushBuffer sz bp) = pbuf bp @ [b]" "fixedBuffer_String b = ''''"
    "pos b = 0" "fixedBuffer_Cap b = sz" "closeErr (pushBuffer sz bp) = closeErr bp" "bufLen (pushBuffer sz bp) = bufLen bp"
proof -
  obtain b pools where g: "getBuffer sz (bufPools bp) = (b, pools)" by fastforce
  from assms(1) have "pools_ok (bufPools bp)" by (simp add: pipe_ok_def)
  note s = getBuffer_spec [OF this g]
  have "fb_ok b" "fixedBuffer_String b = ''''" using s assms(3,4) by (simp_all add: fb_ok_def fixedBuffer_String_def)
  then show ?thesis using g s assms that [of b] by (simp add: pushBuffer_def pipe_ok_def)
qed

lemma NewBytesPipe_ok: "pipe_ok NewBytesPipe" "slices (pbuf NewBytesPipe) = ''''" "closeErr NewBytesPipe = None"
  by (auto simp: NewBytesPipe_def pushBuffer_def getBuffer_def pipe_ok_def pools_ok_def minCap_def maxCap_def blockThreshold_def
      fb_defs slices_def)

text \<open>At most the threshold and one buffer more is held.\<close>

lemma pipe_ok_bound: "pipe_ok bp \<Longrightarrow> bufLen bp < 2000000"
proof (cases "pbuf bp" rule: rev_cases)
  case Nil
  then show "pipe_ok bp \<Longrightarrow> ?thesis" by (simp add: pipe_ok_def)
next
  case (snoc bs b)
  assume ok: "pipe_ok bp"
  then have "length (fixedBuffer_String b) \<le> maxCap" using snoc by (auto simp: pipe_ok_def String_length fb_ok_def)
  then show ?thesis using ok snoc by (simp add: pipe_ok_def maxCap_def blockThreshold_def)
qed

section \<open>Reading\<close>

lemma readLoop_spec:
  assumes "pipe_ok bp"
  shows "\<exists>bp'. readLoop bp k acc = Some (Inr (acc @ take k (slices (pbuf bp)), bp')) \<and> pipe_ok bp'
           \<and> slices (pbuf bp') = drop k (slices (pbuf bp)) \<and> closeErr bp' = closeErr bp"
  using assms
proof (induction "pbuf bp" arbitrary: bp k acc)
  case Nil
  then show ?case by (subst readLoop.simps) (simp add: pipe_ok_def)
next
  case (Cons b bs)
  note pb = Cons.hyps(2) [symmetric]
  show ?case
  proof (cases "bufLen bp > 0")
    case False
    then show ?thesis using Cons.prems by (subst readLoop.simps) (simp add: pipe_ok_def)
  next
    case True
    obtain d b1 where rd: "fixedBuffer_Read b k = (d, b1)" by fastforce
    have ok: "fb_ok b" using Cons.prems pb by (simp add: pipe_ok_def)
    note s = fixedBuffer_Read_spec [OF ok rd]
    define bp1 where "bp1 = (if fixedBuffer_Len b1 = 0
      then bp\<lparr>pbuf := bs, bufLen := bufLen bp - int (length d), bufPools := returnBuffer b1 (bufPools bp)\<rparr>
      else bp\<lparr>pbuf := b1 # bs, bufLen := bufLen bp - int (length d)\<rparr>)"
    have eq: "readLoop bp k acc = (if k = length d then Some (Inr (acc @ d, bp1)) else readLoop bp1 (k - length d) (acc @ d))"
      using True rd pb by (subst readLoop.simps) (simp add: bp1_def)
    have sl: "slices (pbuf bp1) = drop k (fixedBuffer_String b) @ slices bs" using s(3,5) by (auto simp: bp1_def)
    have c: "closeErr bp1 = closeErr bp" by (simp add: bp1_def)
    have ok1: "pipe_ok bp1" using Cons.prems s pb
      by (auto simp: bp1_def pipe_ok_def returnBuffer_ok min_def)
    show ?thesis
    proof (cases "k = length d")
      case True
      then show ?thesis using eq sl c ok1 s(2) pb by auto
    next
      case False
      then have "length (fixedBuffer_String b) < k" using s(2) by auto
      then have "fixedBuffer_String b1 = ''''" "d = fixedBuffer_String b" using s(2,3) by simp_all
      then have "pbuf bp1 = bs" using s(5) by (simp add: bp1_def)
      from Cons.hyps(1) [OF this [symmetric] ok1, of "k - length d" "acc @ d"] show ?thesis
        using False eq c pb \<open>pbuf bp1 = bs\<close> \<open>d = fixedBuffer_String b\<close> \<open>length (fixedBuffer_String b) < k\<close> by auto
    qed
  qed
qed


section \<open>Writing\<close>

text \<open>One round of the loop of \<open>Write\<close>: the state before the decision to stop, wait or add a buffer.\<close>

definition writeRound :: "BytesPipe \<Rightarrow> string \<Rightarrow> nat \<times> nat \<times> BytesPipe" where
  "writeRound bp p =
     (let bp1 = (if pbuf bp = [] then pushBuffer 64 bp else bp); (b1, n, err) = fixedBuffer_Write (last (pbuf bp1)) p
      in (n, fixedBuffer_Cap b1, bp1\<lparr>pbuf := butlast (pbuf bp1) @ [b1], bufLen := bufLen bp1 + int n\<rparr>))"

definition blocked :: "BytesPipe \<Rightarrow> nat" where
  "blocked bp = (if pbuf bp \<noteq> [] \<and> pos (last (pbuf bp)) = fixedBuffer_Cap (last (pbuf bp)) then 1 else 0)"

lemma writeRound_start:
  assumes "pipe_ok bp" "bp1 = (if pbuf bp = [] then pushBuffer 64 bp else bp)"
  shows "pipe_ok bp1" "pbuf bp1 \<noteq> []" "slices (pbuf bp1) = slices (pbuf bp)" "blocked bp1 = blocked bp" "closeErr bp1 = closeErr bp"
proof -
  have "pipe_ok bp1 \<and> pbuf bp1 \<noteq> [] \<and> slices (pbuf bp1) = slices (pbuf bp) \<and> blocked bp1 = blocked bp \<and> closeErr bp1 = closeErr bp"
  proof (cases "pbuf bp = []")
    case True
    then have "bufLen bp < blockThreshold" using assms(1) by (simp add: pipe_ok_def)
    from pushBuffer_spec [OF assms(1) this, of 64] obtain b where
      "pipe_ok (pushBuffer 64 bp)" "pbuf (pushBuffer 64 bp) = pbuf bp @ [b]" "fixedBuffer_String b = ''''"
      "pos b = 0" "fixedBuffer_Cap b = 64" "closeErr (pushBuffer 64 bp) = closeErr bp" by (auto simp: maxCap_def)
    then show ?thesis using True assms(2) by (simp add: blocked_def)
  qed (use assms in auto)
  then show "pipe_ok bp1" "pbuf bp1 \<noteq> []" "slices (pbuf bp1) = slices (pbuf bp)" "blocked bp1 = blocked bp" "closeErr bp1 = closeErr bp"
    by blast+
qed

lemma writeRound_spec:
  assumes "pipe_ok bp" "writeRound bp p = (n, cp, bp2)"
  shows "pipe_ok bp2" "slices (pbuf bp2) = slices (pbuf bp) @ take n p" "n \<le> length p" "closeErr bp2 = closeErr bp"
    "0 < cp" "cp \<le> maxCap" "n = 0 \<Longrightarrow> p \<noteq> '''' \<Longrightarrow> blocked bp = 1"
proof -
  define bp1 where "bp1 = (if pbuf bp = [] then pushBuffer 64 bp else bp)"
  note st = writeRound_start [OF assms(1) bp1_def]
  obtain bs b where pb: "pbuf bp1 = bs @ [b]" using st(2) by (metis rev_exhaust)
  obtain b1 m err where w: "fixedBuffer_Write b p = (b1, m, err)" by (metis prod_cases3)
  have ok: "fb_ok b" using st(1) pb by (simp add: pipe_ok_def)
  note s = fixedBuffer_Write_spec [OF ok w]
  have r: "n = m" "cp = fixedBuffer_Cap b1" "bp2 = bp1\<lparr>pbuf := bs @ [b1], bufLen := bufLen bp1 + int m\<rparr>"
    using assms(2) w by (auto simp: writeRound_def bp1_def [symmetric] pb)
  show "pipe_ok bp2" using st(1) s pb by (simp add: r pipe_ok_def min_absorb1 min_absorb2)
  show "slices (pbuf bp2) = slices (pbuf bp) @ take n p" using st(3) s(2) pb by (simp add: r)
  show "n \<le> length p" "closeErr bp2 = closeErr bp" using s(4) st(5) by (simp_all add: r)
  show "0 < cp" "cp \<le> maxCap" using s(1) by (simp_all add: r fb_ok_def)
  assume "n = 0" "p \<noteq> ''''"
  then show "blocked bp = 1" using st(4) s(6) ok pb by (auto simp: r blocked_def fb_ok_def min_def split: if_splits)
qed

lemma writeLoop_round:
  assumes "pipe_ok bp" "closeErr bp = None" "writeRound bp p = (n, cp, bp2)"
  shows "writeLoop bp p w =
           (if length p = n then Some (WReturn (w + n) None, bp2)
            else if blockThreshold \<le> bufLen bp2 then Some (WWait (drop n p) (w + n) cp, bp2)
            else writeLoop (pushBuffer (nextCap cp) bp2) (drop n p) (w + n))"
proof -
  define bp1 where "bp1 = (if pbuf bp = [] then pushBuffer 64 bp else bp)"
  note st = writeRound_start [OF assms(1) bp1_def]
  obtain b1 m err where wr: "fixedBuffer_Write (last (pbuf bp1)) p = (b1, m, err)" by (metis prod_cases3)
  have "fb_ok (last (pbuf bp1))" using st(1,2) by (simp add: pipe_ok_def)
  note s = fixedBuffer_Write_spec(5) [OF this wr]
  from assms(3) have "n = m" "cp = fixedBuffer_Cap b1" "bp2 = bp1\<lparr>pbuf := butlast (pbuf bp1) @ [b1], bufLen := bufLen bp1 + int m\<rparr>"
    by (auto simp: writeRound_def bp1_def [symmetric] wr)
  then show ?thesis using assms(2) s by (subst writeLoop.simps) (simp add: bp1_def [symmetric] wr)
qed

text \<open>What a stretch of \<open>Write\<close> has done when it stops.\<close>

fun writeDone :: "BytesPipe \<Rightarrow> string \<Rightarrow> nat \<Rightarrow> writeStop \<Rightarrow> BytesPipe \<Rightarrow> bool" where
  "writeDone bp p w (WReturn m err) bp' \<longleftrightarrow> pipe_ok bp' \<and> w \<le> m \<and> m \<le> w + length p
     \<and> slices (pbuf bp') = slices (pbuf bp) @ take (m - w) p
     \<and> err = (if closeErr bp = None then None else Some ErrClosed) \<and> (err = None \<longrightarrow> m = w + length p)"
| "writeDone bp p w (WWait q m cp) bp' \<longleftrightarrow> pipe_ok bp' \<and> w \<le> m \<and> m < w + length p
     \<and> slices (pbuf bp') = slices (pbuf bp) @ take (m - w) p \<and> q = drop (m - w) p \<and> 0 < cp \<and> cp \<le> maxCap
     \<and> closeErr bp = None \<and> blockThreshold \<le> bufLen bp'"

lemma writeDone_shift:
  assumes "writeDone bp2 (drop n p) (w + n) r bp'" "slices (pbuf bp2) = slices (pbuf bp) @ take n p" "n \<le> length p"
    "closeErr bp2 = closeErr bp"
  shows "writeDone bp p w r bp'"
proof -
  have tk: "take n p @ take (m - (w + n)) (drop n p) = take (m - w) p" if "w + n \<le> m" for m
    using that take_add [of n "m - (w + n)" p] by simp
  have dr: "drop (m - (w + n)) (drop n p) = drop (m - w) p" if "w + n \<le> m" for m using that by simp
  show ?thesis using assms by (cases r) (auto simp: tk dr)
qed

lemma nextCap_ok: "0 < c \<Longrightarrow> c \<le> maxCap \<Longrightarrow> 0 < nextCap c \<and> nextCap c \<le> maxCap"
  by (simp add: nextCap_def maxCap_def)


lemma writeLoop_spec:
  assumes "pipe_ok bp"
  shows "\<exists>r bp'. writeLoop bp p w = Some (r, bp') \<and> writeDone bp p w r bp'"
  using assms
proof (induction "2 * length p + blocked bp" arbitrary: bp p w rule: less_induct)
  case less
  show ?case
  proof (cases "closeErr bp")
    case (Some e)
    then show ?thesis using less.prems by (subst writeLoop.simps) simp
  next
    case None
    obtain n cp bp2 where wr: "writeRound bp p = (n, cp, bp2)" by (metis prod_cases3)
    note s = writeRound_spec [OF less.prems wr] and eq = writeLoop_round [OF less.prems None wr, of w]
    show ?thesis
    proof (cases "length p = n \<or> blockThreshold \<le> bufLen bp2")
      case True
      then show ?thesis using eq s None by auto
    next
      case False
      obtain b where b: "pipe_ok (pushBuffer (nextCap cp) bp2)" "pbuf (pushBuffer (nextCap cp) bp2) = pbuf bp2 @ [b]"
        "fixedBuffer_String b = ''''" "pos b = 0" "fixedBuffer_Cap b = nextCap cp"
        "closeErr (pushBuffer (nextCap cp) bp2) = closeErr bp2"
        using pushBuffer_spec [OF s(1), of "nextCap cp"] False nextCap_ok [OF s(5,6)] by auto
      have "blocked (pushBuffer (nextCap cp) bp2) = 0" using b nextCap_ok [OF s(5,6)] by (simp add: blocked_def)
      moreover have "p \<noteq> ''''" using False s(3) by auto
      ultimately have "2 * length (drop n p) + blocked (pushBuffer (nextCap cp) bp2) < 2 * length p + blocked bp"
        using s(7) False s(3) by (cases "n = 0") auto
      from less.hyps [OF this b(1), of "w + n"] obtain r bp' where
        r: "writeLoop (pushBuffer (nextCap cp) bp2) (drop n p) (w + n) = Some (r, bp')"
        "writeDone (pushBuffer (nextCap cp) bp2) (drop n p) (w + n) r bp'" by blast
      have "writeDone bp p w r bp'" by (rule writeDone_shift [OF r(2)]) (use b s in simp_all)
      then show ?thesis using eq r(1) False by auto
    qed
  qed
qed

lemma writeResume_spec:
  assumes "pipe_ok bp" "0 < c" "c \<le> maxCap" "p \<noteq> ''''"
  shows "\<exists>r bp'. writeResume bp p w c = Some (r, bp') \<and> writeDone bp p w r bp'"
proof -
  consider "closeErr bp \<noteq> None" | "closeErr bp = None" "blockThreshold \<le> bufLen bp" | "closeErr bp = None" "bufLen bp < blockThreshold"
    by fastforce
  then show ?thesis
  proof cases
    case 1
    then show ?thesis using writeLoop_spec [OF assms(1), of p w] by (simp add: writeResume_def)
  next
    case 2
    then show ?thesis using assms by (simp add: writeResume_def)
  next
    case 3
    obtain b where b: "pipe_ok (pushBuffer (nextCap c) bp)" "pbuf (pushBuffer (nextCap c) bp) = pbuf bp @ [b]"
      "fixedBuffer_String b = ''''" "closeErr (pushBuffer (nextCap c) bp) = closeErr bp"
      using pushBuffer_spec [OF assms(1) 3(2), of "nextCap c"] nextCap_ok [OF assms(2,3)] by blast
    from writeLoop_spec [OF b(1), of p w] obtain r bp' where
      r: "writeLoop (pushBuffer (nextCap c) bp) p w = Some (r, bp')" "writeDone (pushBuffer (nextCap c) bp) p w r bp'" by blast
    have "writeDone bp p w r bp'" by (rule writeDone_shift [where n = 0, OF _ _ _ b(4)]) (use b r(2) in simp_all)
    then show ?thesis using 3 r(1) by (simp add: writeResume_def)
  qed
qed

section \<open>All interleavings\<close>

definition thread_ok :: "pipeThread \<Rightarrow> bool" where
  "thread_ok x = (case x of PWriting p w c _ \<Rightarrow> p \<noteq> '''' \<and> 0 < c \<and> c \<le> maxCap | _ \<Rightarrow> True)"

definition pinv :: "pipeConf \<Rightarrow> bool" where
  "pinv c \<longleftrightarrow> pipe_ok (pipe c) \<and> got c @ slices (pbuf (pipe c)) = wrote c \<and> (\<forall>t. thread_ok (thr c t))"

lemma thread_ok_simps [simp]: "thread_ok (woken x) = thread_ok x" "thread_ok PIdle" "thread_ok (PReading k v)"
  "thread_ok (PWriting p w cp v) \<longleftrightarrow> p \<noteq> '''' \<and> 0 < cp \<and> cp \<le> maxCap"
  by (cases x; simp add: thread_ok_def) (simp_all add: thread_ok_def)

lemma pinv_writeStopped:
  assumes "pinv c" "writeDone (pipe c) p w r bp'"
  shows "pinv (writeStopped t p w (r, bp') c)"
  using assms by (cases r) (auto simp: pinv_def writeStopped_def)

lemma pinv_readReturned:
  assumes "pinv c" "readLoop (pipe c) k '''' = Some (Inr r)"
  shows "pinv (readReturned t r c)"
proof -
  obtain bp' where "r = (take k (slices (pbuf (pipe c))), bp')" "pipe_ok bp'" "slices (pbuf bp') = drop k (slices (pbuf (pipe c)))"
    using readLoop_spec [of "pipe c" k "''''"] assms by (auto simp: pinv_def)
  then show ?thesis using assms(1) by (simp add: pinv_def readReturned_def)
qed

lemma pinv_step: "pstep t c c' \<Longrightarrow> pinv c \<Longrightarrow> pinv c'"
proof (induction rule: pstep.induct)
  case (PWrite c t p r)
  then show ?case using writeLoop_spec [of "pipe c" p 0] pinv_writeStopped [of c p 0] by (auto simp: pinv_def)
next
  case (PWriteOn c t p w cp r)
  then have "pipe_ok (pipe c)" "0 < cp" "cp \<le> maxCap" "p \<noteq> ''''" by (auto simp: pinv_def dest: spec [of _ t])
  from writeResume_spec [OF this, of w] show ?case using PWriteOn pinv_writeStopped [of c p w] by auto
next
  case (PRead c t k r)
  then show ?case using pinv_readReturned by blast
next
  case (PReadOn c t k r)
  then show ?case using pinv_readReturned by blast
qed (auto simp: pinv_def CloseWithError_def pipe_ok_def)

lemma pinv_reach: "pipeReach c \<Longrightarrow> pinv c"
  unfolding pipeReach_def
proof (induction rule: rtranclp_induct)
  case base
  then show ?case using NewBytesPipe_ok by (simp add: pinv_def pipeInit_def)
next
  case (step c c')
  then show ?case using pinv_step by blast
qed


section \<open>Properties\<close>

text \<open>
  C10: Whatever threads write to, read from and close a pipe, in whatever order their stretches under
  the mutex follow each other: what has been read and what the buffers still hold is exactly what has been
  written, in order, nothing lost, doubled or taken from a recycled buffer; \<open>bufLen\<close> counts the bytes
  held and stays below twice the threshold; and a \<open>Read\<close> with room for \<open>k\<close> bytes returns without panic,
  with the first \<open>k\<close> of them or all there are.
\<close>
theorem bytespipe_fifo:
  assumes "pipeReach c"
  shows "got c @ slices (pbuf (pipe c)) = wrote c
    \<and> bufLen (pipe c) = int (length (wrote c)) - int (length (got c)) \<and> bufLen (pipe c) < 2000000
    \<and> (\<exists>bp. readLoop (pipe c) k '''' = Some (Inr (take k (drop (length (got c)) (wrote c)), bp)))"
proof -
  have inv: "pipe_ok (pipe c)" "got c @ slices (pbuf (pipe c)) = wrote c"
    using pinv_reach [OF assms] by (simp_all add: pinv_def)
  moreover have "length (wrote c) = length (got c) + length (slices (pbuf (pipe c)))" using arg_cong [OF inv(2), of length] by simp
  moreover have "drop (length (got c)) (wrote c) = slices (pbuf (pipe c))" using inv(2) by (metis append_eq_conv_conj)
  ultimately show ?thesis
    using readLoop_spec [OF inv(1), of k "''''"] pipe_ok_bound [OF inv(1)] by (auto simp: pipe_ok_def)
qed

lemma small_write: "\<exists>bp. writeLoop NewBytesPipe ''ab'' 0 = Some (WReturn 2 None, bp)"
  by (subst writeLoop.simps)
    (simp add: NewBytesPipe_def pushBuffer_def getBuffer_def minCap_def newFixedBuffer_def fixedBuffer_Write_def)

theorem bytespipe_fifo_witness:
  "\<exists>c bp. pipeReach c \<and> wrote c = ''ab'' \<and> readLoop (pipe c) 1 '''' = Some (Inr (''a'', bp))"
proof -
  obtain bp where "writeLoop (pipe pipeInit) ''ab'' 0 = Some (WReturn 2 None, bp)" using small_write by (auto simp: pipeInit_def)
  from pstep.PWrite [of pipeInit 0, OF _ this]
  have "pipeReach (writeStopped 0 ''ab'' 0 (WReturn 2 None, bp) pipeInit)"
    unfolding pipeReach_def by (intro r_into_rtranclp exI) (simp add: pipeInit_def)
  from bytespipe_fifo [OF this, of 1] this show ?thesis by (auto simp: writeStopped_def pipeInit_def)
qed

text \<open>
  C34: A wake-up is lost.  \<open>Write\<close> waits for room without telling a reader that is already waiting
  about the bytes it has put into the buffers: when a reader waits on the empty pipe and another thread writes two
  million bytes in one call, both wait, the buffers hold data, and neither thread has a step any more.
\<close>
theorem bytespipe_lost_wakeup:
  "\<exists>c q n cp. pipeReach c \<and> thr c 0 = PReading k False \<and> thr c 1 = PWriting q n cp False
     \<and> 0 < bufLen (pipe c) \<and> (\<nexists>c'. pstep 0 c c') \<and> (\<nexists>c'. pstep 1 c c')"
proof -
  obtain p :: string where p: "length p = 2000000" using Ex_list_of_length by blast
  define c1 where "c1 = pipeInit\<lparr>thr := (thr pipeInit)(0 := PReading k False)\<rparr>"
  have s1: "pstep 0 pipeInit c1" unfolding c1_def
    by (rule PReadWait) (use NewBytesPipe_ok in \<open>simp_all add: pipeInit_def pipe_ok_def\<close>)
  have c1: "pipe c1 = NewBytesPipe" "thr c1 = (\<lambda>_. PIdle)(0 := PReading k False)" by (simp_all add: c1_def pipeInit_def)
  obtain r bp where w: "writeLoop (pipe c1) p 0 = Some (r, bp)" "writeDone NewBytesPipe p 0 r bp"
    using writeLoop_spec [OF NewBytesPipe_ok(1), of p 0] c1 by auto
  have bp: "pipe_ok bp" using w(2) by (cases r) simp_all
  obtain q n cp where r: "r = WWait q n cp"
  proof (cases r)
    case (WReturn m err)
    then have "slices (pbuf bp) = p" using w(2) NewBytesPipe_ok(2,3) by auto
    then have "bufLen bp = 2000000" using bp by (simp add: pipe_ok_def p)
    then show ?thesis using pipe_ok_bound [OF bp] by simp
  qed
  define c2 where "c2 = writeStopped 1 p 0 (r, bp) c1"
  have s2: "pstep 1 c1 c2" unfolding c2_def by (rule PWrite [OF _ w(1)]) (simp add: c1)
  have c2: "pipe c2 = bp" "thr c2 0 = PReading k False" "thr c2 1 = PWriting q n cp False"
    by (simp_all add: c2_def writeStopped_def r c1)
  have "blockThreshold \<le> bufLen bp" using w(2) by (simp add: r)
  then have "0 < bufLen (pipe c2)" by (simp add: c2 blockThreshold_def)
  moreover have "pipeReach c2" unfolding pipeReach_def using s1 s2 by (intro converse_rtranclp_into_rtranclp [of _ pipeInit c1] r_into_rtranclp) blast+
  moreover have "\<nexists>c'. pstep 0 c2 c'" "\<nexists>c'. pstep 1 c2 c'" using c2 by (auto elim: pstep.cases)
  ultimately show ?thesis using c2 by blast
qed

end
