(* ===== verification/Shell_Words.thy ===== *)
theory Shell_Words
  imports Docker_Prelude
begin

text \<open>
  Substitution of variables and removal of quotes in the words of a Dockerfile:
  \<^verbatim>\<open>src/builder/dockerfile/shell_parser.go\<close>.

  The scanner is the text that is left, a rune a character of Latin-1, for which \<open>IsLetter\<close>,
  \<open>IsDigit\<close> and \<open>IsSpace\<close> are written out; the end of the text is \<open>None\<close>.  The functions
  that call each other recursively take fuel, \<open>None\<close> being the lack of it; \<open>ProcessWord\<close> starts with
  \<open>2 * length word + 2\<close>, and more never changes a result.  The second half states what a word
  means, by a grammar of segments, and that the functions compute it.
\<close>

section \<open>Runes\<close>

definition isSpace :: "char \<Rightarrow> bool" where
  "isSpace c \<longleftrightarrow> of_char c \<in> {9, 10, 11, 12, 13, 32, 0x85, 0xA0 :: nat}"

definition isDigit :: "char \<Rightarrow> bool" where
  "isDigit c \<longleftrightarrow> 48 \<le> (of_char c :: nat) \<and> (of_char c :: nat) \<le> 57"

definition isLetter :: "char \<Rightarrow> bool" where
  "isLetter c \<longleftrightarrow>
     (let n = (of_char c :: nat)
      in 65 \<le> n \<and> n \<le> 90 \<or> 97 \<le> n \<and> n \<le> 122 \<or> n \<in> {0xAA, 0xB5, 0xBA} \<or> 0xC0 \<le> n \<and> n \<noteq> 0xD7 \<and> n \<noteq> 0xF7)"

section \<open>Splitting into words\<close>

record wordsStruct =
  sword :: string
  swords :: "string list"
  inWord :: bool

definition addRawChar :: "char \<Rightarrow> wordsStruct \<Rightarrow> wordsStruct" where
  "addRawChar ch w = w\<lparr>sword := sword w @ [ch], inWord := True\<rparr>"

definition addChar :: "char \<Rightarrow> wordsStruct \<Rightarrow> wordsStruct" where
  "addChar ch w =
     (if isSpace ch \<and> inWord w then
        (if length (sword w) \<noteq> 0 then w\<lparr>swords := swords w @ [sword w], sword := '''', inWord := False\<rparr> else w)
      else if \<not> isSpace ch then addRawChar ch w
      else w)"

primrec addString :: "string \<Rightarrow> wordsStruct \<Rightarrow> wordsStruct" where
  "addString [] w = w"
| "addString (ch # str) w = addString str (addChar ch w)"

definition addRawString :: "string \<Rightarrow> wordsStruct \<Rightarrow> wordsStruct" where
  "addRawString str w = w\<lparr>sword := sword w @ str, inWord := True\<rparr>"

definition getWords :: "wordsStruct \<Rightarrow> string list" where
  "getWords w = (if length (sword w) > 0 then swords w @ [sword w] else swords w)"

definition emptyWords :: wordsStruct where
  "emptyWords = \<lparr>sword = '''', swords = [], inWord = False\<rparr>"

section \<open>Variables\<close>

text \<open>\<open>env[:i]\<close> and \<open>env[i+1:]\<close> for the first equals sign, if there is one.\<close>

definition cutEq :: "string \<Rightarrow> (string \<times> string) option" where
  "cutEq e = (case dropWhile (\<lambda>c. c \<noteq> CHR ''='') e of [] \<Rightarrow> None | _ # v \<Rightarrow> Some (takeWhile (\<lambda>c. c \<noteq> CHR ''='') e, v))"

primrec getEnv :: "string list \<Rightarrow> string \<Rightarrow> string" where
  "getEnv [] name = ''''"
| "getEnv (e # es) name =
     (case cutEq e of
        None \<Rightarrow> if name = e then '''' else getEnv es name
      | Some (k, v) \<Rightarrow> if name \<noteq> k then getEnv es name else v)"

definition nameChar :: "char \<Rightarrow> bool" where
  "nameChar ch \<longleftrightarrow> \<not> (\<not> isLetter ch \<and> \<not> isDigit ch \<and> ch \<noteq> CHR ''_'')"

primrec processName :: "string \<Rightarrow> string \<Rightarrow> string \<times> string" where
  "processName name [] = (name, [])"
| "processName name (ch # s) =
     (if length name = 0 \<and> isDigit ch then ([ch], s)
      else if \<not> nameChar ch then (name, ch # s)
      else processName (name @ [ch]) s)"

section \<open>Quotes and substitutions\<close>

datatype shellError = UnsupportedModifier "char option" string | MissingColon string

type_synonym 'a scanned = "(shellError + 'a \<times> string) option"

definition peek :: "string \<Rightarrow> char option" where
  "peek s = (case s of [] \<Rightarrow> None | c # _ \<Rightarrow> Some c)"

definition starts :: "char \<Rightarrow> string \<Rightarrow> bool" where
  "starts c s \<longleftrightarrow> peek s = Some c"

text \<open>The loop of \<open>processSingleQuote\<close>, after the opening quote.\<close>

primrec singleQuoteLoop :: "string \<Rightarrow> string \<Rightarrow> string \<times> string" where
  "singleQuoteLoop result [] = (result, [])"
| "singleQuoteLoop result (ch # s) = (if ch = CHR 0x27 then (result, s) else singleQuoteLoop (result @ [ch]) s)"

definition processSingleQuote :: "string \<Rightarrow> string \<times> string" where
  "processSingleQuote s = singleQuoteLoop '''' (tl s)"

fun thenScan :: "'a scanned \<Rightarrow> ('a \<Rightarrow> string \<Rightarrow> 'b scanned) \<Rightarrow> 'b scanned" where
  "thenScan None k = None"
| "thenScan (Some (Inl e)) k = Some (Inl e)"
| "thenScan (Some (Inr (x, s))) k = k x s"

lemma thenScan_cong [fundef_cong]:
  "m = m' \<Longrightarrow> (\<And>x s. m' = Some (Inr (x, s)) \<Longrightarrow> k x s = k' x s) \<Longrightarrow> thenScan m k = thenScan m' k'"
  by (cases "(m', k')" rule: thenScan.cases) auto

text \<open>The switch on the modifier of \<open>${name:...}\<close>.\<close>

definition applyModifier :: "string \<Rightarrow> char option \<Rightarrow> string \<Rightarrow> string \<Rightarrow> shellError + string" where
  "applyModifier whole modifier newValue word =
     (if modifier = Some (CHR ''+'') then Inr (if newValue \<noteq> '''' then word else newValue)
      else if modifier = Some (CHR ''-'') then Inr (if newValue = '''' then word else newValue)
      else Inl (UnsupportedModifier modifier whole))"

fun withRest :: "shellError + 'a \<Rightarrow> string \<Rightarrow> 'a scanned" where
  "withRest (Inl e) r = Some (Inl e)"
| "withRest (Inr v) r = Some (Inr (v, r))"

function (sequential) processStopOn :: "nat \<Rightarrow> string \<Rightarrow> string list \<Rightarrow> char option \<Rightarrow> string \<Rightarrow> wordsStruct \<Rightarrow> string \<Rightarrow> (string \<times> string list) scanned"
  and processDoubleQuote :: "nat \<Rightarrow> string \<Rightarrow> string list \<Rightarrow> string \<Rightarrow> string scanned"
  and doubleQuoteLoop :: "nat \<Rightarrow> string \<Rightarrow> string list \<Rightarrow> string \<Rightarrow> string \<Rightarrow> string scanned"
  and processDollar :: "nat \<Rightarrow> string \<Rightarrow> string list \<Rightarrow> string \<Rightarrow> string scanned" where
  "processStopOn 0 whole envs stopChar result words s = None"
| "processStopOn (Suc n) whole envs stopChar result words s =
     (case s of
        [] \<Rightarrow> Some (Inr ((result, getWords words), []))
      | ch # r \<Rightarrow>
          if stopChar = Some ch then Some (Inr ((result, getWords words), r))
          else if ch = CHR 0x27 then
            (case processSingleQuote s of
               (tmp, r1) \<Rightarrow> processStopOn n whole envs stopChar (result @ tmp) (addRawString tmp words) r1)
          else if ch = CHR 0x22 then
            thenScan (processDoubleQuote n whole envs s) (\<lambda>tmp r1.
              processStopOn n whole envs stopChar (result @ tmp) (addRawString tmp words) r1)
          else if ch = CHR ''$'' then
            thenScan (processDollar n whole envs s) (\<lambda>tmp r1.
              processStopOn n whole envs stopChar (result @ tmp) (addString tmp words) r1)
          else if ch = CHR 0x5C then
            (case r of
               [] \<Rightarrow> Some (Inr ((result, getWords words), []))
             | ch2 # r2 \<Rightarrow> processStopOn n whole envs stopChar (result @ [ch2]) (addRawChar ch2 words) r2)
          else processStopOn n whole envs stopChar (result @ [ch]) (addChar ch words) r)"
| "processDoubleQuote 0 whole envs s = None"
| "processDoubleQuote (Suc n) whole envs s = doubleQuoteLoop n whole envs '''' (tl s)"
| "doubleQuoteLoop 0 whole envs result s = None"
| "doubleQuoteLoop (Suc n) whole envs result s =
     (case s of
        [] \<Rightarrow> Some (Inr (result, []))
      | ch # r \<Rightarrow>
          if ch = CHR 0x22 then Some (Inr (result, r))
          else if ch = CHR ''$'' then
            thenScan (processDollar n whole envs s) (\<lambda>tmp r1. doubleQuoteLoop n whole envs (result @ tmp) r1)
          else if ch = CHR 0x5C then
            (case r of
               [] \<Rightarrow> doubleQuoteLoop n whole envs result []
             | ch2 # r2 \<Rightarrow>
                 if ch2 = CHR 0x22 \<or> ch2 = CHR ''$'' then doubleQuoteLoop n whole envs (result @ [ch2]) r2
                 else doubleQuoteLoop n whole envs (result @ [ch]) r)
          else doubleQuoteLoop n whole envs (result @ [ch]) r)"
| "processDollar 0 whole envs s = None"
| "processDollar (Suc n) whole envs s =
     (if starts (CHR ''{'') (tl s) then
        (case processName '''' (tl (tl s)) of
           (name, r) \<Rightarrow>
             if starts (CHR ''}'') r then Some (Inr (getEnv envs name, tl r))
             else if starts (CHR '':'') r then
               thenScan (processStopOn n whole envs (Some (CHR ''}'')) '''' emptyWords (tl (tl r))) (\<lambda>(word, _) r1.
                 withRest (applyModifier whole (peek (tl r)) (getEnv envs name) word) r1)
             else Some (Inl (MissingColon whole)))
      else
        (case processName '''' (tl s) of
           (name, r) \<Rightarrow> Some (Inr (if name = '''' then ''$'' else getEnv envs name, r))))"
  by pat_completeness auto
termination
  by (relation "measure (case_sum (case_sum (\<lambda>x. fst x) (\<lambda>x. fst x)) (case_sum (\<lambda>x. fst x) (\<lambda>x. fst x)))") simp_all

definition process :: "string \<Rightarrow> string list \<Rightarrow> (string \<times> string list) scanned" where
  "process word env = processStopOn (2 * length word + 2) word env None '''' emptyWords word"

definition ProcessWord :: "string \<Rightarrow> string list \<Rightarrow> (shellError + string) option" where
  "ProcessWord word env = map_option (map_sum id (fst \<circ> fst)) (process word env)"

definition ProcessWords :: "string \<Rightarrow> string list \<Rightarrow> (shellError + string list) option" where
  "ProcessWords word env = map_option (map_sum id (snd \<circ> fst)) (process word env)"

section \<open>The fuel is enough\<close>

lemma thenScan_Inr: "thenScan m k = Some (Inr z) \<longleftrightarrow> (\<exists>x s. m = Some (Inr (x, s)) \<and> k x s = Some (Inr z))"
  by (cases "(m, k)" rule: thenScan.cases) auto

lemma thenScan_None: "thenScan m k = None \<longleftrightarrow> m = None \<or> (\<exists>x s. m = Some (Inr (x, s)) \<and> k x s = None)"
  by (cases "(m, k)" rule: thenScan.cases) auto

lemma withRest_iff [simp]: "withRest m r = Some (Inr z) \<longleftrightarrow> m = Inr (fst z) \<and> r = snd z" "withRest m r \<noteq> None"
  by (cases m; cases z; auto) (cases m; simp)

lemma processName_shrinks: "processName name s = (name', r) \<Longrightarrow> length r \<le> length s"
  by (induction s arbitrary: name) (auto split: if_splits simp: le_SucI)

lemma singleQuote_shrinks: "singleQuoteLoop res s = (tmp, r) \<Longrightarrow> length r \<le> length s"
  by (induction s arbitrary: res) (auto split: if_splits simp: le_SucI)

definition shrinking :: "nat \<Rightarrow> bool" where
  "shrinking n \<longleftrightarrow>
     (\<forall>whole envs sc res ws s x r. processStopOn n whole envs sc res ws s = Some (Inr (x, r)) \<longrightarrow> length r \<le> length s)
   \<and> (\<forall>whole envs s y r. processDoubleQuote n whole envs s = Some (Inr (y, r)) \<longrightarrow> length r \<le> length s - 1)
   \<and> (\<forall>whole envs res s y r. doubleQuoteLoop n whole envs res s = Some (Inr (y, r)) \<longrightarrow> length r \<le> length s)
   \<and> (\<forall>whole envs s y r. processDollar n whole envs s = Some (Inr (y, r)) \<longrightarrow> length r \<le> length s - 1)"

lemma shrinkingD:
  assumes "shrinking n"
  shows "processStopOn n whole envs sc res ws s = Some (Inr (x, r)) \<Longrightarrow> length r \<le> length s"
    "processDoubleQuote n whole envs s = Some (Inr (y, r)) \<Longrightarrow> length r \<le> length s - 1"
    "doubleQuoteLoop n whole envs res s = Some (Inr (y, r)) \<Longrightarrow> length r \<le> length s"
    "processDollar n whole envs s = Some (Inr (y, r)) \<Longrightarrow> length r \<le> length s - 1"
  using assms unfolding shrinking_def by fast+

lemma stop_shrinks:
  assumes "shrinking n" "processStopOn (Suc n) whole envs sc res ws s = Some (Inr (x, r))"
  shows "length r \<le> length s"
  using assms(2)
  by (auto split: list.splits if_splits prod.splits simp: thenScan_Inr processSingleQuote_def
      dest!: shrinkingD [OF assms(1)] singleQuote_shrinks)

lemma dqLoop_shrinks:
  assumes "shrinking n" "doubleQuoteLoop (Suc n) whole envs res s = Some (Inr (y, r))"
  shows "length r \<le> length s"
  using assms(2)
  by (auto split: list.splits if_splits simp: thenScan_Inr dest!: shrinkingD [OF assms(1)])

lemma dollar_shrinks:
  assumes "shrinking n" "processDollar (Suc n) whole envs s = Some (Inr (y, r))"
  shows "length r \<le> length s - 1"
proof (cases "starts (CHR ''{'') (tl s)")
  case True
  obtain name q where q: "processName '''' (tl (tl s)) = (name, q)" by fastforce
  note len = processName_shrinks [OF q]
  consider "starts (CHR ''}'') q" | "\<not> starts (CHR ''}'') q" "starts (CHR '':'') q"
    using assms(2) True q by (auto split: if_splits)
  then show ?thesis
  proof cases
    case 1
    then show ?thesis using assms(2) True q len by auto
  next
    case 2
    then obtain x where "processStopOn n whole envs (Some (CHR ''}'')) '''' emptyWords (tl (tl q)) = Some (Inr (x, r))"
      using assms(2) True q by (auto simp: thenScan_Inr)
    from shrinkingD(1) [OF assms(1) this] show ?thesis using len by simp
  qed
next
  case False
  then show ?thesis using assms(2) by (auto split: prod.splits dest!: processName_shrinks)
qed

lemma shrinks: "shrinking n"
proof (induction n)
  case 0
  then show ?case by (simp add: shrinking_def)
next
  case (Suc n)
  have "processDoubleQuote (Suc n) whole envs s = Some (Inr (y, r)) \<Longrightarrow> length r \<le> length s - 1" for whole envs s y r
    using shrinkingD(3) [OF Suc] by fastforce
  then show ?case
    unfolding shrinking_def using stop_shrinks [OF Suc] dqLoop_shrinks [OF Suc] dollar_shrinks [OF Suc] by (intro conjI allI impI)
qed

definition enough :: "nat \<Rightarrow> bool" where
  "enough n \<longleftrightarrow>
     (\<forall>whole envs sc res ws s. 2 * length s + 2 \<le> n \<longrightarrow> processStopOn n whole envs sc res ws s \<noteq> None)
   \<and> (\<forall>whole envs s. s \<noteq> [] \<longrightarrow> 2 * length s + 1 \<le> n \<longrightarrow> processDoubleQuote n whole envs s \<noteq> None)
   \<and> (\<forall>whole envs res s. 2 * length s + 2 \<le> n \<longrightarrow> doubleQuoteLoop n whole envs res s \<noteq> None)
   \<and> (\<forall>whole envs s. s \<noteq> [] \<longrightarrow> 2 * length s + 1 \<le> n \<longrightarrow> processDollar n whole envs s \<noteq> None)"

lemma enoughD:
  assumes "enough n"
  shows "2 * length s + 2 \<le> n \<Longrightarrow> processStopOn n whole envs sc res ws s \<noteq> None"
    "s \<noteq> [] \<Longrightarrow> 2 * length s + 1 \<le> n \<Longrightarrow> processDoubleQuote n whole envs s \<noteq> None"
    "2 * length s + 2 \<le> n \<Longrightarrow> doubleQuoteLoop n whole envs res s \<noteq> None"
    "s \<noteq> [] \<Longrightarrow> 2 * length s + 1 \<le> n \<Longrightarrow> processDollar n whole envs s \<noteq> None"
  using assms unfolding enough_def by fast+

lemma thenScan_total:
  "m \<noteq> None \<Longrightarrow> (\<And>x q. m = Some (Inr (x, q)) \<Longrightarrow> k x q \<noteq> None) \<Longrightarrow> thenScan m k \<noteq> None"
  by (cases "(m, k)" rule: thenScan.cases) auto

lemma if_total: "(c \<Longrightarrow> a \<noteq> None) \<Longrightarrow> (\<not> c \<Longrightarrow> b \<noteq> None) \<Longrightarrow> (if c then a else b) \<noteq> None"
  by simp

lemma stop_enough:
  assumes "enough n" "2 * length s + 2 \<le> Suc n"
  shows "processStopOn (Suc n) whole envs sc res ws s \<noteq> None"
proof (cases s)
  case (Cons ch r)
  have en: "processStopOn n whole envs sc res' ws' q \<noteq> None" if "length q \<le> length r" for res' ws' q
    using that assms Cons enoughD(1) [OF assms(1)] by simp
  have sq: "length (snd (processSingleQuote (ch # r))) \<le> length r"
    using singleQuote_shrinks [of _ r] by (metis list.sel(3) prod.collapse processSingleQuote_def)
  have dq: "processDoubleQuote n whole envs (ch # r) \<noteq> None" "processDollar n whole envs (ch # r) \<noteq> None"
    using enoughD(2,4) [OF assms(1)] assms(2) Cons by simp_all
  have sh: "processDoubleQuote n whole envs (ch # r) = Some (Inr (tmp, q)) \<Longrightarrow> length q \<le> length r"
    "processDollar n whole envs (ch # r) = Some (Inr (tmp, q)) \<Longrightarrow> length q \<le> length r" for tmp q
    using shrinkingD(2,4) [OF shrinks] by fastforce+
  show ?thesis
    unfolding Cons processStopOn.simps list.case prod.case_eq_if
    by (intro if_total thenScan_total dq en sq) (auto simp: en sh simp del: not_None_eq split: list.split)
qed simp

lemma dqLoop_enough:
  assumes "enough n" "2 * length s + 2 \<le> Suc n"
  shows "doubleQuoteLoop (Suc n) whole envs res s \<noteq> None"
proof (cases s)
  case (Cons ch r)
  have en: "doubleQuoteLoop n whole envs res' q \<noteq> None" if "length q \<le> length r" for res' q
    using that assms Cons enoughD(3) [OF assms(1)] by simp
  have dq: "processDollar n whole envs (ch # r) \<noteq> None"
    using enoughD(4) [OF assms(1)] assms(2) Cons by simp
  have sh: "processDollar n whole envs (ch # r) = Some (Inr (tmp, q)) \<Longrightarrow> length q \<le> length r" for tmp q
    using shrinkingD(4) [OF shrinks] by fastforce
  show ?thesis
    unfolding Cons doubleQuoteLoop.simps list.case
    by (intro if_total thenScan_total dq en) (auto simp: en sh simp del: not_None_eq split: list.split)
qed simp

lemma dollar_enough:
  assumes "enough n" "s \<noteq> []" "2 * length s + 1 \<le> Suc n"
  shows "processDollar (Suc n) whole envs s \<noteq> None"
proof -
  have "2 * length (tl (tl (snd (processName [] (tl (tl s)))))) + 2 \<le> n"
    using processName_shrinks [of "[]" "tl (tl s)"] assms(2,3) by (cases s; cases "processName [] (tl (tl s))") auto
  then show ?thesis
    unfolding processDollar.simps prod.case_eq_if
    by (intro if_total thenScan_total enoughD(1) [OF assms(1)]) auto
qed

lemma enough: "enough n"
proof (induction n)
  case 0
  then show ?case by (simp add: enough_def)
next
  case (Suc n)
  have "s \<noteq> [] \<Longrightarrow> 2 * length s + 1 \<le> Suc n \<Longrightarrow> processDoubleQuote (Suc n) whole envs s \<noteq> None" for s whole envs
    using enoughD(3) [OF Suc, of "tl s"] by (cases s) auto
  then show ?case
    unfolding enough_def using stop_enough [OF Suc] dqLoop_enough [OF Suc] dollar_enough [OF Suc] by (intro conjI allI impI)
qed

text \<open>More fuel does not change a result.\<close>

definition refines :: "'a option \<Rightarrow> 'a option \<Rightarrow> bool" where
  "refines m m' \<longleftrightarrow> m = None \<or> m = m'"

lemma refines_refl: "refines m m"
  by (simp add: refines_def)

lemma refines_if: "(c \<Longrightarrow> refines a a') \<Longrightarrow> (\<not> c \<Longrightarrow> refines b b') \<Longrightarrow> refines (if c then a else b) (if c then a' else b')"
  by simp

lemma refines_list:
  "(l = [] \<Longrightarrow> refines a a') \<Longrightarrow> (\<And>x xs. l = x # xs \<Longrightarrow> refines (f x xs) (f' x xs)) \<Longrightarrow>
   refines (case l of [] \<Rightarrow> a | x # xs \<Rightarrow> f x xs) (case l of [] \<Rightarrow> a' | x # xs \<Rightarrow> f' x xs)"
  by (cases l) simp_all

lemma refines_prod: "(\<And>x y. refines (f x y) (f' x y)) \<Longrightarrow> refines (case p of (x, y) \<Rightarrow> f x y) (case p of (x, y) \<Rightarrow> f' x y)"
  by (cases p) simp

lemma refines_thenScan: "refines m m' \<Longrightarrow> (\<And>x s. refines (k x s) (k' x s)) \<Longrightarrow> refines (thenScan m k) (thenScan m' k')"
  unfolding refines_def by (cases "(m, k)" rule: thenScan.cases) (simp, fastforce, metis Pair_inject thenScan.simps(1,3))

lemmas refines_intros = refines_if refines_list refines_prod refines_thenScan

lemma fuel_step:
  "refines (processStopOn n whole envs sc res ws s) (processStopOn (Suc n) whole envs sc res ws s)"
  "refines (processDoubleQuote n whole envs s) (processDoubleQuote (Suc n) whole envs s)"
  "refines (doubleQuoteLoop n whole envs res s) (doubleQuoteLoop (Suc n) whole envs res s)"
  "refines (processDollar n whole envs s) (processDollar (Suc n) whole envs s)"
proof (induction n arbitrary: sc res ws s)
  case (Suc n)
  note s1 = processStopOn.simps(2) processDoubleQuote.simps(2) doubleQuoteLoop.simps(2) processDollar.simps(2)
  {
    case 1
    show ?case by (subst (1 2) s1(1)) (intro refines_intros Suc refines_refl)
  next
    case 2
    show ?case by (subst (1 2) s1(2)) (rule Suc)
  next
    case 3
    show ?case by (subst (1 2) s1(3)) (intro refines_intros Suc refines_refl)
  next
    case 4
    show ?case by (subst (1 2) s1(4)) (intro refines_intros Suc refines_refl)
  }
qed (simp_all add: refines_def)

lemma refines_up:
  assumes "\<And>n. refines (f n) (f (Suc n))" "f n \<noteq> None" "n \<le> m"
  shows "f m = f n"
  using assms(3)
proof (induction rule: dec_induct)
  case base
  show ?case by (rule refl)
next
  case (step m)
  then show ?case using assms(1) [of m] assms(2) by (auto simp: refines_def)
qed

text \<open>The functions without fuel.\<close>

definition scanWord :: "string \<Rightarrow> string list \<Rightarrow> char option \<Rightarrow> string \<Rightarrow> wordsStruct \<Rightarrow> string \<Rightarrow> (string \<times> string list) scanned" where
  "scanWord whole envs sc res ws s = processStopOn (2 * length s + 2) whole envs sc res ws s"

definition scanQuoted :: "string \<Rightarrow> string list \<Rightarrow> string \<Rightarrow> string \<Rightarrow> string scanned" where
  "scanQuoted whole envs res s = doubleQuoteLoop (2 * length s + 2) whole envs res s"

definition scanDollar :: "string \<Rightarrow> string list \<Rightarrow> string \<Rightarrow> string scanned" where
  "scanDollar whole envs s = processDollar (2 * length s + 1) whole envs s"

lemma fuel_free:
  "2 * length s + 2 \<le> n \<Longrightarrow> processStopOn n whole envs sc res ws s = scanWord whole envs sc res ws s"
  "2 * length s + 2 \<le> n \<Longrightarrow> doubleQuoteLoop n whole envs res s = scanQuoted whole envs res s"
  "s \<noteq> [] \<Longrightarrow> 2 * length s + 1 \<le> n \<Longrightarrow> processDollar n whole envs s = scanDollar whole envs s"
proof -
  show "2 * length s + 2 \<le> n \<Longrightarrow> processStopOn n whole envs sc res ws s = scanWord whole envs sc res ws s"
    unfolding scanWord_def using enoughD(1) [OF enough]
    by (intro refines_up [where f = "\<lambda>n. processStopOn n whole envs sc res ws s"] fuel_step) blast+
  show "2 * length s + 2 \<le> n \<Longrightarrow> doubleQuoteLoop n whole envs res s = scanQuoted whole envs res s"
    unfolding scanQuoted_def using enoughD(3) [OF enough]
    by (intro refines_up [where f = "\<lambda>n. doubleQuoteLoop n whole envs res s"] fuel_step) blast+
  show "s \<noteq> [] \<Longrightarrow> 2 * length s + 1 \<le> n \<Longrightarrow> processDollar n whole envs s = scanDollar whole envs s"
    unfolding scanDollar_def using enoughD(4) [OF enough]
    by (intro refines_up [where f = "\<lambda>n. processDollar n whole envs s"] fuel_step) blast+
qed

section \<open>The functions without fuel, case by case\<close>

declare processStopOn.simps(2) [simp del] doubleQuoteLoop.simps(2) [simp del] processDollar.simps(2) [simp del]

lemma scan_unfold:
  "scanWord whole envs sc res ws s = processStopOn (Suc (2 * length s + 1)) whole envs sc res ws s"
  "scanQuoted whole envs res s = doubleQuoteLoop (Suc (2 * length s + 1)) whole envs res s"
  "scanDollar whole envs s = processDollar (Suc (2 * length s)) whole envs s"
  by (simp_all add: scanWord_def scanQuoted_def scanDollar_def)

lemmas scanWord_unfold = scan_unfold(1) [unfolded processStopOn.simps(2)]
  and scanQuoted_unfold = scan_unfold(2) [unfolded doubleQuoteLoop.simps(2)]
  and scanDollar_unfold = scan_unfold(3) [unfolded processDollar.simps(2)]

definition special :: "char \<Rightarrow> bool" where
  "special c \<longleftrightarrow> c \<in> {CHR 0x27, CHR 0x22, CHR ''$'', CHR 0x5C}"

lemma scanWord_end:
  "scanWord whole envs sc res ws [] = Some (Inr ((res, getWords ws), []))"
  "scanWord whole envs (Some c) res ws (c # r) = Some (Inr ((res, getWords ws), r))"
  by (simp_all add: scanWord_unfold)

lemma scanWord_plain:
  "sc \<noteq> Some c \<Longrightarrow> \<not> special c \<Longrightarrow> scanWord whole envs sc res ws (c # r) = scanWord whole envs sc (res @ [c]) (addChar c ws) r"
  unfolding scanWord_unfold [of _ _ _ _ _ "c # r"]
  by (simp add: special_def fuel_free(1))

lemma scanWord_escaped:
  "sc \<noteq> Some (CHR 0x5C) \<Longrightarrow>
   scanWord whole envs sc res ws (CHR 0x5C # c # r) = scanWord whole envs sc (res @ [c]) (addRawChar c ws) r"
  unfolding scanWord_unfold [of _ _ _ _ _ "CHR 0x5C # c # r"]
  by (simp add: fuel_free(1))

lemma singleQuoteLoop_text: "CHR 0x27 \<notin> set t \<Longrightarrow> singleQuoteLoop res (t @ CHR 0x27 # r) = (res @ t, r)"
  by (induction t arbitrary: res) auto

lemma scanWord_single:
  "sc \<noteq> Some (CHR 0x27) \<Longrightarrow> CHR 0x27 \<notin> set t \<Longrightarrow>
   scanWord whole envs sc res ws (CHR 0x27 # t @ CHR 0x27 # r) = scanWord whole envs sc (res @ t) (addRawString t ws) r"
  unfolding scanWord_unfold [of _ _ _ _ _ "CHR 0x27 # t @ CHR 0x27 # r"]
  by (simp add: fuel_free(1) processSingleQuote_def singleQuoteLoop_text)

lemma scanWord_double:
  assumes "sc \<noteq> Some (CHR 0x22)" "scanQuoted whole envs '''' s = Some (Inr (tmp, r))" "length r \<le> length s"
  shows "scanWord whole envs sc res ws (CHR 0x22 # s) = scanWord whole envs sc (res @ tmp) (addRawString tmp ws) r"
  using assms unfolding scanWord_unfold [of _ _ _ _ _ "CHR 0x22 # s"]
  by (simp add: fuel_free)

lemma scanWord_dollar:
  assumes "sc \<noteq> Some (CHR ''$'')" "scanDollar whole envs (CHR ''$'' # s) = Some (Inr (tmp, r))" "length r \<le> length s"
  shows "scanWord whole envs sc res ws (CHR ''$'' # s) = scanWord whole envs sc (res @ tmp) (addString tmp ws) r"
  using assms unfolding scanWord_unfold [of _ _ _ _ _ "CHR ''$'' # s"]
  by (simp add: fuel_free)

lemma scanQuoted_end: "scanQuoted whole envs res (CHR 0x22 # r) = Some (Inr (res, r))"
  by (simp add: scanQuoted_unfold)

lemma scanQuoted_plain:
  "c \<notin> {CHR 0x22, CHR ''$'', CHR 0x5C} \<Longrightarrow> scanQuoted whole envs res (c # r) = scanQuoted whole envs (res @ [c]) r"
  unfolding scanQuoted_unfold [of _ _ _ "c # r"] by (simp add: fuel_free)

lemma scanQuoted_escaped:
  "c \<in> {CHR 0x22, CHR ''$''} \<Longrightarrow> scanQuoted whole envs res (CHR 0x5C # c # r) = scanQuoted whole envs (res @ [c]) r"
  unfolding scanQuoted_unfold [of _ _ _ "CHR 0x5C # c # r"] by (auto simp add: fuel_free)

lemma scanQuoted_backslash:
  "c \<notin> {CHR 0x22, CHR ''$''} \<Longrightarrow>
   scanQuoted whole envs res (CHR 0x5C # c # r) = scanQuoted whole envs (res @ [CHR 0x5C]) (c # r)"
  unfolding scanQuoted_unfold [of _ _ _ "CHR 0x5C # c # r"] by (auto simp add: fuel_free)

lemma scanQuoted_dollar:
  assumes "scanDollar whole envs (CHR ''$'' # s) = Some (Inr (tmp, r))" "length r \<le> length s"
  shows "scanQuoted whole envs res (CHR ''$'' # s) = scanQuoted whole envs (res @ tmp) r"
  using assms unfolding scanQuoted_unfold [of _ _ _ "CHR ''$'' # s"] by (simp add: fuel_free)

text \<open>A name that \<open>processName\<close> reads: a digit, or letters, digits and underscores not starting with a digit.\<close>

definition varName :: "string \<Rightarrow> bool" where
  "varName v \<longleftrightarrow> (\<exists>d. v = [d] \<and> isDigit d) \<or> (list_all nameChar v \<and> v \<noteq> [] \<and> \<not> isDigit (hd v))"

text \<open>It is read up to its end before the next character, if any.\<close>

definition nameEnds :: "string \<Rightarrow> char option \<Rightarrow> bool" where
  "nameEnds v nxt \<longleftrightarrow> (case nxt of None \<Rightarrow> True | Some c \<Rightarrow> (length v = 1 \<and> isDigit (hd v)) \<or> \<not> nameChar c)"

lemma processName_run:
  "acc \<noteq> [] \<Longrightarrow> list_all nameChar v \<Longrightarrow> (case r of [] \<Rightarrow> True | c # _ \<Rightarrow> \<not> nameChar c) \<Longrightarrow>
   processName acc (v @ r) = (acc @ v, r)"
  by (induction v arbitrary: acc) (auto split: list.splits)

lemma processName_reads:
  assumes "varName v" "nameEnds v (peek r)"
  shows "processName '''' (v @ r) = (v, r)"
proof (cases "\<exists>d. v = [d] \<and> isDigit d")
  case True
  then show ?thesis by auto
next
  case False
  then obtain c w where v: "v = c # w" "nameChar c" "list_all nameChar w" "\<not> isDigit c"
    using assms(1) by (cases v) (auto simp: varName_def)
  have "case r of [] \<Rightarrow> True | c # _ \<Rightarrow> \<not> nameChar c"
    using assms(2) False v(1,4) by (auto simp: nameEnds_def peek_def split: list.splits)
  with v processName_run [of "[c]" w r] show ?thesis by simp
qed

lemma not_nameChar: "\<not> nameChar (CHR ''}'')" "\<not> nameChar (CHR '':'')" "\<not> nameChar (CHR ''{'')"
  by (simp_all add: nameChar_def isLetter_def isDigit_def Let_def)

lemma scanDollar_bare:
  assumes "varName v" "nameEnds v (peek r)"
  shows "scanDollar whole envs (CHR ''$'' # v @ r) = Some (Inr (getEnv envs v, r))"
proof -
  have "v \<noteq> []" "\<not> starts (CHR ''{'') (v @ r)"
    using assms(1) not_nameChar(3) by (cases v; auto simp: varName_def starts_def peek_def isDigit_def)+
  then show ?thesis using processName_reads [OF assms] by (simp add: scanDollar_unfold)
qed

lemma scanDollar_braced:
  assumes "varName v"
  shows "scanDollar whole envs (CHR ''$'' # CHR ''{'' # v @ CHR ''}'' # r) = Some (Inr (getEnv envs v, r))"
proof -
  have "nameEnds v (peek (CHR ''}'' # r))" by (simp add: nameEnds_def peek_def not_nameChar)
  from processName_reads [OF assms this] show ?thesis by (simp add: scanDollar_unfold starts_def peek_def)
qed

lemma scanDollar_subst:
  assumes "varName v" "scanWord whole envs (Some (CHR ''}'')) '''' emptyWords s = Some (Inr ((word, ws), r))"
    "applyModifier whole (Some m) (getEnv envs v) word = Inr val"
  shows "scanDollar whole envs (CHR ''$'' # CHR ''{'' # v @ CHR '':'' # m # s) = Some (Inr (val, r))"
proof -
  have "nameEnds v (peek (CHR '':'' # m # s))" by (simp add: nameEnds_def peek_def not_nameChar)
  from processName_reads [OF assms(1) this] show ?thesis
    using assms(2,3) by (simp add: scanDollar_unfold starts_def peek_def fuel_free(1))
qed


section \<open>The grammar of words\<close>

text \<open>
  A word is a list of segments: a plain character, an escaped one, text in single quotes, text in double
  quotes, and a variable, bare, in braces, or with a default (\<open>False\<close>, modifier \<open>-\<close>) or an
  alternative (\<open>True\<close>, modifier \<open>+\<close>) that is a word itself.
\<close>

datatype seg = Lit char | Esc char | SQuote string | DQuote "dseg list" | Var dollar
  and dseg = DLit char | DEsc char | DBack | DVar dollar
  and dollar = Bare string | Braced string | Subst string bool "seg list"

fun printSeg :: "seg \<Rightarrow> string" and printSegs :: "seg list \<Rightarrow> string"
  and printDseg :: "dseg \<Rightarrow> string" and printDsegs :: "dseg list \<Rightarrow> string"
  and printDollar :: "dollar \<Rightarrow> string" where
  "printSeg (Lit c) = [c]"
| "printSeg (Esc c) = [CHR 0x5C, c]"
| "printSeg (SQuote t) = CHR 0x27 # t @ [CHR 0x27]"
| "printSeg (DQuote ds) = CHR 0x22 # printDsegs ds @ [CHR 0x22]"
| "printSeg (Var v) = CHR ''$'' # printDollar v"
| "printSegs [] = []"
| "printSegs (x # xs) = printSeg x @ printSegs xs"
| "printDseg (DLit c) = [c]"
| "printDseg (DEsc c) = [CHR 0x5C, c]"
| "printDseg DBack = [CHR 0x5C]"
| "printDseg (DVar v) = CHR ''$'' # printDollar v"
| "printDsegs [] = []"
| "printDsegs (x # xs) = printDseg x @ printDsegs xs"
| "printDollar (Bare v) = v"
| "printDollar (Braced v) = CHR ''{'' # v @ [CHR ''}'']"
| "printDollar (Subst v alt xs) = CHR ''{'' # v @ [CHR '':'', if alt then CHR ''+'' else CHR ''-''] @ printSegs xs @ [CHR ''}'']"

definition following :: "string \<Rightarrow> char option \<Rightarrow> char option" where
  "following s nxt = (case s of [] \<Rightarrow> nxt | c # _ \<Rightarrow> Some c)"

lemma peek_simps [simp]: "peek [] = None" "peek (c # s) = Some c"
  by (simp_all add: peek_def)

lemma peek_append: "peek (s @ r) = following s (peek r)"
  by (simp add: peek_def following_def split: list.split)

text \<open>Which segments are read back as printed, given the character that follows; \<open>inner\<close> is inside \<open>${...}\<close>.\<close>

fun wfSeg :: "bool \<Rightarrow> seg \<Rightarrow> char option \<Rightarrow> bool" and wfSegs :: "bool \<Rightarrow> seg list \<Rightarrow> char option \<Rightarrow> bool"
  and wfDseg :: "dseg \<Rightarrow> char option \<Rightarrow> bool" and wfDsegs :: "dseg list \<Rightarrow> bool"
  and wfDollar :: "dollar \<Rightarrow> char option \<Rightarrow> bool" where
  "wfSeg inner (Lit c) nxt \<longleftrightarrow> \<not> special c \<and> \<not> (inner \<and> c = CHR ''}'')"
| "wfSeg inner (Esc c) nxt \<longleftrightarrow> True"
| "wfSeg inner (SQuote t) nxt \<longleftrightarrow> CHR 0x27 \<notin> set t"
| "wfSeg inner (DQuote ds) nxt \<longleftrightarrow> wfDsegs ds"
| "wfSeg inner (Var v) nxt \<longleftrightarrow> wfDollar v nxt"
| "wfSegs inner [] nxt \<longleftrightarrow> True"
| "wfSegs inner (x # xs) nxt \<longleftrightarrow> wfSeg inner x (following (printSegs xs) nxt) \<and> wfSegs inner xs nxt"
| "wfDseg (DLit c) nxt \<longleftrightarrow> c \<notin> {CHR 0x22, CHR ''$'', CHR 0x5C}"
| "wfDseg (DEsc c) nxt \<longleftrightarrow> c \<in> {CHR 0x22, CHR ''$''}"
| "wfDseg DBack nxt \<longleftrightarrow> nxt \<notin> {None, Some (CHR 0x22), Some (CHR ''$'')}"
| "wfDseg (DVar v) nxt \<longleftrightarrow> wfDollar v nxt"
| "wfDsegs [] \<longleftrightarrow> True"
| "wfDsegs (x # xs) \<longleftrightarrow> wfDseg x (following (printDsegs xs) (Some (CHR 0x22))) \<and> wfDsegs xs"
| "wfDollar (Bare v) nxt \<longleftrightarrow> varName v \<and> nameEnds v nxt"
| "wfDollar (Braced v) nxt \<longleftrightarrow> varName v"
| "wfDollar (Subst v alt xs) nxt \<longleftrightarrow> varName v \<and> wfSegs True xs (Some (CHR ''}''))"

text \<open>What a word means.\<close>

fun evalSeg :: "string list \<Rightarrow> seg \<Rightarrow> string" and evalSegs :: "string list \<Rightarrow> seg list \<Rightarrow> string"
  and evalDseg :: "string list \<Rightarrow> dseg \<Rightarrow> string" and evalDsegs :: "string list \<Rightarrow> dseg list \<Rightarrow> string"
  and evalDollar :: "string list \<Rightarrow> dollar \<Rightarrow> string" where
  "evalSeg envs (Lit c) = [c]"
| "evalSeg envs (Esc c) = [c]"
| "evalSeg envs (SQuote t) = t"
| "evalSeg envs (DQuote ds) = evalDsegs envs ds"
| "evalSeg envs (Var v) = evalDollar envs v"
| "evalSegs envs [] = []"
| "evalSegs envs (x # xs) = evalSeg envs x @ evalSegs envs xs"
| "evalDseg envs (DLit c) = [c]"
| "evalDseg envs (DEsc c) = [c]"
| "evalDseg envs DBack = [CHR 0x5C]"
| "evalDseg envs (DVar v) = evalDollar envs v"
| "evalDsegs envs [] = []"
| "evalDsegs envs (x # xs) = evalDseg envs x @ evalDsegs envs xs"
| "evalDollar envs (Bare v) = getEnv envs v"
| "evalDollar envs (Braced v) = getEnv envs v"
| "evalDollar envs (Subst v alt xs) =
     (if alt then (if getEnv envs v = '''' then '''' else evalSegs envs xs)
      else (if getEnv envs v = '''' then evalSegs envs xs else getEnv envs v))"

text \<open>Blanks split words where they are plain or come from a variable outside quotes.\<close>

fun splitSeg :: "string list \<Rightarrow> seg \<Rightarrow> wordsStruct \<Rightarrow> wordsStruct" where
  "splitSeg envs (Lit c) ws = addChar c ws"
| "splitSeg envs (Var v) ws = addString (evalDollar envs v) ws"
| "splitSeg envs x ws = addRawString (evalSeg envs x) ws"

lemma scan_word:
  "wfSeg inner x (peek fol) \<Longrightarrow> sc = (if inner then Some (CHR ''}'') else None) \<Longrightarrow>
     scanWord whole envs sc res ws (printSeg x @ fol) = scanWord whole envs sc (res @ evalSeg envs x) (splitSeg envs x ws) fol"
  "wfSegs inner xs (peek fol) \<Longrightarrow> sc = (if inner then Some (CHR ''}'') else None) \<Longrightarrow>
     scanWord whole envs sc res ws (printSegs xs @ fol) = scanWord whole envs sc (res @ evalSegs envs xs) (fold (splitSeg envs) xs ws) fol"
  "wfDseg d (peek fol) \<Longrightarrow> scanQuoted whole envs res (printDseg d @ fol) = scanQuoted whole envs (res @ evalDseg envs d) fol"
  "wfDsegs ds \<Longrightarrow> scanQuoted whole envs res (printDsegs ds @ CHR 0x22 # fol) = Some (Inr (res @ evalDsegs envs ds, fol))"
  "wfDollar v (peek fol) \<Longrightarrow> scanDollar whole envs (CHR ''$'' # printDollar v @ fol) = Some (Inr (evalDollar envs v, fol))"
proof (induction x and xs and d and ds and v arbitrary: inner sc res ws fol and inner sc res ws fol and res fol and res fol and fol
    rule: printSeg_printSegs_printDseg_printDsegs_printDollar.induct)
  case (1 c)
  then show ?case by (auto simp: scanWord_plain)
next
  case (2 c)
  then show ?case by (simp add: scanWord_escaped addRawString_def addRawChar_def)
next
  case (3 t)
  then show ?case by (simp add: scanWord_single)
next
  case (4 ds)
  then have "scanQuoted whole envs '''' (printDsegs ds @ CHR 0x22 # fol) = Some (Inr (evalDsegs envs ds, fol))" by simp
  then show ?case using 4(3) by (simp add: scanWord_double)
next
  case (5 v)
  then show ?case by (simp add: scanWord_dollar)
next
  case (7 x xs)
  then show ?case by (simp add: peek_append)
next
  case (8 c)
  then show ?case by (simp add: scanQuoted_plain)
next
  case (9 c)
  then show ?case by (auto simp: scanQuoted_escaped)
next
  case 10
  then show ?case by (cases fol) (auto simp: scanQuoted_backslash peek_def)
next
  case (11 v)
  then show ?case by (simp add: scanQuoted_dollar)
next
  case (13 x xs)
  then show ?case by (simp add: peek_append)
next
  case (14 v)
  then show ?case by (simp add: scanDollar_bare)
next
  case (15 v)
  then show ?case by (simp add: scanDollar_braced)
next
  case (16 v alt xs)
  have "scanWord whole envs (Some (CHR ''}'')) '''' emptyWords (printSegs xs @ CHR ''}'' # fol)
      = Some (Inr ((evalSegs envs xs, getWords (fold (splitSeg envs) xs emptyWords)), fol))"
    using 16(1) [of True "CHR ''}'' # fol" "Some (CHR ''}'')" "''''" emptyWords] 16(2) by (simp add: scanWord_end)
  from scanDollar_subst [OF _ this, of v "if alt then CHR ''+'' else CHR ''-''"] show ?case
    using 16(2) by (simp add: applyModifier_def)
qed (simp_all add: scanQuoted_end)

text \<open>
  In double quotes a backslash does not escape a backslash: in \<open>"a\\"\<close> the second one escapes the closing
  quote, and the open quote is accepted at the end of the word.
\<close>

lemma backslash_before_quote:
  "ProcessWord [CHR 0x22, CHR ''a'', CHR 0x5C, CHR 0x5C, CHR 0x22] [] = Some (Inr [CHR ''a'', CHR 0x5C, CHR 0x22])"
  by (simp add: ProcessWord_def process_def processStopOn.simps(2) doubleQuoteLoop.simps(2) eval_nat_numeral)

section \<open>Properties\<close>

text \<open>
  C29: Processing a word returns: twice the length of the word plus two calls are enough in every
  environment, and more fuel gives the same result.
\<close>
theorem shell_returns:
  "\<exists>r. \<forall>n. processStopOn (2 * length word + 2 + n) word env None '''' emptyWords word = Some r"
proof -
  obtain r where "scanWord word env None '''' emptyWords word = Some r"
    using enoughD(1) [OF enough, of word "2 * length word + 2" word env None "''''" emptyWords] by (auto simp: scanWord_def)
  then show ?thesis using fuel_free(1) [of word] by (metis le_add1)
qed



end
