(* ===== verification/Dockerfile_Parser.thy ===== *)
theory Dockerfile_Parser
  imports Shell_Words
begin

text \<open>
  The parser of Dockerfiles: \<^verbatim>\<open>parser.go\<close>, \<^verbatim>\<open>utils.go\<close> and \<^verbatim>\<open>line_parsers.go\<close> in
  \<^verbatim>\<open>src/builder/dockerfile/parser/\<close>, and the part of \<open>Builder.dispatch\<close> in
  \<^verbatim>\<open>src/builder/dockerfile/evaluator.go\<close> that turns a node into the arguments of an instruction.

  Nodes form trees; a nil node is \<open>None\<close>, also among the children.  The regular expressions of the code
  are written out as functions on lists of characters, which stand for one rune each.  The JSON decoder of
  the standard library is the argument \<open>dec\<close>: it gets the text and returns the elements of the
  array or an error.  The line scanner is \<open>scanLines\<close>, with its limit on the length of a line.
\<close>

section \<open>Text\<close>

definition toLowerRune :: "char \<Rightarrow> char" where
  "toLowerRune c =
     (let n = (of_char c :: nat)
      in if 65 \<le> n \<and> n \<le> 90 \<or> 0xC0 \<le> n \<and> n \<le> 0xDE \<and> n \<noteq> 0xD7 then char_of (n + 32) else c)"

definition toLower :: "string \<Rightarrow> string" where
  "toLower s = map toLowerRune s"

definition trimLeft :: "string \<Rightarrow> string" where
  "trimLeft s = dropWhile isSpace s"

definition trimSpace :: "string \<Rightarrow> string" where
  "trimSpace s = rev (dropWhile isSpace (rev (dropWhile isSpace s)))"

text \<open>\<open>[\t\v\f\r ]\<close> of \<open>tokenWhitespace\<close>, and \<open>[ \t]\<close>.\<close>

definition isBlank :: "char \<Rightarrow> bool" where
  "isBlank c \<longleftrightarrow> of_char c \<in> {9, 11, 12, 13, 32 :: nat}"

definition isSpTab :: "char \<Rightarrow> bool" where
  "isSpTab c \<longleftrightarrow> of_char c \<in> {9, 32 :: nat}"

text \<open>\<open>tokenWhitespace.Split(s, 2)\<close> and \<open>tokenWhitespace.Split(s, -1)\<close>\<close>

definition splitFirst :: "string \<Rightarrow> string \<times> string option" where
  "splitFirst s =
     (case dropWhile (\<lambda>c. \<not> isBlank c) s of
        [] \<Rightarrow> (s, None)
      | r \<Rightarrow> (takeWhile (\<lambda>c. \<not> isBlank c) s, Some (dropWhile isBlank r)))"

lemma splitFirst_shorter: "splitFirst s = (a, Some r) \<Longrightarrow> length r < length s"
proof -
  assume "splitFirst s = (a, Some r)"
  then obtain c q where q: "dropWhile (\<lambda>c. \<not> isBlank c) s = c # q" "r = dropWhile isBlank (c # q)" "isBlank c"
    by (auto simp: splitFirst_def split: list.splits dest: dropWhile_eq_Cons_conv [THEN iffD1])
  have "length r \<le> length q" using q(2,3) length_dropWhile_le [of isBlank q] by simp
  also have "length q < length s" using q(1) length_dropWhile_le [of "\<lambda>c. \<not> isBlank c" s] by simp
  finally show "length r < length s" .
qed

function splitAll :: "string \<Rightarrow> string list" where
  "splitAll s = (case splitFirst s of (a, None) \<Rightarrow> [a] | (a, Some r) \<Rightarrow> a # splitAll r)"
  by pat_completeness auto
termination by (relation "measure length") (auto intro: splitFirst_shorter [OF sym])

declare splitAll.simps [simp del]

text \<open>\<open>strings.SplitN(word, "=", 2)\<close> of a word with an equals sign is \<open>cutEq\<close>.\<close>

section \<open>Nodes and directives\<close>

datatype Node = Node
  (nvalue: string)
  (nnext: "Node option")
  (nchildren: "Node option list")
  (nattributes: "(string \<times> bool) list option")
  (noriginal: string)
  (nflags: "string list")
  (startLine: int)
  (endLine: int)

definition leaf :: "string \<Rightarrow> Node option \<Rightarrow> Node" where
  "leaf v nxt = Node v nxt [] None '''' [] 0 0"

primrec chain :: "string list \<Rightarrow> Node option" where
  "chain [] = None"
| "chain (v # vs) = Some (leaf v (chain vs))"

record Directive =
  EscapeToken :: char
  LineContinuationRegex :: "char option"
  LookingForDirectives :: bool
  EscapeSeen :: bool

datatype parseError =
    ErrInvalidEscape string | ErrEscapeTwice | ErrTwoArguments string | ErrNoEquals string
  | ErrNotStringArray | ErrJSON string | PanicNilRegexp

datatype jsonElement = JString string | JOther

type_synonym decoder = "string \<Rightarrow> string + jsonElement list"
type_synonym parsed = "parseError + Node option \<times> (string \<times> bool) list option"

definition SetEscapeToken :: "string \<Rightarrow> Directive \<Rightarrow> parseError + Directive" where
  "SetEscapeToken s d =
     (if s \<noteq> [CHR 0x60] \<and> s \<noteq> [CHR 0x5C] then Inl (ErrInvalidEscape s)
      else Inr (d\<lparr>EscapeToken := hd s, LineContinuationRegex := Some (hd s)\<rparr>))"

text \<open>The directive of a builder before it parses: the default token is set.\<close>

definition newDirective :: Directive where
  "newDirective = \<lparr>EscapeToken = CHR 0x5C, LineContinuationRegex = Some (CHR 0x5C), LookingForDirectives = True, EscapeSeen = False\<rparr>"

text \<open>
  The group \<open>escapechar\<close> of \<open>tokenEscapeCommand\<close>: the first character after the blanks behind the
  equals sign, or the last blank when there is nothing else.
\<close>

definition afterPrefix :: "string \<Rightarrow> string \<Rightarrow> string option" where
  "afterPrefix p s = (if take (length p) s = p then Some (drop (length p) s) else None)"

definition escapeChar :: "string \<Rightarrow> char option" where
  "escapeChar line =
     Option.bind (afterPrefix ''#'' line) (\<lambda>r1.
     Option.bind (afterPrefix ''escape'' (dropWhile isSpTab r1)) (\<lambda>r2.
     Option.bind (afterPrefix ''='' (dropWhile isSpTab r2)) (\<lambda>r3.
       case dropWhile isSpTab r3 of
         c # _ \<Rightarrow> Some c
       | [] \<Rightarrow> if r3 = [] then None else Some (last r3))))"

text \<open>\<open>ReplaceAllString(line, "")\<close> of the line continuation, when it matches.\<close>

definition continued :: "char \<Rightarrow> string \<Rightarrow> string option" where
  "continued tok line =
     (case dropWhile isSpTab (rev line) of
        [] \<Rightarrow> None
      | c # r \<Rightarrow> if c = tok then Some (rev r) else None)"

definition stripComments :: "string \<Rightarrow> string" where
  "stripComments line = (if starts (CHR ''#'') line \<and> CHR 0x0A \<notin> set line then '''' else line)"

section \<open>Words and flags\<close>

datatype phase = InSpaces | InWord | InQuote char

definition keepWord :: "bool \<Rightarrow> string \<Rightarrow> string list \<Rightarrow> string list" where
  "keepWord blankOK word words = (if blankOK \<or> length word > 0 then words @ [word] else words)"

definition isQuote :: "char \<Rightarrow> bool" where
  "isQuote c \<longleftrightarrow> c = CHR 0x27 \<or> c = CHR 0x22"

function flagLoop :: "phase \<Rightarrow> string list \<Rightarrow> string \<Rightarrow> bool \<Rightarrow> string \<Rightarrow> string \<times> string list" where
  "flagLoop ph words word blankOK line =
     (case ph of
        InSpaces \<Rightarrow>
          (case line of
             [] \<Rightarrow> ('''', words)
           | ch # r \<Rightarrow>
               if isSpace ch then flagLoop InSpaces words word blankOK r
               else if ch \<noteq> CHR ''-'' \<or> r = [] \<or> hd r \<noteq> CHR ''-'' then (line, words)
               else flagLoop InWord words word blankOK line)
      | InWord \<Rightarrow>
          (case line of
             [] \<Rightarrow> ('''', if word \<noteq> ''--'' then keepWord blankOK word words else words)
           | ch # r \<Rightarrow>
               if isSpace ch then
                 (if word = ''--'' then (line, words)
                  else flagLoop InSpaces (keepWord blankOK word words) '''' False r)
               else if isQuote ch then flagLoop (InQuote ch) words word True r
               else if ch = CHR 0x5C then
                 (case r of
                    [] \<Rightarrow> flagLoop InWord words word blankOK []
                  | ch2 # r2 \<Rightarrow> flagLoop InWord words (word @ [ch2]) blankOK r2)
               else flagLoop InWord words (word @ [ch]) blankOK r)
      | InQuote quote \<Rightarrow>
          (case line of
             [] \<Rightarrow> ('''', if word \<noteq> ''--'' then keepWord blankOK word words else words)
           | ch # r \<Rightarrow>
               if ch = quote then flagLoop InWord words word blankOK r
               else if ch = CHR 0x5C then
                 (case r of
                    [] \<Rightarrow> flagLoop InWord words word blankOK []
                  | ch2 # r2 \<Rightarrow> flagLoop ph words (word @ [ch2]) blankOK r2)
               else flagLoop ph words (word @ [ch]) blankOK r))"
  by pat_completeness auto
termination
  by (relation "measure (\<lambda>(ph, _, _, _, line). 2 * length line + (if ph = InSpaces then 1 else 0))") auto

declare flagLoop.simps [simp del]

definition extractBuilderFlags :: "string \<Rightarrow> string \<times> string list" where
  "extractBuilderFlags line = flagLoop InSpaces [] '''' False line"

function wordLoop :: "char \<Rightarrow> phase \<Rightarrow> string list \<Rightarrow> string \<Rightarrow> bool \<Rightarrow> string \<Rightarrow> string list" where
  "wordLoop esc ph words word blankOK rest =
     (case ph of
        InSpaces \<Rightarrow>
          (case rest of
             [] \<Rightarrow> words
           | ch # r \<Rightarrow>
               if isSpace ch then wordLoop esc InSpaces words word blankOK r
               else wordLoop esc InWord words word blankOK rest)
      | InWord \<Rightarrow>
          (case rest of
             [] \<Rightarrow> keepWord blankOK word words
           | ch # r \<Rightarrow>
               if isSpace ch then wordLoop esc InSpaces (keepWord blankOK word words) '''' False r
               else
                 (let ph1 = (if isQuote ch then InQuote ch else InWord); ok1 = (isQuote ch \<or> blankOK)
                  in if ch = esc then
                       (case r of
                          [] \<Rightarrow> wordLoop esc ph1 words word ok1 []
                        | ch2 # r2 \<Rightarrow> wordLoop esc ph1 words (word @ [ch, ch2]) ok1 r2)
                     else wordLoop esc ph1 words (word @ [ch]) ok1 r))
      | InQuote quote \<Rightarrow>
          (case rest of
             [] \<Rightarrow> keepWord blankOK word words
           | ch # r \<Rightarrow>
               (let ph1 = (if ch = quote then InWord else ph)
                in if ch = esc \<and> quote \<noteq> CHR 0x27 then
                     (case r of
                        [] \<Rightarrow> wordLoop esc InWord words word blankOK []
                      | ch2 # r2 \<Rightarrow> wordLoop esc ph1 words (word @ [ch, ch2]) blankOK r2)
                   else wordLoop esc ph1 words (word @ [ch]) blankOK r)))"
  by pat_completeness auto
termination
  by (relation "measure (\<lambda>(esc, ph, _, _, _, rest). 2 * length rest + (if ph = InSpaces then 1 else 0))")
    (auto split: if_splits)

declare wordLoop.simps [simp del]

definition parseWords :: "string \<Rightarrow> Directive \<Rightarrow> string list" where
  "parseWords rest d = wordLoop (EscapeToken d) InSpaces [] '''' False rest"

section \<open>Line parsers\<close>

definition parseIgnore :: "string \<Rightarrow> parsed" where
  "parseIgnore rest = Inr (Some (leaf '''' None), None)"

definition containsEq :: "string \<Rightarrow> bool" where
  "containsEq w \<longleftrightarrow> CHR ''='' \<in> set w"

text \<open>The nodes \<open>name\<close> and \<open>value\<close> of every word, or the error of the first word without an equals sign.\<close>

primrec nameVals :: "string list \<Rightarrow> parseError + string list" where
  "nameVals [] = Inr []"
| "nameVals (w # ws) =
     (case cutEq w of
        None \<Rightarrow> Inl (ErrNoEquals w)
      | Some (k, v) \<Rightarrow> (case nameVals ws of Inl e \<Rightarrow> Inl e | Inr vs \<Rightarrow> Inr (k # v # vs)))"

definition parseNameVal :: "string \<Rightarrow> string \<Rightarrow> Directive \<Rightarrow> parsed" where
  "parseNameVal rest key d =
     (case parseWords rest d of
        [] \<Rightarrow> Inr (None, None)
      | w # ws \<Rightarrow>
          if \<not> containsEq w then
            (case splitFirst rest of
               (a, None) \<Rightarrow> Inl (ErrTwoArguments key)
             | (a, Some r) \<Rightarrow> Inr (chain [a, r], None))
          else
            (case nameVals (w # ws) of
               Inl e \<Rightarrow> Inl e
             | Inr vs \<Rightarrow> Inr (chain vs, None)))"

definition parseEnv :: "string \<Rightarrow> Directive \<Rightarrow> parsed" where
  "parseEnv rest d = parseNameVal rest ''ENV'' d"

definition parseLabel :: "string \<Rightarrow> Directive \<Rightarrow> parsed" where
  "parseLabel rest d = parseNameVal rest ''LABEL'' d"

definition parseNameOrNameVal :: "string \<Rightarrow> Directive \<Rightarrow> parsed" where
  "parseNameOrNameVal rest d = Inr (chain (parseWords rest d), None)"

definition parseStringsWhitespaceDelimited :: "string \<Rightarrow> parsed" where
  "parseStringsWhitespaceDelimited rest = (if rest = '''' then Inr (None, None) else Inr (chain (splitAll rest), None))"

definition parseString :: "string \<Rightarrow> parsed" where
  "parseString rest = (if rest = '''' then Inr (None, None) else Inr (Some (leaf rest None), None))"

primrec jsonStrings :: "jsonElement list \<Rightarrow> string list option" where
  "jsonStrings [] = Some []"
| "jsonStrings (e # es) =
     (case e of
        JOther \<Rightarrow> None
      | JString s \<Rightarrow> map_option (Cons s) (jsonStrings es))"

definition parseJSON :: "decoder \<Rightarrow> string \<Rightarrow> parsed" where
  "parseJSON dec rest =
     (let rest1 = trimLeft rest
      in if \<not> starts (CHR ''['') rest1 then Inl (ErrJSON rest1)
         else
           (case dec rest1 of
              Inl e \<Rightarrow> Inl (ErrJSON e)
            | Inr es \<Rightarrow>
                (case jsonStrings es of
                   None \<Rightarrow> Inl ErrNotStringArray
                 | Some ss \<Rightarrow> Inr (chain ss, Some [(''json'', True)]))))"

definition parseMaybeJSON :: "decoder \<Rightarrow> string \<Rightarrow> parsed" where
  "parseMaybeJSON dec rest =
     (if rest = '''' then Inr (None, None)
      else
        (case parseJSON dec rest of
           Inr r \<Rightarrow> Inr r
         | Inl e \<Rightarrow> if e = ErrNotStringArray then Inl e else Inr (Some (leaf rest None), None)))"

definition parseMaybeJSONToList :: "decoder \<Rightarrow> string \<Rightarrow> parsed" where
  "parseMaybeJSONToList dec rest =
     (case parseJSON dec rest of
        Inr r \<Rightarrow> Inr r
      | Inl e \<Rightarrow> if e = ErrNotStringArray then Inl e else parseStringsWhitespaceDelimited rest)"

definition parseHealthConfig :: "decoder \<Rightarrow> string \<Rightarrow> parsed" where
  "parseHealthConfig dec rest =
     (let typ = takeWhile (\<lambda>c. \<not> isSpace c) rest;
          args = dropWhile isSpace (dropWhile (\<lambda>c. \<not> isSpace c) rest)
      in if typ = '''' then Inr (None, None)
         else
           (case parseMaybeJSON dec args of
              Inl e \<Rightarrow> Inl e
            | Inr (cmd, attrs) \<Rightarrow> Inr (Some (leaf typ cmd), attrs)))"

text \<open>
  The dispatch table, without \<open>parseSubCommand\<close> of \<open>onbuild\<close>, which parses its argument as a line
  again and may change the directive.
\<close>

definition dispatchTable :: "decoder \<Rightarrow> string \<Rightarrow> (string \<Rightarrow> Directive \<Rightarrow> parsed) option" where
  "dispatchTable dec cmd =
     map_of
       [(''add'', \<lambda>r d. parseMaybeJSONToList dec r), (''arg'', parseNameOrNameVal), (''cmd'', \<lambda>r d. parseMaybeJSON dec r),
        (''copy'', \<lambda>r d. parseMaybeJSONToList dec r), (''entrypoint'', \<lambda>r d. parseMaybeJSON dec r), (''env'', parseEnv),
        (''expose'', \<lambda>r d. parseStringsWhitespaceDelimited r), (''from'', \<lambda>r d. parseString r),
        (''healthcheck'', \<lambda>r d. parseHealthConfig dec r), (''label'', parseLabel), (''maintainer'', \<lambda>r d. parseString r),
        (''run'', \<lambda>r d. parseMaybeJSON dec r), (''shell'', \<lambda>r d. parseMaybeJSON dec r), (''stopsignal'', \<lambda>r d. parseString r),
        (''user'', \<lambda>r d. parseString r), (''volume'', \<lambda>r d. parseMaybeJSONToList dec r), (''workdir'', \<lambda>r d. parseString r)] cmd"

type_synonym lineResult = "parseError + string \<times> Node option \<times> Directive"

definition parseSubCommand :: "(string \<Rightarrow> Directive \<Rightarrow> lineResult) \<Rightarrow> string \<Rightarrow> Directive \<Rightarrow>
    parseError + Node option \<times> (string \<times> bool) list option \<times> Directive" where
  "parseSubCommand parseLine rest d =
     (if rest = '''' then Inr (None, None, d)
      else
        (case parseLine rest d of
           Inl e \<Rightarrow> Inl e
         | Inr (_, child, d1) \<Rightarrow> Inr (Some (Node '''' None [child] None '''' [] 0 0), None, d1)))"

definition fullDispatch :: "decoder \<Rightarrow> (string \<Rightarrow> Directive \<Rightarrow> lineResult) \<Rightarrow> string \<Rightarrow> string \<Rightarrow> Directive \<Rightarrow>
    parseError + Node option \<times> (string \<times> bool) list option \<times> Directive" where
  "fullDispatch dec parseLine cmd args d =
     (if cmd = ''onbuild'' then parseSubCommand parseLine args d
      else
        (case (case dispatchTable dec cmd of None \<Rightarrow> parseIgnore args | Some fn \<Rightarrow> fn args d) of
           Inl e \<Rightarrow> Inl e
         | Inr (sexp, attrs) \<Rightarrow> Inr (sexp, attrs, d)))"

definition splitCommand :: "string \<Rightarrow> string \<times> string list \<times> string" where
  "splitCommand line =
     (case splitFirst (trimSpace line) of
        (c, None) \<Rightarrow> (toLower c, [], '''')
      | (c, Some r) \<Rightarrow> (case extractBuilderFlags r of (args, flags) \<Rightarrow> (toLower c, flags, trimSpace args)))"

lemma fullDispatch_cong [fundef_cong]:
  assumes "cmd = cmd'" "args = args'" "d = d'"
    "cmd' = ''onbuild'' \<Longrightarrow> args' \<noteq> '''' \<Longrightarrow> pl args' d' = pl' args' d'"
  shows "fullDispatch dec pl cmd args d = fullDispatch dec pl' cmd' args' d'"
  using assms by (auto simp: fullDispatch_def parseSubCommand_def)

lemma trimSpace_shorter: "length (trimSpace s) \<le> length s"
  using length_dropWhile_le [of isSpace "rev (dropWhile isSpace s)"] length_dropWhile_le [of isSpace s]
  by (simp add: trimSpace_def)

definition restWithin :: "nat \<Rightarrow> string \<times> string list \<Rightarrow> bool" where
  "restWithin n p \<longleftrightarrow> length (fst p) \<le> n"

lemma restWithin_intros:
  "(c \<Longrightarrow> restWithin n a) \<Longrightarrow> (\<not> c \<Longrightarrow> restWithin n b) \<Longrightarrow> restWithin n (if c then a else b)"
  "(l = [] \<Longrightarrow> restWithin n a) \<Longrightarrow> (\<And>x xs. l = x # xs \<Longrightarrow> restWithin n (f x xs)) \<Longrightarrow>
   restWithin n (case l of [] \<Rightarrow> a | x # xs \<Rightarrow> f x xs)"
  "(ph = InSpaces \<Longrightarrow> restWithin n p) \<Longrightarrow> (ph = InWord \<Longrightarrow> restWithin n q) \<Longrightarrow> (\<And>c. ph = InQuote c \<Longrightarrow> restWithin n (g c)) \<Longrightarrow>
   restWithin n (case ph of InSpaces \<Rightarrow> p | InWord \<Rightarrow> q | InQuote c \<Rightarrow> g c)"
  "length s \<le> n \<Longrightarrow> restWithin n (s, ws)"
  by (auto simp: restWithin_def split: list.split phase.split)

lemma flagLoop_shorter: "restWithin (length line) (flagLoop ph words word blankOK line)"
proof (induction "2 * length line + (if ph = InSpaces then 1 else 0)" arbitrary: ph words word blankOK line rule: less_induct)
  case less
  have IH: "restWithin (length line) (flagLoop ph' words' word' blankOK' line')" if "length line' < length line"
    for ph' words' word' blankOK' line'
  proof -
    have "2 * length line' + (if ph' = InSpaces then 1 else 0) < 2 * length line + (if ph = InSpaces then 1 else (0 :: nat))"
      using that by simp
    from less.hyps [OF this, of words' word' blankOK'] that show ?thesis by (simp add: restWithin_def)
  qed
  have IHw: "restWithin (length line) (flagLoop InWord words word blankOK line)" if "ph = InSpaces"
    using less.hyps [of line InWord words word blankOK] that by simp
  show ?case
    unfolding flagLoop.simps [of ph words word blankOK line]
    by (intro restWithin_intros IH IHw) simp_all
qed

lemma splitCommand_shorter:
  assumes "splitCommand line = (cmd, flags, args)" "args \<noteq> ''''"
  shows "length args < length line"
proof -
  obtain c r where r: "splitFirst (trimSpace line) = (c, Some r)"
    using assms by (auto simp: splitCommand_def split: option.splits prod.splits)
  then have "args = trimSpace (fst (extractBuilderFlags r))"
    using assms(1) by (simp add: splitCommand_def split: prod.splits)
  then have "length args \<le> length r"
    using trimSpace_shorter [of "fst (extractBuilderFlags r)"] flagLoop_shorter [of r InSpaces "[]" "''''" False]
    by (simp add: extractBuilderFlags_def restWithin_def)
  also have "length r < length line" using splitFirst_shorter [OF r] trimSpace_shorter [of line] by simp
  finally show ?thesis .
qed

section \<open>Lines\<close>

text \<open>The parser directive at the start of a line: \<open>None\<close> when there is none or it is too late for one.\<close>

definition parseDirective :: "string \<Rightarrow> Directive \<Rightarrow> (parseError + Directive) option" where
  "parseDirective line d =
     (if LookingForDirectives d then
        (case escapeChar (toLower line) of
           None \<Rightarrow> None
         | Some c \<Rightarrow>
             if EscapeSeen d then Some (Inl ErrEscapeTwice)
             else
               (case SetEscapeToken [c] d of
                  Inl e \<Rightarrow> Some (Inl e)
                | Inr d1 \<Rightarrow> Some (Inr (d1\<lparr>EscapeSeen := True\<rparr>))))
      else None)"

function ParseLine :: "decoder \<Rightarrow> string \<Rightarrow> Directive \<Rightarrow> lineResult" where
  "ParseLine dec line d =
     (case parseDirective line d of
        Some (Inl e) \<Rightarrow> Inl e
      | Some (Inr d1) \<Rightarrow> Inr ('''', None, d1)
      | None \<Rightarrow>
          (let d1 = d\<lparr>LookingForDirectives := False\<rparr>; line1 = stripComments line
           in if line1 = '''' then Inr ('''', None, d1)
              else
                (case LineContinuationRegex d1 of
                   None \<Rightarrow> Inl PanicNilRegexp
                 | Some tok \<Rightarrow>
                     (case continued tok line1 of
                        Some l \<Rightarrow> Inr (l, None, d1)
                      | None \<Rightarrow>
                          (case splitCommand line1 of
                             (cmd, flags, args) \<Rightarrow>
                               (case fullDispatch dec (ParseLine dec) cmd args d1 of
                                  Inl e \<Rightarrow> Inl e
                                | Inr (sexp, attrs, d2) \<Rightarrow>
                                    Inr ('''', Some (Node cmd sexp [] attrs line1 flags 0 0), d2)))))))"
  by pat_completeness auto
termination
  by (relation "measure (\<lambda>(_, line, _). length line)")
    (auto intro: splitCommand_shorter [OF sym] simp: stripComments_def split: if_splits)

declare ParseLine.simps [simp del]

section \<open>Files\<close>

definition maxScanTokenSize :: nat where
  "maxScanTokenSize = 64 * 1024"

definition dropCR :: "string \<Rightarrow> string" where
  "dropCR l = (if l \<noteq> [] \<and> last l = CHR 0x0D then butlast l else l)"

text \<open>The tokens of a \<open>bufio.Scanner\<close>: it stops at a line that does not fit into its buffer.\<close>

function scanLines :: "string \<Rightarrow> string list" where
  "scanLines s =
     (if s = [] then []
      else
        (let l = takeWhile (\<lambda>c. c \<noteq> CHR 0x0A) s
         in if maxScanTokenSize \<le> length l then []
            else dropCR l # scanLines (drop (length l + 1) s)))"
  by pat_completeness auto
termination by (relation "measure length") (auto simp: length_greater_0_conv [symmetric] simp del: length_greater_0_conv)

declare scanLines.simps [simp del]

definition utf8bom :: string where
  "utf8bom = [CHR 0xEF, CHR 0xBB, CHR 0xBF]"

definition trimBOM :: "string \<Rightarrow> string" where
  "trimBOM s = (case afterPrefix utf8bom s of None \<Rightarrow> s | Some r \<Rightarrow> r)"

text \<open>The inner loop, which appends the lines that continue an instruction.\<close>

primrec continueLoop :: "decoder \<Rightarrow> string \<Rightarrow> int \<Rightarrow> Directive \<Rightarrow> string list \<Rightarrow>
    parseError + string \<times> Node option \<times> Directive \<times> string list \<times> int" where
  "continueLoop dec line cur d [] = Inr (line, None, d, [], cur)"
| "continueLoop dec line cur d (newline # ls) =
     (if stripComments (trimSpace newline) = '''' then continueLoop dec line (cur + 1) d ls
      else
        (case ParseLine dec (line @ newline) d of
           Inl e \<Rightarrow> Inl e
         | Inr (line1, Some child, d1) \<Rightarrow> Inr (line1, Some child, d1, ls, cur + 1)
         | Inr (line1, None, d1) \<Rightarrow> continueLoop dec line1 (cur + 1) d1 ls))"

lemma continueLoop_lines:
  "continueLoop dec line cur d ls = Inr (line1, child, d1, ls1, cur1) \<Longrightarrow>
     length ls1 \<le> length ls \<and> cur1 = cur + int (length ls - length ls1)"
proof (induction ls arbitrary: line cur d)
  case (Cons l ls)
  then show ?case
    by (fastforce split: if_splits sum.splits prod.splits option.splits)
qed simp

text \<open>One instruction: the line, the lines that continue it and, at the end of the file, what is left of it.\<close>

definition parseInstruction :: "decoder \<Rightarrow> int \<Rightarrow> Directive \<Rightarrow> string \<Rightarrow> string list \<Rightarrow>
    parseError + Node option \<times> Directive \<times> string list \<times> int" where
  "parseInstruction dec cur d scannedLine ls =
     (case ParseLine dec scannedLine d of
        Inl e \<Rightarrow> Inl e
      | Inr (line, child, d1) \<Rightarrow>
          if line \<noteq> '''' \<and> child = None then
            (case continueLoop dec line cur d1 ls of
               Inl e \<Rightarrow> Inl e
             | Inr (line1, child1, d2, ls1, cur1) \<Rightarrow>
                 if child1 = None \<and> line1 \<noteq> '''' then
                   (case ParseLine dec line1 d2 of
                      Inl e \<Rightarrow> Inl e
                    | Inr (_, child2, d3) \<Rightarrow> Inr (child2, d3, ls1, cur1))
                 else Inr (child1, d2, ls1, cur1))
          else Inr (child, d1, ls, cur))"

lemma parseInstruction_lines:
  assumes "parseInstruction dec cur d s ls = Inr (child, d1, ls1, cur1)"
  shows "length ls1 \<le> length ls" "cur1 = cur + int (length ls - length ls1)"
  using assms continueLoop_lines
  by (fastforce simp: parseInstruction_def split: sum.splits prod.splits if_splits)+

definition addChild :: "Node \<Rightarrow> int \<Rightarrow> int \<Rightarrow> Node \<Rightarrow> Node" where
  "addChild child first cur root =
     Node (nvalue root) (nnext root)
       (nchildren root @ [Some (Node (nvalue child) (nnext child) (nchildren child) (nattributes child) (noriginal child) (nflags child) first cur)])
       (nattributes root) (noriginal root) (nflags root)
       (if startLine root < 0 then cur else startLine root) cur"

function parseLoop :: "decoder \<Rightarrow> int \<Rightarrow> Node \<Rightarrow> Directive \<Rightarrow> string list \<Rightarrow> parseError + Node \<times> Directive" where
  "parseLoop dec cur root d [] = Inr (root, d)"
| "parseLoop dec cur root d (scanned # ls) =
     (let scannedLine = trimLeft (if cur = 0 then trimBOM scanned else scanned)
      in case parseInstruction dec (cur + 1) d scannedLine ls of
           Inl e \<Rightarrow> Inl e
         | Inr (None, d1, ls1, cur1) \<Rightarrow> parseLoop dec cur1 root d1 ls1
         | Inr (Some child, d1, ls1, cur1) \<Rightarrow> parseLoop dec cur1 (addChild child (cur + 1) cur1 root) d1 ls1)"
  by pat_completeness auto
termination
  by (relation "measure (\<lambda>(_, _, _, _, ls). length ls)") (auto dest!: sym [of "Inr _"] parseInstruction_lines(1))

declare parseLoop.simps(2) [simp del]

definition Parse :: "decoder \<Rightarrow> Directive \<Rightarrow> string \<Rightarrow> parseError + Node \<times> Directive" where
  "Parse dec d text = parseLoop dec 0 (Node '''' None [] None '''' [] (-1) 0) d (scanLines text)"


section \<open>From nodes to instructions\<close>

definition replaceEnvAllowed :: "string \<Rightarrow> bool" where
  "replaceEnvAllowed cmd \<longleftrightarrow>
     cmd \<in> {''env'', ''label'', ''add'', ''copy'', ''workdir'', ''expose'', ''volume'', ''user'', ''stopsignal'', ''arg''}"

definition allowWordExpansion :: "string \<Rightarrow> bool" where
  "allowWordExpansion cmd \<longleftrightarrow> cmd = ''expose''"

definition evaluateTable :: "string set" where
  "evaluateTable =
     {''add'', ''arg'', ''cmd'', ''copy'', ''entrypoint'', ''env'', ''expose'', ''from'', ''healthcheck'', ''label'', ''maintainer'',
      ''onbuild'', ''run'', ''shell'', ''stopsignal'', ''user'', ''volume'', ''workdir''}"

datatype dispatchError = ErrOnbuildArgument | ErrShell shellError | ErrUnknownInstruction string

text \<open>
  What \<open>dispatch\<close> does with a node: a nil dereference or an index out of range panics, the word
  expansion does not return, it fails, or it runs the instruction with these arguments.
\<close>

datatype dispatched =
    DPanic
  | DLoops
  | DError dispatchError
  | DRun string "string list" "string list" "(string \<times> bool) list option" string

text \<open>The environment for substitutions: the configuration first, then the allowed build arguments.\<close>

definition dispatchEnvs :: "string list \<Rightarrow> (string \<times> string) list \<Rightarrow> (string \<Rightarrow> bool) \<Rightarrow> string list" where
  "dispatchEnvs env buildArgs allowed = env @ [k @ ''='' @ v. (k, v) \<leftarrow> buildArgs, allowed k]"

primrec nextValues :: "Node \<Rightarrow> string list" where
  "nextValues (Node v nxt cs as orig fs sl el) = v # (case map_option nextValues nxt of None \<Rightarrow> [] | Some vs \<Rightarrow> vs)"

primrec expandArgs :: "string \<Rightarrow> string list \<Rightarrow> string list \<Rightarrow> string list \<Rightarrow> dispatched + string list" where
  "expandArgs cmd envs strList [] = Inr strList"
| "expandArgs cmd envs strList (str # strs) =
     (if replaceEnvAllowed cmd then
        (if allowWordExpansion cmd then
           (case ProcessWords str envs of
              None \<Rightarrow> Inl DLoops
            | Some (Inl e) \<Rightarrow> Inl (DError (ErrShell e))
            | Some (Inr words) \<Rightarrow> expandArgs cmd envs (strList @ words) strs)
         else
           (case ProcessWord str envs of
              None \<Rightarrow> Inl DLoops
            | Some (Inl e) \<Rightarrow> Inl (DError (ErrShell e))
            | Some (Inr w) \<Rightarrow> expandArgs cmd envs (strList @ [w]) strs))
      else expandArgs cmd envs (strList @ [str]) strs)"

definition dispatchArgs :: "string list \<Rightarrow> Node \<Rightarrow> string list \<Rightarrow> Node \<Rightarrow> dispatched" where
  "dispatchArgs envs ast strList cursor =
     (case expandArgs (nvalue ast) envs strList (tl (nextValues cursor)) of
        Inl r \<Rightarrow> r
      | Inr args \<Rightarrow>
          if nvalue ast \<in> evaluateTable then DRun (nvalue ast) args (nflags ast) (nattributes ast) (noriginal ast)
          else DError (ErrUnknownInstruction (nvalue ast)))"

definition dispatch :: "string list \<Rightarrow> Node \<Rightarrow> dispatched" where
  "dispatch envs ast =
     (if nvalue ast = ''onbuild'' then
        (case nnext ast of
           None \<Rightarrow> DError ErrOnbuildArgument
         | Some nx \<Rightarrow>
             (case nchildren nx of
                Some sub # _ \<Rightarrow> dispatchArgs envs ast [nvalue sub] sub
              | _ \<Rightarrow> DPanic))
      else dispatchArgs envs ast [] ast)"

section \<open>Lines of the instructions\<close>

text \<open>The children are real nodes and cover disjoint, increasing ranges of lines after \<open>lo\<close> and up to \<open>hi\<close>.\<close>

fun lineRanges :: "int \<Rightarrow> Node option list \<Rightarrow> int \<Rightarrow> bool" where
  "lineRanges lo [] hi \<longleftrightarrow> lo \<le> hi"
| "lineRanges lo (None # cs) hi \<longleftrightarrow> False"
| "lineRanges lo (Some c # cs) hi \<longleftrightarrow> lo < startLine c \<and> startLine c \<le> endLine c \<and> lineRanges (endLine c) cs hi"

definition rootLines :: "Node \<Rightarrow> bool" where
  "rootLines root \<longleftrightarrow>
     (case (nchildren root, rev (nchildren root)) of
        (Some c # _, Some l # _) \<Rightarrow> startLine root = endLine c \<and> endLine root = endLine l
      | ([], _) \<Rightarrow> startLine root = -1 \<and> endLine root = 0
      | _ \<Rightarrow> False)"

lemma lineRanges_snoc: "lineRanges lo (cs @ [Some c]) hi \<longleftrightarrow> lineRanges lo cs (startLine c - 1) \<and> startLine c \<le> endLine c \<and> endLine c \<le> hi"
  by (induction lo cs hi rule: lineRanges.induct) auto

lemma lineRanges_mono: "lineRanges lo cs hi \<Longrightarrow> hi \<le> hi' \<Longrightarrow> lineRanges lo cs hi'"
  by (induction lo cs hi rule: lineRanges.induct) auto

lemma lineRanges_bounds: "lineRanges lo cs hi \<Longrightarrow> lo \<le> hi"
  by (induction lo cs hi rule: lineRanges.induct) auto

lemma addChild_ok:
  assumes "lineRanges 0 (nchildren root) (cur - 1)" "rootLines root" "0 < cur" "cur \<le> cur1"
  shows "lineRanges 0 (nchildren (addChild child cur cur1 root)) cur1" "rootLines (addChild child cur cur1 root)"
proof -
  show "lineRanges 0 (nchildren (addChild child cur cur1 root)) cur1"
    using assms(1,4) by (simp add: addChild_def lineRanges_snoc)
  show "rootLines (addChild child cur cur1 root)"
  proof (cases "nchildren root")
    case Nil
    then show ?thesis using assms by (simp add: addChild_def rootLines_def)
  next
    case (Cons c cs)
    then obtain n where c: "c = Some n" using assms(1) by (cases c) simp_all
    then have "0 < endLine n" using Cons assms(1) by simp
    moreover have "startLine root = endLine n" using assms(2) Cons c
      by (auto simp: rootLines_def split: list.splits option.splits)
    ultimately show ?thesis using Cons c by (simp add: addChild_def rootLines_def)
  qed
qed

lemma parseLoop_lines:
  assumes "parseLoop dec cur root d ls = Inr (root', d')" "lineRanges 0 (nchildren root) cur" "rootLines root"
  shows "lineRanges 0 (nchildren root') (cur + int (length ls)) \<and> rootLines root'"
  using assms
proof (induction dec cur root d ls rule: parseLoop.induct)
  case (1 dec cur root d)
  then show ?case by simp
next
  case (2 dec cur root d scanned ls)
  define sc where "sc = trimLeft (if cur = 0 then trimBOM scanned else scanned)"
  from 2(3) obtain child d1 ls1 cur1 where i: "parseInstruction dec (cur + 1) d sc ls = Inr (child, d1, ls1, cur1)"
    by (cases "parseInstruction dec (cur + 1) d sc ls") (auto simp: parseLoop.simps(2) Let_def sc_def)
  note len = parseInstruction_lines [OF i]
  have cur: "0 \<le> cur" by (rule lineRanges_bounds [OF 2(4)])
  have eq: "cur1 + int (length ls1) = cur + int (length (scanned # ls))" using len by simp
  show ?case
  proof (cases child)
    case None
    then have "parseLoop dec cur1 root d1 ls1 = Inr (root', d')" using 2(3) i by (simp add: parseLoop.simps(2) Let_def sc_def)
    moreover have "lineRanges 0 (nchildren root) cur1" using lineRanges_mono [OF 2(4)] len by simp
    ultimately show ?thesis using 2(1) [OF sc_def i refl None refl refl] 2(5) eq by simp
  next
    case (Some c)
    then have "parseLoop dec cur1 (addChild c (cur + 1) cur1 root) d1 ls1 = Inr (root', d')"
      using 2(3) i by (simp add: parseLoop.simps(2) Let_def sc_def)
    moreover have "lineRanges 0 (nchildren (addChild c (cur + 1) cur1 root)) cur1" "rootLines (addChild c (cur + 1) cur1 root)"
      using addChild_ok [of root "cur + 1" cur1 c] 2(4,5) cur len by simp_all
    ultimately show ?thesis using 2(2) [OF sc_def i refl Some refl refl] eq by simp
  qed
qed


section \<open>Properties\<close>

text \<open>
  C27: The root of a parsed file has only real nodes as children, in the order of the file, with
  disjoint and increasing ranges of lines that lie in the file; the root ends with its last child, and it
  starts, unlike the comment in \<open>Parse\<close> says, at the last line of its first child.
\<close>
theorem parse_line_ranges:
  assumes "Parse dec d text = Inr (root, d')"
  shows "lineRanges 0 (nchildren root) (int (length (scanLines text))) \<and> rootLines root"
  using parseLoop_lines [OF assms [unfolded Parse_def]] by (simp add: rootLines_def)

lemma example_scan:
  "scanLines (''ARG a '' @ [CHR 0x5C, CHR 0x0A] @ ''b'' @ [CHR 0x0A] @ ''USER c'') = [''ARG a '' @ [CHR 0x5C], ''b'', ''USER c'']"
  by (simp add: scanLines.simps maxScanTokenSize_def dropCR_def)

lemma example_lines:
  "ParseLine (\<lambda>_. Inl '''') (''ARG a '' @ [CHR 0x5C]) newDirective = Inr (''ARG a '', None, newDirective\<lparr>LookingForDirectives := False\<rparr>)"
  "ParseLine (\<lambda>_. Inl '''') ''ARG a b'' (newDirective\<lparr>LookingForDirectives := False\<rparr>) =
     Inr ('''', Some (Node ''arg'' (chain [''a'', ''b'']) [] None ''ARG a b'' [] 0 0), newDirective\<lparr>LookingForDirectives := False\<rparr>)"
  "ParseLine (\<lambda>_. Inl '''') ''USER c'' (newDirective\<lparr>LookingForDirectives := False\<rparr>) =
     Inr ('''', Some (Node ''user'' (chain [''c'']) [] None ''USER c'' [] 0 0), newDirective\<lparr>LookingForDirectives := False\<rparr>)"
  by code_simp+

lemma example_trim:
  "trimLeft (trimBOM (''ARG a '' @ [CHR 0x5C])) = ''ARG a '' @ [CHR 0x5C]" "trimLeft ''USER c'' = ''USER c''"
  "stripComments (trimSpace ''b'') = ''b''"
  by code_simp+

theorem parse_line_ranges_witness:
  "\<exists>root d'. Parse (\<lambda>_. Inl '''') newDirective (''ARG a '' @ [CHR 0x5C, CHR 0x0A] @ ''b'' @ [CHR 0x0A] @ ''USER c'') = Inr (root, d')
     \<and> lineRanges 0 (nchildren root) 3 \<and> startLine root = 2 \<and> endLine root = 3"
proof -
  obtain root d' where r: "Parse (\<lambda>_. Inl '''') newDirective (''ARG a '' @ [CHR 0x5C, CHR 0x0A] @ ''b'' @ [CHR 0x0A] @ ''USER c'') = Inr (root, d')"
    "startLine root = 2" "endLine root = 3"
    using example_lines example_trim unfolding Parse_def example_scan
    by (simp add: parseLoop.simps(2) parseInstruction_def addChild_def)
  from parse_line_ranges [OF r(1)] r show ?thesis unfolding example_scan by auto
qed

text \<open>The line \<open>ONBUILD # x\<close>, step by step.\<close>

lemma onbuild_steps:
  "splitCommand ''ONBUILD # x'' = (''onbuild'', [], ''# x'')"
  "continued (CHR 0x5C) ''ONBUILD # x'' = None"
  "parseDirective ''ONBUILD # x'' newDirective = None"
  by code_simp+

lemma onbuild_scan: "scanLines ''ONBUILD # x'' = [''ONBUILD # x'']"
  by (simp add: scanLines.simps maxScanTokenSize_def dropCR_def)

lemma onbuild_trim: "trimLeft (trimBOM ''ONBUILD # x'') = ''ONBUILD # x''"
  by code_simp

lemma onbuild_node:
  "Parse dec newDirective ''ONBUILD # x'' =
     Inr (Node '''' None [Some (Node ''onbuild'' (Some (Node '''' None [None] None '''' [] 0 0)) [] None ''ONBUILD # x'' [] 1 1)]
            None '''' [] 1 1, newDirective\<lparr>LookingForDirectives := False\<rparr>)"
proof -
  have "ParseLine dec ''# x'' (newDirective\<lparr>LookingForDirectives := False\<rparr>) = Inr ('''', None, newDirective\<lparr>LookingForDirectives := False\<rparr>)"
    by (simp add: ParseLine.simps parseDirective_def stripComments_def starts_def newDirective_def)
  then have "ParseLine dec ''ONBUILD # x'' newDirective =
      Inr ('''', Some (Node ''onbuild'' (Some (Node '''' None [None] None '''' [] 0 0)) [] None ''ONBUILD # x'' [] 0 0),
        newDirective\<lparr>LookingForDirectives := False\<rparr>)"
    using onbuild_steps
    by (subst ParseLine.simps) (simp add: stripComments_def starts_def fullDispatch_def parseSubCommand_def newDirective_def)
  then show ?thesis
    by (simp add: Parse_def onbuild_scan parseLoop.simps(2) onbuild_trim parseInstruction_def addChild_def)
qed

lemma process_returns: "\<exists>r. ProcessWord w env = Some r" "\<exists>r. ProcessWords w env = Some r"
  using enoughD(1) [OF enough, of w "2 * length w + 2" w env None "''''" emptyWords]
  by (auto simp: ProcessWord_def ProcessWords_def process_def)

lemma expandArgs_fails: "expandArgs cmd envs strList strs = Inl r \<Longrightarrow> \<exists>e. r = DError e"
proof (induction strs arbitrary: strList)
  case (Cons s strs)
  obtain x where x: "ProcessWord s envs = Some x" using process_returns(1) by blast
  obtain y where y: "ProcessWords s envs = Some y" using process_returns(2) by blast
  show ?case using Cons by (auto simp: x y split: if_splits sum.splits)
qed simp

lemma dispatchArgs_cases: "dispatchArgs envs ast strList cursor \<noteq> DPanic" "dispatchArgs envs ast strList cursor \<noteq> DLoops"
  using expandArgs_fails [of "nvalue ast" envs strList "tl (nextValues cursor)"]
  by (auto simp: dispatchArgs_def split: sum.splits)

lemma dispatch_outcomes:
  "dispatch envs c = DPanic \<longleftrightarrow>
     nvalue c = ''onbuild'' \<and> (\<exists>nx. nnext c = Some nx \<and> (nchildren nx = [] \<or> hd (nchildren nx) = None))"
  "dispatch envs c \<noteq> DLoops"
proof -
  consider "nvalue c \<noteq> ''onbuild''" | "nvalue c = ''onbuild''" "nnext c = None"
    | nx where "nvalue c = ''onbuild''" "nnext c = Some nx" "nchildren nx = []"
    | nx cs where "nvalue c = ''onbuild''" "nnext c = Some nx" "nchildren nx = None # cs"
    | nx s cs where "nvalue c = ''onbuild''" "nnext c = Some nx" "nchildren nx = Some s # cs"
    by (metis list.exhaust option.exhaust)
  then have "(dispatch envs c = DPanic \<longleftrightarrow>
     nvalue c = ''onbuild'' \<and> (\<exists>nx. nnext c = Some nx \<and> (nchildren nx = [] \<or> hd (nchildren nx) = None))) \<and> dispatch envs c \<noteq> DLoops"
    by cases (simp_all add: dispatch_def dispatchArgs_cases)
  then show "dispatch envs c = DPanic \<longleftrightarrow>
     nvalue c = ''onbuild'' \<and> (\<exists>nx. nnext c = Some nx \<and> (nchildren nx = [] \<or> hd (nchildren nx) = None))"
    "dispatch envs c \<noteq> DLoops" by blast+
qed


lemma scanLines_line:
  assumes "CHR 0x0A \<notin> set a"
  shows "scanLines (a @ CHR 0x0A # q) = (if maxScanTokenSize \<le> length a then [] else dropCR a # scanLines q)"
proof -
  have "takeWhile (\<lambda>c. c \<noteq> CHR 0x0A) (a @ CHR 0x0A # q) = a" using assms by (subst takeWhile_append2) auto
  then show ?thesis by (subst scanLines.simps) simp
qed

lemma scanLines_long:
  assumes "maxScanTokenSize \<le> length l" "CHR 0x0A \<notin> set l"
  shows "scanLines (l @ r) = []"
proof -
  have "takeWhile (\<lambda>c. c \<noteq> CHR 0x0A) (l @ r) = l @ takeWhile (\<lambda>c. c \<noteq> CHR 0x0A) r" using assms(2) by (intro takeWhile_append2) auto
  then show ?thesis using assms(1) by (subst scanLines.simps) simp
qed

lemma scanLines_cut:
  assumes "maxScanTokenSize \<le> length l" "CHR 0x0A \<notin> set l"
  shows "scanLines (t @ CHR 0x0A # l @ r) = scanLines (t @ [CHR 0x0A])"
proof (induction "length t" arbitrary: t rule: less_induct)
  case less
  show ?case
  proof (cases "CHR 0x0A \<in> set t")
    case True
    then obtain a b where t: "t = a @ CHR 0x0A # b" "CHR 0x0A \<notin> set a" by (metis split_list_first)
    then show ?thesis using less [of b] by (simp add: scanLines_line)
  next
    case False
    then show ?thesis using scanLines_long [OF assms] by (simp add: scanLines_line) (simp add: scanLines.simps)
  qed
qed


end
