(* ===== verification/Volume_Local.thy ===== *)
theory Volume_Local
  imports Docker_Prelude "HOL-Library.Word"
begin

text \<open>
  The local volume driver: \<^verbatim>\<open>src/volume/local/local.go\<close> and \<^verbatim>\<open>src/volume/local/local_unix.go\<close>.

  A volume is a pointer: its name, path and driver never change and are part of the value
  \<open>localVolume\<close>, its options and its mounts are in the heap \<open>lheap\<close>.  What the file system and the kernel
  answer is an argument \<open>fs\<close> of the operations.  The mutex of the root makes each call atomic.
\<close>

section \<open>Volumes and the root\<close>

record optsConfig =
  MountType :: string
  MountOpts :: string
  MountDevice :: string

record activeMount =
  mcount :: "64 word"
  mounted :: bool

record localVolume =
  lvName :: string
  lvPath :: string
  lvDriverName :: string
  lvLoc :: nat

record volumeState =
  lvOpts :: "optsConfig option"
  lvActive :: activeMount

record Root =
  rscope :: string
  rpath :: string
  volumes :: "string \<rightharpoonup> localVolume"
  lheap :: "nat \<Rightarrow> volumeState"
  lnext :: nat

text \<open>What the operating system answers: errors carry whether they are \<open>IsExist\<close> or \<open>IsNotExist\<close>.\<close>

record fsAnswers =
  mkdirErr :: "(bool \<times> string) option"
  writeErr :: "string option"
  evalSymlinks :: "(bool \<times> string) + string"
  removeDataErr :: "(bool \<times> string) option"
  removeDirErr :: "(bool \<times> string) option"
  mountErr :: "string option"
  unmountErr :: "string option"

definition DefaultDriverName :: string where "DefaultDriverName = ''local''"
definition LocalScope :: string where "LocalScope = ''local''"
definition VolumeDataPathName :: string where "VolumeDataPathName = ''_data''"
definition volumesPathName :: string where "volumesPathName = ''volumes''"

definition Root_Name :: string where
  "Root_Name = DefaultDriverName"

text \<open>\<open>filepath.Join\<close> of a clean root and a volume name, which has no slash.\<close>

definition joinPath :: "string \<Rightarrow> string \<Rightarrow> string" where
  "joinPath a b = a @ ''/'' @ b"

definition dirPath :: "string \<Rightarrow> string" where
  "dirPath p = rev (tl (dropWhile (\<lambda>c. c \<noteq> CHR ''/'') (rev p)))"

definition DataPath :: "Root \<Rightarrow> string \<Rightarrow> string" where
  "DataPath r volumeName = joinPath (joinPath (rpath r) volumeName) VolumeDataPathName"

text \<open>\<open>RestrictedVolumeNamePattern\<close>, that is \<open>^[a-zA-Z0-9][a-zA-Z0-9_.-]+$\<close>.\<close>

definition alnum :: "char \<Rightarrow> bool" where
  "alnum c \<longleftrightarrow> c \<in> set ''abcdefghijklmnopqrstuvwxyzABCDEFGHIJKLMNOPQRSTUVWXYZ0123456789''"

definition Root_validateName :: "string \<Rightarrow> bool" where
  "Root_validateName n \<longleftrightarrow>
     (case n of
        c # d # cs \<Rightarrow> alnum c \<and> (\<forall>x \<in> set (d # cs). alnum x \<or> x \<in> set ''_.-'')
      | _ \<Rightarrow> False)"

definition validOpts :: "string set" where
  "validOpts = {''type'', ''o'', ''device''}"

definition validateOpts :: "(string \<times> string) list \<Rightarrow> bool" where
  "validateOpts opts \<longleftrightarrow> (\<forall>(k, v) \<in> set opts. k \<in> validOpts)"

definition optOf :: "(string \<times> string) list \<Rightarrow> string \<Rightarrow> string" where
  "optOf opts k = (case map_of opts k of None \<Rightarrow> '''' | Some v \<Rightarrow> v)"

text \<open>\<open>Inl\<close> is the validation error.\<close>

definition setOpts :: "(string \<times> string) list \<Rightarrow> string + optsConfig option" where
  "setOpts opts =
     (if opts = [] then Inr None
      else if \<not> validateOpts opts then Inl ''invalid option key''
      else Inr (Some \<lparr>MountType = optOf opts ''type'', MountOpts = optOf opts ''o'', MountDevice = optOf opts ''device''\<rparr>))"

section \<open>Operations\<close>

definition newActive :: activeMount where
  "newActive = \<lparr>mcount = 0, mounted = False\<rparr>"

definition addVolume :: "localVolume \<Rightarrow> optsConfig option \<Rightarrow> Root \<Rightarrow> Root" where
  "addVolume v opts r =
     r\<lparr>volumes := (volumes r)(lvName v \<mapsto> v), lheap := (lheap r)(lnext r := \<lparr>lvOpts = opts, lvActive = newActive\<rparr>), lnext := lnext r + 1\<rparr>"

definition Root_Create :: "fsAnswers \<Rightarrow> string \<Rightarrow> (string \<times> string) list \<Rightarrow> Root \<Rightarrow> (string + localVolume) \<times> Root" where
  "Root_Create fs name opts r =
     (if \<not> Root_validateName name then (Inl ''invalid volume name'', r)
      else
        (case volumes r name of
           Some v \<Rightarrow> (Inr v, r)
         | None \<Rightarrow>
             (case mkdirErr fs of
                Some (isExist, e) \<Rightarrow> (Inl (if isExist then ''volume already exists'' else e), r)
              | None \<Rightarrow>
                  (let v = \<lparr>lvName = name, lvPath = DataPath r name, lvDriverName = Root_Name, lvLoc = lnext r\<rparr>
                   in case setOpts opts of
                        Inl e \<Rightarrow> (Inl e, r)
                      | Inr oc \<Rightarrow>
                          if oc \<noteq> None \<and> writeErr fs \<noteq> None then (Inl (the (writeErr fs)), r)
                          else (Inr v, addVolume v oc r)))))"

definition Root_Get :: "string \<Rightarrow> Root \<Rightarrow> string + localVolume" where
  "Root_Get name r = (case volumes r name of None \<Rightarrow> Inl ''volume not found'' | Some v \<Rightarrow> Inr v)"

definition Root_Scope :: string where
  "Root_Scope = LocalScope"

definition removePath :: "(bool \<times> string) option \<Rightarrow> string option" where
  "removePath a = (case a of None \<Rightarrow> None | Some (isNotExist, e) \<Rightarrow> if isNotExist then None else Some e)"

definition oldVfsDir :: string where
  "oldVfsDir = ''vfs/dir''"

definition scopedPath :: "Root \<Rightarrow> string \<Rightarrow> bool" where
  "scopedPath r realPath \<longleftrightarrow>
     has_prefix realPath (joinPath (rscope r) volumesPathName) \<and> realPath \<noteq> joinPath (rscope r) volumesPathName
     \<or> has_prefix realPath (joinPath (rscope r) oldVfsDir)"

text \<open>A volume of another type is \<open>None\<close>.\<close>

definition Root_Remove :: "fsAnswers \<Rightarrow> localVolume option \<Rightarrow> Root \<Rightarrow> string option \<times> Root" where
  "Root_Remove fs v r =
     (case v of
        None \<Rightarrow> (Some ''unknown volume type'', r)
      | Some lv \<Rightarrow>
          (case (case evalSymlinks fs of
                   Inr p \<Rightarrow> Inr p
                 | Inl (isNotExist, e) \<Rightarrow> if isNotExist then Inr (dirPath (lvPath lv)) else Inl e) of
             Inl e \<Rightarrow> (Some e, r)
           | Inr realPath \<Rightarrow>
               if \<not> scopedPath r realPath then (Some ''Unable to remove a directory of out the Docker root'', r)
               else
                 (case removePath (removeDataErr fs) of
                    Some e \<Rightarrow> (Some e, r)
                  | None \<Rightarrow> (removePath (removeDirErr fs), r\<lparr>volumes := (volumes r)(lvName lv := None)\<rparr>))))"

text \<open>The list in any order of the map is told by its set.\<close>

definition Root_List :: "Root \<Rightarrow> localVolume set" where
  "Root_List r = ran (volumes r)"

section \<open>Mounts\<close>

definition localVolume_mount :: "fsAnswers \<Rightarrow> optsConfig \<Rightarrow> string option" where
  "localVolume_mount fs oc = (if MountDevice oc = '''' then Some ''missing device in volume options'' else mountErr fs)"

definition localVolume_Mount :: "fsAnswers \<Rightarrow> volumeState \<Rightarrow> string option \<times> volumeState" where
  "localVolume_Mount fs v =
     (case lvOpts v of
        None \<Rightarrow> (None, v)
      | Some oc \<Rightarrow>
          (let a = lvActive v
           in case (if mounted a then None else localVolume_mount fs oc) of
                Some e \<Rightarrow> (Some e, v)
              | None \<Rightarrow> (None, v\<lparr>lvActive := \<lparr>mcount = mcount a + 1, mounted = True\<rparr>\<rparr>)))"

definition localVolume_Unmount :: "fsAnswers \<Rightarrow> volumeState \<Rightarrow> string option \<times> volumeState" where
  "localVolume_Unmount fs v =
     (case lvOpts v of
        None \<Rightarrow> (None, v)
      | Some oc \<Rightarrow>
          (let a = lvActive v; n = mcount a - 1
           in if n = 0 then
                (case unmountErr fs of
                   Some e \<Rightarrow> (Some e, v)
                 | None \<Rightarrow> (None, v\<lparr>lvActive := \<lparr>mcount = 0, mounted = False\<rparr>\<rparr>))
              else (None, v\<lparr>lvActive := a\<lparr>mcount := n\<rparr>\<rparr>)))"

section \<open>What the driver keeps\<close>

definition root_ok :: "Root \<Rightarrow> bool" where
  "root_ok r \<longleftrightarrow> (\<forall>n v. volumes r n = Some v \<longrightarrow> lvName v = n \<and> lvDriverName v = Root_Name)"

lemma Root_Get_spec: "root_ok r \<Longrightarrow> Root_Get n r = Inr v \<Longrightarrow> lvName v = n \<and> lvDriverName v = Root_Name \<and> volumes r n \<noteq> None"
  by (auto simp: Root_Get_def root_ok_def split: option.splits)

lemma Root_Create_spec:
  assumes "root_ok r" "Root_Create fs n opts r = (res, r')"
  shows "root_ok r'" "volumes r m \<noteq> None \<Longrightarrow> volumes r' m \<noteq> None"
    "res = Inr v \<Longrightarrow> lvName v = n \<and> lvDriverName v = Root_Name \<and> volumes r' n \<noteq> None"
  using assms by (auto simp: Root_Create_def addVolume_def root_ok_def Let_def split: if_splits option.splits sum.splits prod.splits)

lemma Root_Remove_spec:
  assumes "root_ok r" "Root_Remove fs (Some v) r = (e, r')"
  shows "root_ok r'" "m \<noteq> lvName v \<Longrightarrow> volumes r' m = volumes r m"
    "e \<noteq> None \<Longrightarrow> removePath (removeDirErr fs) = None \<Longrightarrow> r' = r"
  using assms by (auto simp: Root_Remove_def root_ok_def split: if_splits option.splits sum.splits)

text \<open>A mounted volume has a positive count and the kernel has mounted it once.\<close>

definition mounts_ok :: "volumeState \<Rightarrow> bool" where
  "mounts_ok v \<longleftrightarrow> (mounted (lvActive v) \<longleftrightarrow> mcount (lvActive v) \<noteq> 0) \<and> (lvOpts v = None \<longrightarrow> mcount (lvActive v) = 0)"

lemma Mount_ok:
  assumes "mounts_ok v" "mcount (lvActive v) \<noteq> - 1"
  shows "mounts_ok (snd (localVolume_Mount fs v))"
proof -
  have "mcount (lvActive v) + 1 \<noteq> 0" using assms(2) by (simp add: eq_neg_iff_add_eq_0)
  then show ?thesis using assms(1) by (auto simp: localVolume_Mount_def mounts_ok_def Let_def split: option.splits)
qed

lemma Unmount_ok:
  assumes "mounts_ok v" "mcount (lvActive v) \<noteq> 0"
  shows "mounts_ok (snd (localVolume_Unmount fs v))"
  using assms by (auto simp: localVolume_Unmount_def mounts_ok_def Let_def split: option.splits)
end
