(* ===== verification/Volume_Store.thy ===== *)
theory Volume_Store
  imports Volume_Local
begin

text \<open>
  The volume store, \<^verbatim>\<open>src/volume/store/store.go\<close>, over volume drivers and the driver table of
  \<^verbatim>\<open>src/volume/drivers/extpoint.go\<close>.

  The drivers are a record of functions on a world; the locale \<open>volume_drivers\<close> states what the store
  relies on and is interpreted on the local driver.  The store locks the name of a volume for the whole of a call, so
  calls on one name are atomic, and calls on different names touch different entries.  The bolt database is the map it
  holds, and every transaction may fail.
\<close>

section \<open>Drivers\<close>

type_synonym labels = "string \<rightharpoonup> string"

record ('v, 'w) drivers =
  rawName :: "'v \<Rightarrow> string"
  rawDriverName :: "'v \<Rightarrow> string"
  GetDriver :: "string \<Rightarrow> 'w \<Rightarrow> (string + string) \<times> 'w"
  GetAllDrivers :: "'w \<Rightarrow> (string + string list) \<times> 'w"
  vdGet :: "string \<Rightarrow> string \<Rightarrow> 'w \<Rightarrow> (string + 'v) \<times> 'w"
  vdCreate :: "string \<Rightarrow> string \<Rightarrow> (string \<times> string) list \<Rightarrow> 'w \<Rightarrow> (string + 'v) \<times> 'w"
  vdRemove :: "string \<Rightarrow> 'v \<Rightarrow> 'w \<Rightarrow> string option \<times> 'w"
  vdScope :: "string \<Rightarrow> string"
  dbUpdate :: "'w \<Rightarrow> string option \<times> 'w"

section \<open>The store\<close>

text \<open>A volume is a driver's volume, possibly in a \<open>volumeWrapper\<close> with labels and scope.\<close>

record 'v Volume =
  rawVolume :: 'v
  wrapper :: "(labels \<times> string) option"

record ('v, 'w) VolumeStore =
  names :: "string \<rightharpoonup> 'v Volume"
  refs :: "string \<Rightarrow> string list"
  vlabels :: "string \<rightharpoonup> labels"
  db :: "(string \<rightharpoonup> labels) option"
  vworld :: 'w

datatype volError =
    ErrVolumeInUse "string list" | ErrNoSuchVolume | ErrInvalidName | ErrNameConflict | ErrDriver string | ErrDB string

datatype 'a volResult = VOk 'a | VErr volError | VPanic

definition volName :: "('v, 'w) drivers \<Rightarrow> 'v Volume \<Rightarrow> string" where
  "volName E v = rawName E (rawVolume v)"

definition volDriver :: "('v, 'w) drivers \<Rightarrow> 'v Volume \<Rightarrow> string" where
  "volDriver E v = rawDriverName E (rawVolume v)"

definition onWorld :: "('w \<Rightarrow> 'x \<times> 'w) \<Rightarrow> ('v, 'w) VolumeStore \<Rightarrow> 'x \<times> ('v, 'w) VolumeStore" where
  "onWorld f s = (case f (vworld s) of (x, w) \<Rightarrow> (x, s\<lparr>vworld := w\<rparr>))"

definition newVolumeStore :: "bool \<Rightarrow> 'w \<Rightarrow> ('v, 'w) VolumeStore" where
  "newVolumeStore rootPath w =
     \<lparr>names = Map.empty, refs = (\<lambda>_. []), vlabels = Map.empty, db = (if rootPath then Some Map.empty else None), vworld = w\<rparr>"

definition getNamed :: "string \<Rightarrow> ('v, 'w) VolumeStore \<Rightarrow> 'v Volume option" where
  "getNamed name s = names s name"

definition setNamed :: "('v, 'w) drivers \<Rightarrow> 'v Volume \<Rightarrow> string \<Rightarrow> ('v, 'w) VolumeStore \<Rightarrow> ('v, 'w) VolumeStore" where
  "setNamed E v ref s =
     s\<lparr>names := (names s)(volName E v \<mapsto> v),
       refs := (if length ref > 0 then (refs s)(volName E v := refs s (volName E v) @ [ref]) else refs s)\<rparr>"

definition getRefs :: "string \<Rightarrow> ('v, 'w) VolumeStore \<Rightarrow> string list" where
  "getRefs name s = refs s name"

text \<open>Without a database \<open>purge\<close> calls a method of a nil pointer; a failing transaction is only logged.\<close>

definition purge :: "('v, 'w) drivers \<Rightarrow> string \<Rightarrow> ('v, 'w) VolumeStore \<Rightarrow> bool \<times> ('v, 'w) VolumeStore" where
  "purge E name s =
     (let s1 = s\<lparr>names := (names s)(name := None), refs := (refs s)(name := []), vlabels := (vlabels s)(name := None)\<rparr>
      in case db s of
           None \<Rightarrow> (True, s1)
         | Some b \<Rightarrow>
             (case onWorld (dbUpdate E) s1 of
                (Some e, s2) \<Rightarrow> (False, s2)
              | (None, s2) \<Rightarrow> (False, s2\<lparr>db := Some (b(name := None))\<rparr>)))"

definition wrapVolume :: "'v \<Rightarrow> labels \<Rightarrow> string \<Rightarrow> 'v Volume" where
  "wrapVolume v l sc = \<lparr>rawVolume = v, wrapper = Some (l, sc)\<rparr>"

definition rawVol :: "'v \<Rightarrow> 'v Volume" where
  "rawVol v = \<lparr>rawVolume = v, wrapper = None\<rparr>"

text \<open>The labels of a volume in the database, or the error of the transaction.\<close>

definition dbLabels :: "('v, 'w) drivers \<Rightarrow> string \<Rightarrow> ('v, 'w) VolumeStore \<Rightarrow> (string + labels) \<times> ('v, 'w) VolumeStore" where
  "dbLabels E name s =
     (case db s of
        None \<Rightarrow> (Inr Map.empty, s)
      | Some b \<Rightarrow>
          (case onWorld (dbUpdate E) s of
             (Some e, s1) \<Rightarrow> (Inl e, s1)
           | (None, s1) \<Rightarrow> (Inr (case b name of None \<Rightarrow> Map.empty | Some l \<Rightarrow> l), s1)))"

primrec probe :: "('v, 'w) drivers \<Rightarrow> string \<Rightarrow> labels \<Rightarrow> string list \<Rightarrow> ('v, 'w) VolumeStore \<Rightarrow>
    (volError + 'v Volume) \<times> ('v, 'w) VolumeStore" where
  "probe E name l [] s = (Inl ErrNoSuchVolume, s)"
| "probe E name l (d # ds) s =
     (case onWorld (vdGet E d name) s of
        (Inl e, s1) \<Rightarrow> probe E name l ds s1
      | (Inr v, s1) \<Rightarrow> (Inr (wrapVolume v l (vdScope E d)), s1))"

definition getVolume :: "('v, 'w) drivers \<Rightarrow> string \<Rightarrow> ('v, 'w) VolumeStore \<Rightarrow> (volError + 'v Volume) \<times> ('v, 'w) VolumeStore" where
  "getVolume E name s =
     (case dbLabels E name s of
        (Inl e, s1) \<Rightarrow> (Inl (ErrDB e), s1)
      | (Inr l, s1) \<Rightarrow>
          (case names s1 name of
             Some v \<Rightarrow>
               (case onWorld (GetDriver E (volDriver E v)) s1 of
                  (Inl e, s2) \<Rightarrow> (Inl (ErrDriver e), s2)
                | (Inr d, s2) \<Rightarrow>
                    (case onWorld (vdGet E d name) s2 of
                       (Inl e, s3) \<Rightarrow> (Inl (ErrDriver e), s3)
                     | (Inr r, s3) \<Rightarrow> (Inr (wrapVolume r l (vdScope E d)), s3)))
           | None \<Rightarrow>
               (case onWorld (GetAllDrivers E) s1 of
                  (Inl e, s2) \<Rightarrow> (Inl (ErrDriver e), s2)
                | (Inr ds, s2) \<Rightarrow> probe E name l ds s2)))"

text \<open>The end of \<open>create\<close>: the driver creates the volume and its labels are recorded.\<close>

definition createNew :: "('v, 'w) drivers \<Rightarrow> string \<Rightarrow> string \<Rightarrow> (string \<times> string) list \<Rightarrow> labels \<Rightarrow> ('v, 'w) VolumeStore \<Rightarrow>
    (volError + 'v Volume) \<times> ('v, 'w) VolumeStore" where
  "createNew E d name opts l s =
     (case onWorld (vdCreate E d name opts) s of
        (Inl e, s1) \<Rightarrow> (Inl (ErrDriver e), s1)
      | (Inr r, s1) \<Rightarrow>
          (let s2 = s1\<lparr>vlabels := (vlabels s1)(name \<mapsto> l)\<rparr>
           in case db s2 of
                None \<Rightarrow> (Inr (wrapVolume r l (vdScope E d)), s2)
              | Some b \<Rightarrow>
                  (case onWorld (dbUpdate E) s2 of
                     (Some e, s3) \<Rightarrow> (Inl (ErrDB e), s3)
                   | (None, s3) \<Rightarrow> (Inr (wrapVolume r l (vdScope E d)), s3\<lparr>db := Some (b(name \<mapsto> l))\<rparr>))))"

definition createWith :: "('v, 'w) drivers \<Rightarrow> string \<Rightarrow> string \<Rightarrow> (string \<times> string) list \<Rightarrow> labels \<Rightarrow> ('v, 'w) VolumeStore \<Rightarrow>
    (volError + 'v Volume) \<times> ('v, 'w) VolumeStore" where
  "createWith E name driverName opts l s =
     (case onWorld (GetDriver E driverName) s of
        (Inl e, s1) \<Rightarrow> (Inl (ErrDriver e), s1)
      | (Inr d, s1) \<Rightarrow>
          (case onWorld (vdGet E d name) s1 of
             (Inr v, s2) \<Rightarrow> (Inr (rawVol v), s2)
           | (Inl e, s2) \<Rightarrow> createNew E d name opts l s2))"

definition vs_create :: "('v, 'w) drivers \<Rightarrow> string \<Rightarrow> string \<Rightarrow> (string \<times> string) list \<Rightarrow> labels \<Rightarrow> ('v, 'w) VolumeStore \<Rightarrow>
    (volError + 'v Volume) \<times> ('v, 'w) VolumeStore" where
  "vs_create E name driverName opts l s =
     (case getNamed name s of
        Some v \<Rightarrow>
          if volDriver E v \<noteq> driverName \<and> driverName \<noteq> '''' \<and> driverName \<noteq> DefaultDriverName then (Inl ErrNameConflict, s)
          else (Inr v, s)
      | None \<Rightarrow>
          if driverName = '''' then
            (case getVolume E name s of
               (Inr v, s1) \<Rightarrow> (Inr v, s1)
             | (Inl e, s1) \<Rightarrow> createWith E name driverName opts l s1)
          else createWith E name driverName opts l s)"

definition VolumeStore_CreateWithRef :: "('v, 'w) drivers \<Rightarrow> string \<Rightarrow> string \<Rightarrow> string \<Rightarrow> (string \<times> string) list \<Rightarrow> labels \<Rightarrow>
    ('v, 'w) VolumeStore \<Rightarrow> (volError + 'v Volume) \<times> ('v, 'w) VolumeStore" where
  "VolumeStore_CreateWithRef E name driverName ref opts l s =
     (case vs_create E name driverName opts l s of
        (Inl e, s1) \<Rightarrow> (Inl e, s1)
      | (Inr v, s1) \<Rightarrow> (Inr v, setNamed E v ref s1))"

definition VolumeStore_Create :: "('v, 'w) drivers \<Rightarrow> string \<Rightarrow> string \<Rightarrow> (string \<times> string) list \<Rightarrow> labels \<Rightarrow>
    ('v, 'w) VolumeStore \<Rightarrow> (volError + 'v Volume) \<times> ('v, 'w) VolumeStore" where
  "VolumeStore_Create E name driverName opts l s =
     (case vs_create E name driverName opts l s of
        (Inl e, s1) \<Rightarrow> (Inl e, s1)
      | (Inr v, s1) \<Rightarrow> (Inr v, setNamed E v '''' s1))"

definition VolumeStore_GetWithRef :: "('v, 'w) drivers \<Rightarrow> string \<Rightarrow> string \<Rightarrow> string \<Rightarrow> ('v, 'w) VolumeStore \<Rightarrow>
    (volError + 'v Volume) \<times> ('v, 'w) VolumeStore" where
  "VolumeStore_GetWithRef E name driverName ref s =
     (case onWorld (GetDriver E driverName) s of
        (Inl e, s1) \<Rightarrow> (Inl (ErrDriver e), s1)
      | (Inr d, s1) \<Rightarrow>
          (case onWorld (vdGet E d name) s1 of
             (Inl e, s2) \<Rightarrow> (Inl (ErrDriver e), s2)
           | (Inr v, s2) \<Rightarrow>
               (let s3 = setNamed E (rawVol v) ref s2
                in (Inr (wrapVolume v (case vlabels s3 name of None \<Rightarrow> Map.empty | Some l \<Rightarrow> l) (vdScope E d)), s3))))"

definition VolumeStore_Get :: "('v, 'w) drivers \<Rightarrow> string \<Rightarrow> ('v, 'w) VolumeStore \<Rightarrow> (volError + 'v Volume) \<times> ('v, 'w) VolumeStore" where
  "VolumeStore_Get E name s =
     (case getVolume E name s of
        (Inl e, s1) \<Rightarrow> (Inl e, s1)
      | (Inr v, s1) \<Rightarrow> (Inr v, setNamed E v '''' s1))"

text \<open>\<open>vd.Name()\<close> in the error of a driver that is not found dereferences a nil interface.\<close>

definition VolumeStore_Remove :: "('v, 'w) drivers \<Rightarrow> 'v Volume \<Rightarrow> ('v, 'w) VolumeStore \<Rightarrow> unit volResult \<times> ('v, 'w) VolumeStore" where
  "VolumeStore_Remove E v s =
     (if length (getRefs (volName E v) s) > 0 then (VErr (ErrVolumeInUse (getRefs (volName E v) s)), s)
      else
        (case onWorld (GetDriver E (volDriver E v)) s of
           (Inl e, s1) \<Rightarrow> (VPanic, s1)
         | (Inr d, s1) \<Rightarrow>
             (case onWorld (vdRemove E d (rawVolume v)) s1 of
                (Some e, s2) \<Rightarrow> (VErr (ErrDriver e), s2)
              | (None, s2) \<Rightarrow>
                  (case purge E (volName E v) s2 of
                     (True, s3) \<Rightarrow> (VPanic, s3)
                   | (False, s3) \<Rightarrow> (VOk (), s3)))))"

definition VolumeStore_Dereference :: "('v, 'w) drivers \<Rightarrow> 'v Volume \<Rightarrow> string \<Rightarrow> ('v, 'w) VolumeStore \<Rightarrow> ('v, 'w) VolumeStore" where
  "VolumeStore_Dereference E v ref s = s\<lparr>refs := (refs s)(volName E v := filter (\<lambda>r. r \<noteq> ref) (refs s (volName E v)))\<rparr>"

definition VolumeStore_Refs :: "('v, 'w) drivers \<Rightarrow> 'v Volume \<Rightarrow> ('v, 'w) VolumeStore \<Rightarrow> string list" where
  "VolumeStore_Refs E v s = getRefs (volName E v) s"

definition VolumeStore_FilterByUsed :: "('v, 'w) drivers \<Rightarrow> 'v Volume list \<Rightarrow> bool \<Rightarrow> ('v, 'w) VolumeStore \<Rightarrow> 'v Volume list" where
  "VolumeStore_FilterByUsed E vols used s =
     filter (\<lambda>v. let l = length (refs s (volName E v)) in used \<and> l > 0 \<or> \<not> used \<and> l = 0) vols"

inductive vstep :: "('v, 'w) drivers \<Rightarrow> ('v, 'w) VolumeStore \<Rightarrow> ('v, 'w) VolumeStore \<Rightarrow> bool" for E where
  VCreate: "VolumeStore_Create E n d opts l s = (r, s') \<Longrightarrow> vstep E s s'"
| VCreateWithRef: "VolumeStore_CreateWithRef E n d ref opts l s = (r, s') \<Longrightarrow> vstep E s s'"
| VGet: "VolumeStore_Get E n s = (r, s') \<Longrightarrow> vstep E s s'"
| VGetWithRef: "VolumeStore_GetWithRef E n d ref s = (r, s') \<Longrightarrow> vstep E s s'"
| VRemove: "VolumeStore_Remove E v s = (r', s') \<Longrightarrow> vstep E s s'"
| VDereference: "vstep E s (VolumeStore_Dereference E v ref s)"

section \<open>What the store relies on\<close>

text \<open>
  \<open>wok\<close> is the invariant of the drivers' world, \<open>present\<close> says that a driver has a volume of this name:
  a volume that a driver returns has the name it was asked for and is there, and only \<open>Remove\<close> takes a volume away,
  the one of its argument.
\<close>

locale volume_drivers =
  fixes E :: "('v, 'w) drivers" and wok :: "'w \<Rightarrow> bool" and present :: "'w \<Rightarrow> string \<Rightarrow> bool"
  assumes lookups: "wok w \<Longrightarrow> GetDriver E d w = (r, w') \<Longrightarrow> wok w' \<and> present w' = present w"
    "wok w \<Longrightarrow> GetAllDrivers E w = (r', w') \<Longrightarrow> wok w' \<and> present w' = present w"
    "wok w \<Longrightarrow> dbUpdate E w = (e, w') \<Longrightarrow> wok w' \<and> present w' = present w"
    "wok w \<Longrightarrow> vdGet E d n w = (g, w') \<Longrightarrow> wok w' \<and> present w' = present w"
  and get_named: "wok w \<Longrightarrow> vdGet E d n w = (Inr v, w') \<Longrightarrow> rawName E v = n \<and> present w n"
  and create_keeps: "wok w \<Longrightarrow> vdCreate E d n opts w = (g, w') \<Longrightarrow> wok w' \<and> (present w m \<longrightarrow> present w' m)"
  and create_named: "wok w \<Longrightarrow> vdCreate E d n opts w = (Inr v, w') \<Longrightarrow> rawName E v = n \<and> present w' n"
  and remove_other: "wok w \<Longrightarrow> vdRemove E d v w = (e, w') \<Longrightarrow> wok w' \<and> (m \<noteq> rawName E v \<longrightarrow> present w m \<longrightarrow> present w' m)"

text \<open>A driver whose \<open>Remove\<close> does nothing when it fails.\<close>

locale atomic_drivers = volume_drivers +
  assumes remove_fails: "wok w \<Longrightarrow> vdRemove E d v w = (Some e, w') \<Longrightarrow> present w m \<Longrightarrow> present w' m"

text \<open>A call of the drivers that leaves the tables of the store alone and takes no volume away.\<close>

definition quiet :: "('w \<Rightarrow> bool) \<Rightarrow> ('w \<Rightarrow> string \<Rightarrow> bool) \<Rightarrow> ('v, 'w) VolumeStore \<Rightarrow> ('v, 'w) VolumeStore \<Rightarrow> bool" where
  "quiet wok present s s' \<longleftrightarrow>
     names s' = names s \<and> refs s' = refs s \<and> wok (vworld s') \<and> (\<forall>m. present (vworld s) m \<longrightarrow> present (vworld s') m)"

text \<open>Known volumes are filed under their names and a driver has them; a reference is to a known volume.\<close>

definition vs_inv :: "('v, 'w) drivers \<Rightarrow> ('w \<Rightarrow> bool) \<Rightarrow> ('w \<Rightarrow> string \<Rightarrow> bool) \<Rightarrow> ('v, 'w) VolumeStore \<Rightarrow> bool" where
  "vs_inv E wok present s \<longleftrightarrow> wok (vworld s)
     \<and> (\<forall>n v. names s n = Some v \<longrightarrow> volName E v = n \<and> present (vworld s) n)
     \<and> (\<forall>n. refs s n \<noteq> [] \<longrightarrow> names s n \<noteq> None)"

lemma quiet_refl: "wok (vworld s) \<Longrightarrow> quiet wok present s s"
  by (simp add: quiet_def)

lemma quiet_trans: "quiet wok present s s1 \<Longrightarrow> quiet wok present s1 s2 \<Longrightarrow> quiet wok present s s2"
  by (simp add: quiet_def)

lemma quiet_wok: "quiet wok present s s' \<Longrightarrow> wok (vworld s')"
  by (simp add: quiet_def)

lemma quiet_inv: "vs_inv E wok present s \<Longrightarrow> quiet wok present s s' \<Longrightarrow> vs_inv E wok present s'"
  by (simp add: vs_inv_def quiet_def)

lemma setNamed_inv:
  "vs_inv E wok present s \<Longrightarrow> present (vworld s) (volName E v) \<Longrightarrow> vs_inv E wok present (setNamed E v ref s)"
  by (auto simp: vs_inv_def setNamed_def)

lemma Dereference_inv: "vs_inv E wok present s \<Longrightarrow> vs_inv E wok present (VolumeStore_Dereference E v ref s)"
  by (auto simp: vs_inv_def VolumeStore_Dereference_def) (metis filter.simps(1) option.distinct(1) option.exhaust)

lemma wrap_name [simp]: "volName E (wrapVolume v l sc) = rawName E v" "volName E (rawVol v) = rawName E v"
  by (simp_all add: volName_def wrapVolume_def rawVol_def)

text \<open>A lookup of a name: quiet, and a volume it returns has the name and is there.\<close>

definition yields :: "('v, 'w) drivers \<Rightarrow> ('w \<Rightarrow> bool) \<Rightarrow> ('w \<Rightarrow> string \<Rightarrow> bool) \<Rightarrow> string \<Rightarrow> ('v, 'w) VolumeStore \<Rightarrow>
    volError + 'v Volume \<Rightarrow> ('v, 'w) VolumeStore \<Rightarrow> bool" where
  "yields E wok present n s r s' \<longleftrightarrow>
     quiet wok present s s' \<and> (\<forall>v. r = Inr v \<longrightarrow> volName E v = n \<and> present (vworld s') n)"

lemma yields_after: "quiet wok present s s1 \<Longrightarrow> yields E wok present n s1 r s' \<Longrightarrow> yields E wok present n s r s'"
  by (auto simp: yields_def intro: quiet_trans)

lemma yields_err: "quiet wok present s s' \<Longrightarrow> yields E wok present n s (Inl e) s'"
  by (simp add: yields_def)

lemma yields_ok:
  "quiet wok present s s' \<Longrightarrow> volName E v = n \<Longrightarrow> present (vworld s') n \<Longrightarrow> yields E wok present n s (Inr v) s'"
  by (simp add: yields_def)

context volume_drivers
begin

lemma onWorld_quiet:
  assumes "wok (vworld s)"
  shows "onWorld (GetDriver E d) s = (r, s') \<Longrightarrow> quiet wok present s s'"
    "onWorld (GetAllDrivers E) s = (r', s') \<Longrightarrow> quiet wok present s s'"
    "onWorld (dbUpdate E) s = (e, s') \<Longrightarrow> quiet wok present s s'"
    "onWorld (vdGet E d n) s = (g, s') \<Longrightarrow> quiet wok present s s'"
    "onWorld (vdCreate E d n opts) s = (g, s') \<Longrightarrow> quiet wok present s s'"
  using lookups [OF assms] create_keeps [OF assms]
  by (auto simp: onWorld_def quiet_def split: prod.splits)

lemma onWorld_named:
  assumes "wok (vworld s)"
  shows "onWorld (vdGet E d n) s = (Inr v, s') \<Longrightarrow> rawName E v = n \<and> present (vworld s') n"
    "onWorld (vdCreate E d n opts) s = (Inr v, s') \<Longrightarrow> rawName E v = n \<and> present (vworld s') n"
  using get_named [OF assms] create_named [OF assms] lookups(4) [OF assms]
  by (fastforce simp: onWorld_def split: prod.splits)+

lemma dbLabels_quiet: "wok (vworld s) \<Longrightarrow> dbLabels E n s = (r, s') \<Longrightarrow> quiet wok present s s'"
  by (auto simp: dbLabels_def quiet_refl split: option.splits prod.splits dest: onWorld_quiet(3))

lemma probe_spec:
  "wok (vworld s) \<Longrightarrow> probe E n l ds s = (r, s') \<Longrightarrow> yields E wok present n s r s'"
proof (induction ds arbitrary: s)
  case Nil
  then show ?case by (auto simp: yields_def quiet_refl)
next
  case (Cons d ds)
  obtain g s1 where g: "onWorld (vdGet E d n) s = (g, s1)" by fastforce
  note q = onWorld_quiet(4) [OF Cons.prems(1) g]
  show ?case
  proof (cases g)
    case (Inl e)
    then have "probe E n l ds s1 = (r, s')" using Cons.prems(2) g by simp
    from Cons.IH [OF quiet_wok [OF q] this] show ?thesis by (rule yields_after [OF q])
  next
    case (Inr v)
    then show ?thesis using Cons.prems g q onWorld_named(1) [OF Cons.prems(1) g [unfolded Inr]] by (auto simp: yields_def)
  qed
qed
lemma getVolume_spec:
  assumes "wok (vworld s)" "vs_inv E wok present s" "getVolume E n s = (r, s')"
  shows "yields E wok present n s r s'"
proof -
  obtain x s1 where d: "dbLabels E n s = (x, s1)" by fastforce
  note q1 = dbLabels_quiet [OF assms(1) d] note w1 = quiet_wok [OF q1]
  show ?thesis
  proof (cases x)
    case (Inl e)
    then show ?thesis using assms(3) d q1 by (auto simp: getVolume_def yields_err)
  next
    case (Inr l)
    show ?thesis
    proof (cases "names s1 n")
      case None
      obtain y s2 where y: "onWorld (GetAllDrivers E) s1 = (y, s2)" by fastforce
      note q2 = quiet_trans [OF q1 onWorld_quiet(2) [OF w1 y]]
      show ?thesis using assms(3) d Inr None y q2 yields_after [OF q2 probe_spec [OF quiet_wok [OF q2]]]
        by (cases y) (auto simp: getVolume_def yields_err)
    next
      case (Some v)
      obtain y s2 where y: "onWorld (GetDriver E (volDriver E v)) s1 = (y, s2)" by fastforce
      note q2 = quiet_trans [OF q1 onWorld_quiet(1) [OF w1 y]]
      show ?thesis
      proof (cases y)
        case (Inl e)
        then show ?thesis using assms(3) d Inr Some y q2 by (auto simp: getVolume_def yields_err)
      next
        case y': (Inr dr)
        obtain g s3 where g: "onWorld (vdGet E dr n) s2 = (g, s3)" by fastforce
        note q3 = quiet_trans [OF q2 onWorld_quiet(4) [OF quiet_wok [OF q2] g]]
        show ?thesis
          using assms(3) d Inr Some y y' g q3 onWorld_named(1) [OF quiet_wok [OF q2], of dr n _ s3]
          by (cases g) (auto simp: getVolume_def yields_err yields_ok)
      qed
    qed
  qed
qed

lemma createNew_spec:
  assumes "wok (vworld s)" "createNew E d n opts l s = (r, s')"
  shows "yields E wok present n s r s'"
proof -
  obtain g s1 where g: "onWorld (vdCreate E d n opts) s = (g, s1)" by fastforce
  note q1 = onWorld_quiet(5) [OF assms(1) g]
  show ?thesis
  proof (cases g)
    case (Inl e)
    then show ?thesis using assms(2) g q1 by (auto simp: createNew_def yields_err)
  next
    case (Inr v)
    note nm = onWorld_named(2) [OF assms(1) g [unfolded Inr]]
    define s2 where "s2 = s1\<lparr>vlabels := (vlabels s1)(n \<mapsto> l)\<rparr>"
    have q2: "quiet wok present s s2" using q1 by (simp add: quiet_def s2_def)
    have p2: "present (vworld s2) n" using nm by (simp add: s2_def)
    obtain e s3 where e: "onWorld (dbUpdate E) s2 = (e, s3)" by fastforce
    note q3 = onWorld_quiet(3) [OF quiet_wok [OF q2] e]
    have q4: "quiet wok present s (s3\<lparr>db := b\<rparr>)" "quiet wok present s s3" "present (vworld s3) n" for b
      using quiet_trans [OF q2 q3] q3 p2 by (simp_all add: quiet_def)
    show ?thesis
      using assms(2) g Inr e q2 q4 p2 nm
      by (auto simp: createNew_def s2_def [symmetric] yields_err yields_ok split: option.splits)
  qed
qed

lemma createWith_spec:
  assumes "wok (vworld s)" "createWith E n d opts l s = (r, s')"
  shows "yields E wok present n s r s'"
proof -
  obtain y s1 where y: "onWorld (GetDriver E d) s = (y, s1)" by fastforce
  note q1 = onWorld_quiet(1) [OF assms(1) y]
  show ?thesis
  proof (cases y)
    case (Inl e)
    then show ?thesis using assms(2) y q1 by (auto simp: createWith_def yields_err)
  next
    case (Inr dr)
    obtain g s2 where g: "onWorld (vdGet E dr n) s1 = (g, s2)" by fastforce
    note q2 = quiet_trans [OF q1 onWorld_quiet(4) [OF quiet_wok [OF q1] g]]
    show ?thesis
      using assms(2) y Inr g q2 onWorld_named(1) [OF quiet_wok [OF q1], of dr n _ s2]
        yields_after [OF q2 createNew_spec [OF quiet_wok [OF q2]]]
      by (cases g) (auto simp: createWith_def yields_ok)
  qed
qed

lemma create_spec:
  assumes "vs_inv E wok present s" "vs_create E n d opts l s = (r, s')"
  shows "yields E wok present n s r s'"
proof -
  have w: "wok (vworld s)" using assms(1) by (simp add: vs_inv_def)
  show ?thesis
  proof (cases "names s n")
    case (Some v)
    then show ?thesis using assms w
      by (auto simp: vs_create_def getNamed_def vs_inv_def yields_def quiet_refl split: if_splits)
  next
    case None
    obtain g s1 where g: "getVolume E n s = (g, s1)" by fastforce
    note y = getVolume_spec [OF w assms(1) g]
    then have q: "quiet wok present s s1" by (simp add: yields_def)
    show ?thesis
      using assms(2) None g y createWith_spec [OF w] yields_after [OF q createWith_spec [OF quiet_wok [OF q]]]
      by (cases g) (auto simp: vs_create_def getNamed_def split: if_splits)
  qed
qed

lemma yields_setNamed:
  assumes "vs_inv E wok present s" "yields E wok present n s (Inr v) s1"
  shows "vs_inv E wok present (setNamed E v ref s1)"
  using setNamed_inv [OF quiet_inv [OF assms(1)], of s1 v ref] assms(2) by (simp add: yields_def)

lemma yields_inv: "vs_inv E wok present s \<Longrightarrow> yields E wok present n s r s1 \<Longrightarrow> vs_inv E wok present s1"
  using quiet_inv by (auto simp: yields_def)
end

lemma purge_sel:
  assumes "purge E n s = (b, s')"
  shows "names s' = (names s)(n := None)" "refs s' = (refs s)(n := [])"
    "vworld s' = vworld s \<or> vworld s' = snd (dbUpdate E (vworld s))"
  using assms by (auto simp: purge_def onWorld_def Let_def split: option.splits prod.splits)

lemma purge_inv:
  assumes "purge E n s = (b, s')" "wok (vworld s')" "present (vworld s') = present (vworld s)"
    and "\<And>m v. m \<noteq> n \<Longrightarrow> names s m = Some v \<Longrightarrow> volName E v = m \<and> present (vworld s) m"
    and "\<And>m. refs s m \<noteq> [] \<Longrightarrow> names s m \<noteq> None"
  shows "vs_inv E wok present s'"
  unfolding vs_inv_def purge_sel(1,2) [OF assms(1)] assms(3) using assms(2,4,5) by (auto split: if_splits)

context atomic_drivers
begin

lemma Remove_inv:
  assumes "vs_inv E wok present s" "VolumeStore_Remove E v s = (r, s')"
  shows "vs_inv E wok present s'"
proof (cases "getRefs (volName E v) s = []")
  case False
  then show ?thesis using assms by (simp add: VolumeStore_Remove_def)
next
  case True
  have w: "wok (vworld s)" using assms(1) by (simp add: vs_inv_def)
  obtain y s1 where y: "onWorld (GetDriver E (volDriver E v)) s = (y, s1)" by fastforce
  note i1 = quiet_inv [OF assms(1) onWorld_quiet(1) [OF w y]]
  show ?thesis
  proof (cases y)
    case (Inl e)
    then show ?thesis using assms(2) True y i1 by (simp add: VolumeStore_Remove_def)
  next
    case (Inr d)
    obtain e w2 where e: "vdRemove E d (rawVolume v) (vworld s1) = (e, w2)" by fastforce
    define s2 where "s2 = s1\<lparr>vworld := w2\<rparr>"
    have w1: "wok (vworld s1)" using i1 by (simp add: vs_inv_def)
    note ro = remove_other [OF w1 e]
    show ?thesis
    proof (cases e)
      case (Some x)
      then have "vs_inv E wok present s2"
        using i1 ro remove_fails [OF w1 e [unfolded Some]] by (auto simp: vs_inv_def s2_def)
      then show ?thesis using assms(2) True y Inr e Some by (simp add: VolumeStore_Remove_def onWorld_def s2_def)
    next
      case None
      obtain b s3 where p: "purge E (volName E v) s2 = (b, s3)" by fastforce
      have w2: "wok (vworld s2)" using ro by (simp add: s2_def)
      have w3: "wok (vworld s3) \<and> present (vworld s3) = present (vworld s2)"
        using purge_sel(3) [OF p] lookups(3) [OF w2] w2 by (metis prod.collapse)
      have "vs_inv E wok present s3"
      proof (rule purge_inv [OF p])
        show "wok (vworld s3)" "present (vworld s3) = present (vworld s2)" using w3 by blast+
        show "volName E v' = m \<and> present (vworld s2) m" if "m \<noteq> volName E v" "names s2 m = Some v'" for m v'
          using that i1 ro by (simp add: vs_inv_def s2_def volName_def)
        show "names s2 m \<noteq> None" if "refs s2 m \<noteq> []" for m
          using that i1 by (simp add: vs_inv_def s2_def del: not_None_eq)
      qed
      moreover have "s' = s3" using assms(2) True y Inr e None p
        by (cases b) (auto simp: VolumeStore_Remove_def onWorld_def s2_def)
      ultimately show ?thesis by simp
    qed
  qed
qed

lemma vstep_inv: "vstep E s s' \<Longrightarrow> vs_inv E wok present s \<Longrightarrow> vs_inv E wok present s'"
proof (induction rule: vstep.induct)
  case (VCreate n d opts l s r s')
  obtain x s1 where "vs_create E n d opts l s = (x, s1)" by fastforce
  then show ?case using VCreate create_spec yields_setNamed yields_inv
    by (cases x) (fastforce simp: VolumeStore_Create_def)+
next
  case (VCreateWithRef n d ref opts l s r s')
  obtain x s1 where "vs_create E n d opts l s = (x, s1)" by fastforce
  then show ?case using VCreateWithRef create_spec yields_setNamed yields_inv
    by (cases x) (fastforce simp: VolumeStore_CreateWithRef_def)+
next
  case (VGet n s r s')
  obtain x s1 where g: "getVolume E n s = (x, s1)" by fastforce
  have "wok (vworld s)" using VGet(2) by (simp add: vs_inv_def)
  from getVolume_spec [OF this VGet(2) g] show ?case using VGet g yields_setNamed yields_inv
    by (cases x) (fastforce simp: VolumeStore_Get_def)+
next
  case (VGetWithRef n d ref s r s')
  obtain y s1 where y: "onWorld (GetDriver E d) s = (y, s1)" by fastforce
  have w: "wok (vworld s)" using VGetWithRef(2) by (simp add: vs_inv_def)
  note q1 = onWorld_quiet(1) [OF w y]
  show ?case
  proof (cases y)
    case (Inl e)
    then show ?thesis using VGetWithRef y quiet_inv [OF _ q1] by (auto simp: VolumeStore_GetWithRef_def)
  next
    case (Inr dr)
    obtain g s2 where g: "onWorld (vdGet E dr n) s1 = (g, s2)" by fastforce
    note i2 = quiet_inv [OF VGetWithRef(2) quiet_trans [OF q1 onWorld_quiet(4) [OF quiet_wok [OF q1] g]]]
    show ?thesis
      using VGetWithRef(1) y Inr g i2 onWorld_named(1) [OF quiet_wok [OF q1], of dr n _ s2] setNamed_inv [OF i2]
      by (cases g) (auto simp: VolumeStore_GetWithRef_def Let_def)
  qed
next
  case (VRemove v s r' s')
  then show ?case using Remove_inv by blast
next
  case (VDereference s v ref)
  then show ?case using Dereference_inv by blast
qed

lemma vsteps_inv: "(vstep E)\<^sup>*\<^sup>* s s' \<Longrightarrow> vs_inv E wok present s \<Longrightarrow> vs_inv E wok present s'"
  by (induction rule: rtranclp_induct) (auto intro: vstep_inv)
end

section \<open>The store on the local driver\<close>

text \<open>The driver table has the local driver only; the answers of the operating system and the database come in order.\<close>

record localWorld =
  lroot :: Root
  answers :: "nat \<Rightarrow> fsAnswers"
  dbErr :: "nat \<Rightarrow> string option"
  tick :: nat

definition localDrivers :: "(localVolume, localWorld) drivers" where
  "localDrivers =
     \<lparr>rawName = lvName, rawDriverName = lvDriverName,
      GetDriver = (\<lambda>n w. (if n = '''' \<or> n = DefaultDriverName then Inr DefaultDriverName else Inl ''Error looking up volume plugin'', w)),
      GetAllDrivers = (\<lambda>w. (Inr [DefaultDriverName], w)),
      vdGet = (\<lambda>d n w. (Root_Get n (lroot w), w)),
      vdCreate = (\<lambda>d n opts w. case Root_Create (answers w (tick w)) n opts (lroot w) of (x, r) \<Rightarrow> (x, w\<lparr>lroot := r, tick := tick w + 1\<rparr>)),
      vdRemove = (\<lambda>d v w. case Root_Remove (answers w (tick w)) (Some v) (lroot w) of (x, r) \<Rightarrow> (x, w\<lparr>lroot := r, tick := tick w + 1\<rparr>)),
      vdScope = (\<lambda>d. Root_Scope),
      dbUpdate = (\<lambda>w. (dbErr w (tick w), w\<lparr>tick := tick w + 1\<rparr>))\<rparr>"

definition hasVolume :: "localWorld \<Rightarrow> string \<Rightarrow> bool" where
  "hasVolume w n \<longleftrightarrow> volumes (lroot w) n \<noteq> None"

definition worldOk :: "localWorld \<Rightarrow> bool" where
  "worldOk w \<longleftrightarrow> root_ok (lroot w) \<and> (\<forall>k. removePath (removeDirErr (answers w k)) = None)"

lemma localDrivers_sel:
  "rawName localDrivers = lvName" "rawDriverName localDrivers = lvDriverName"
  "GetDriver localDrivers d w = (if d = '''' \<or> d = DefaultDriverName then Inr DefaultDriverName else Inl ''Error looking up volume plugin'', w)"
  "GetAllDrivers localDrivers w = (Inr [DefaultDriverName], w)"
  "vdGet localDrivers d n w = (Root_Get n (lroot w), w)"
  "vdCreate localDrivers d n opts w =
     (case Root_Create (answers w (tick w)) n opts (lroot w) of (x, r) \<Rightarrow> (x, w\<lparr>lroot := r, tick := tick w + 1\<rparr>))"
  "vdRemove localDrivers d v w =
     (case Root_Remove (answers w (tick w)) (Some v) (lroot w) of (x, r) \<Rightarrow> (x, w\<lparr>lroot := r, tick := tick w + 1\<rparr>))"
  "dbUpdate localDrivers w = (dbErr w (tick w), w\<lparr>tick := tick w + 1\<rparr>)"
  by (simp_all add: localDrivers_def)


interpretation localVols: atomic_drivers localDrivers worldOk hasVolume
proof (rule atomic_drivers.intro, rule volume_drivers.intro, goal_cases)
  case (5 w d n v w')
  then show ?case using Root_Get_spec by (auto simp: localDrivers_sel worldOk_def hasVolume_def)
next
  case (6 w d n opts g w' m)
  obtain x r where c: "Root_Create (answers w (tick w)) n opts (lroot w) = (x, r)" by fastforce
  then have "w' = w\<lparr>lroot := r, tick := tick w + 1\<rparr>" using 6(2) by (simp add: localDrivers_sel)
  then show ?case using Root_Create_spec(1,2) [OF _ c] 6(1) by (simp add: worldOk_def hasVolume_def)
next
  case (7 w d n opts v w')
  obtain x r where c: "Root_Create (answers w (tick w)) n opts (lroot w) = (x, r)" by fastforce
  then have "x = Inr v" "w' = w\<lparr>lroot := r, tick := tick w + 1\<rparr>" using 7(2) by (simp_all add: localDrivers_sel)
  then show ?case using Root_Create_spec(3) [OF _ c, where v = v] 7(1) by (simp add: worldOk_def hasVolume_def localDrivers_sel)
next
  case (8 w d v e w' m)
  obtain x r where c: "Root_Remove (answers w (tick w)) (Some v) (lroot w) = (x, r)" by fastforce
  then have "w' = w\<lparr>lroot := r, tick := tick w + 1\<rparr>" using 8(2) by (simp add: localDrivers_sel)
  then show ?case using Root_Remove_spec(1,2) [OF _ c] 8(1) by (simp add: worldOk_def hasVolume_def localDrivers_sel)
next
  case 9
  show ?case
  proof (rule atomic_drivers_axioms.intro, goal_cases)
    case (1 w d v e w' m)
    obtain x r where c: "Root_Remove (answers w (tick w)) (Some v) (lroot w) = (x, r)" by fastforce
    then have "x = Some e" "w' = w\<lparr>lroot := r, tick := tick w + 1\<rparr>" using 1(2) by (simp_all add: localDrivers_sel)
    then show ?case using Root_Remove_spec(3) [OF _ c] 1(1,3) by (simp add: worldOk_def hasVolume_def)
  qed
qed (auto simp: localDrivers_sel worldOk_def hasVolume_def fun_eq_iff)

lemma newVolumeStore_inv: "wok w \<Longrightarrow> vs_inv E wok present (newVolumeStore b w)"
  by (simp add: vs_inv_def newVolumeStore_def)


section \<open>Properties\<close>


text \<open>A host with an empty volume directory on which removing the directory of a volume fails with \<open>err\<close>, if at all.\<close>

definition demoWorld :: "(bool \<times> string) option \<Rightarrow> localWorld" where
  "demoWorld err =
     \<lparr>lroot = \<lparr>rscope = ''/d'', rpath = ''/d/volumes'', volumes = Map.empty, lheap = (\<lambda>_. \<lparr>lvOpts = None, lvActive = newActive\<rparr>), lnext = 0\<rparr>,
      answers = (\<lambda>_. \<lparr>mkdirErr = None, writeErr = None, evalSymlinks = Inr ''/d/volumes/vol/_data'', removeDataErr = None,
                     removeDirErr = err, mountErr = None, unmountErr = None\<rparr>),
      dbErr = (\<lambda>_. None), tick = 0\<rparr>"

lemmas store_defs = VolumeStore_Create_def VolumeStore_CreateWithRef_def VolumeStore_Remove_def vs_create_def createWith_def createNew_def
  getNamed_def setNamed_def getRefs_def onWorld_def newVolumeStore_def localDrivers_sel volName_def volDriver_def wrapVolume_def
  Root_Get_def Root_Create_def Root_Remove_def addVolume_def setOpts_def Root_Name_def DefaultDriverName_def Let_def

lemma vol_valid: "Root_validateName ''vol''"
  by (simp add: Root_validateName_def alnum_def)

lemma vol_scoped: "scopedPath \<lparr>rscope = ''/d'', rpath = p, volumes = m, lheap = h, lnext = k\<rparr> ''/d/volumes/vol/_data''"
  by (simp add: scopedPath_def joinPath_def volumesPathName_def oldVfsDir_def)



text \<open>\<open>Remove\<close> of a volume whose driver is gone panics instead of returning the error.\<close>

lemma remove_unknown_driver:
  "rawDriverName E (rawVolume v) = d \<Longrightarrow> GetDriver E d (vworld s) = (Inl e, w) \<Longrightarrow> refs s (volName E v) = [] \<Longrightarrow>
   fst (VolumeStore_Remove E v s) = VPanic"
  by (simp add: VolumeStore_Remove_def getRefs_def volDriver_def onWorld_def)

end
