(* ===== verification/Digest_Set.thy ===== *)
theory Digest_Set
  imports Image_Store "HOL-Library.Product_Lexorder"
begin

text \<open>
  The digest set behind the lookup of short image ids:
  \<^verbatim>\<open>src/vendor/src/github.com/docker/distribution/digest/set.go\<close>, and \<open>Search\<close> of the image store on it.

  The set is a slice of entries sorted by hex value and algorithm, searched by bisection.  The
  image store has it as a finite set of ids; \<open>setOf\<close> is the slice of such a set, and \<open>Add\<close> and
  \<open>Remove\<close> on the slice are the operations on the set.  A digest without a colon makes
  \<open>Hex\<close> and \<open>Algorithm\<close> panic.
\<close>

section \<open>Bisection\<close>

text \<open>\<open>sort.Search\<close> of the standard library, between \<open>i\<close> and \<open>j\<close>.\<close>

function sortSearch :: "(nat \<Rightarrow> bool) \<Rightarrow> nat \<Rightarrow> nat \<Rightarrow> nat" where
  "sortSearch f i j =
     (if i < j then
        (let h = i + (j - i) div 2 in if \<not> f h then sortSearch f (h + 1) j else sortSearch f i h)
      else i)"
  by pat_completeness auto
termination by (relation "measure (\<lambda>(f, i, j). j - i)") auto

declare sortSearch.simps [simp del]

lemma sortSearch_step:
  "i < j \<Longrightarrow> h = i + (j - i) div 2 \<Longrightarrow> f h \<Longrightarrow> sortSearch f i j = sortSearch f i h"
  "i < j \<Longrightarrow> h = i + (j - i) div 2 \<Longrightarrow> \<not> f h \<Longrightarrow> sortSearch f i j = sortSearch f (h + 1) j"
  "\<not> i < j \<Longrightarrow> sortSearch f i j = i"
  by (simp_all add: sortSearch.simps [of f i j] Let_def)

definition upFrom :: "(nat \<Rightarrow> bool) \<Rightarrow> nat \<Rightarrow> nat \<Rightarrow> bool" where
  "upFrom f n k \<longleftrightarrow> k \<le> n \<and> (\<forall>a<n. f a \<longleftrightarrow> k \<le> a)"

lemma sortSearch_between:
  assumes "upFrom f n k" and "i \<le> k" and "k \<le> j" and "j \<le> n"
  shows "sortSearch f i j = k"
  using assms
proof (induction f i j rule: sortSearch.induct)
  case (1 f i j)
  show ?case
  proof (cases "i < j")
    case True
    define h where "h = i + (j - i) div 2"
    have h: "i \<le> h" "h < j" using True by (auto simp: h_def)
    then have f: "f h \<longleftrightarrow> k \<le> h" using 1(3,6) by (simp add: upFrom_def)
    show ?thesis
    proof (cases "f h")
      case True
      with f h 1(2) [OF \<open>i < j\<close> h_def] 1(3-6) show ?thesis
        by (simp add: sortSearch_step(1) [of i j h f] \<open>i < j\<close> h_def [symmetric])
    next
      case False
      with f h 1(1) [OF \<open>i < j\<close> h_def] 1(3-6) show ?thesis
        by (simp add: sortSearch_step(2) [of i j h f] \<open>i < j\<close> h_def [symmetric])
    qed
  next
    case False
    with 1(4,5) show ?thesis by (simp add: sortSearch_step(3))
  qed
qed

lemma sortSearch_eq: "upFrom f n k \<Longrightarrow> sortSearch f 0 n = k"
  using sortSearch_between [of f n k 0 n] by (simp add: upFrom_def)

section \<open>The set\<close>

record digestEntry =
  entryAlg :: string
  entryVal :: string
  entryDigest :: string

type_synonym digestEntries = "digestEntry list"

definition NewSet :: digestEntries where
  "NewSet = []"

definition checkShortMatch :: "string \<Rightarrow> string \<Rightarrow> string \<Rightarrow> string \<Rightarrow> bool" where
  "checkShortMatch alg hex shortAlg shortHex =
     (if length hex = length shortHex then
        (if hex \<noteq> shortHex then False
         else if 0 < length shortAlg \<and> alg \<noteq> shortAlg then False
         else True)
      else if \<not> has_prefix hex shortHex then False
      else if 0 < length shortAlg \<and> alg \<noteq> shortAlg then False
      else True)"

text \<open>The search function that \<open>Add\<close>, \<open>Remove\<close> and \<open>Lookup\<close> build from a value and an algorithm.\<close>

definition searchEntry :: "string \<Rightarrow> string \<Rightarrow> digestEntries \<Rightarrow> nat" where
  "searchEntry v alg es =
     sortSearch
       (\<lambda>i. if entryVal (es ! i) = v then alg \<le> entryAlg (es ! i) else v \<le> entryVal (es ! i)) 0 (length es)"

datatype lookupResult = LDigest string | ErrDigestNotFound | ErrDigestAmbiguous | LPanic

definition lookupAt :: "nat \<Rightarrow> string \<Rightarrow> string \<Rightarrow> digestEntries \<Rightarrow> lookupResult" where
  "lookupAt idx alg hex es =
     (if idx = length es \<or> \<not> checkShortMatch (entryAlg (es ! idx)) (entryVal (es ! idx)) alg hex
      then ErrDigestNotFound
      else if entryAlg (es ! idx) = alg \<and> entryVal (es ! idx) = hex then LDigest (entryDigest (es ! idx))
      else if idx + 1 < length es \<and> checkShortMatch (entryAlg (es ! (idx + 1))) (entryVal (es ! (idx + 1))) alg hex
      then ErrDigestAmbiguous
      else LDigest (entryDigest (es ! idx)))"

definition Set_Lookup :: "string \<Rightarrow> digestEntries \<Rightarrow> lookupResult" where
  "Set_Lookup d es =
     (if length es = 0 then ErrDigestNotFound
      else if Digest_Validate d = Some ErrDigestInvalidFormat
      then lookupAt (sortSearch (\<lambda>i. d \<le> entryVal (es ! i)) 0 (length es)) [] d es
      else case (Digest_Hex d, Digest_Algorithm d) of
             (Some hex, Some alg) \<Rightarrow> lookupAt (searchEntry hex alg es) alg hex es
           | _ \<Rightarrow> LPanic)"

datatype setResult = SOk digestEntries | SErr ref_error | SPanic

definition Set_Add :: "string \<Rightarrow> digestEntries \<Rightarrow> setResult" where
  "Set_Add d es =
     (case Digest_Validate d of
        Some e \<Rightarrow> SErr e
      | None \<Rightarrow>
          (case (Digest_Algorithm d, Digest_Hex d) of
             (Some alg, Some hex) \<Rightarrow>
               (let entry = \<lparr>entryAlg = alg, entryVal = hex, entryDigest = d\<rparr>;
                    idx = searchEntry hex alg es
                in if idx = length es then SOk (es @ [entry])
                   else if entryDigest (es ! idx) = d then SOk es
                   else SOk (take idx es @ entry # drop idx es))
           | _ \<Rightarrow> SPanic))"

definition Set_Remove :: "string \<Rightarrow> digestEntries \<Rightarrow> setResult" where
  "Set_Remove d es =
     (case Digest_Validate d of
        Some e \<Rightarrow> SErr e
      | None \<Rightarrow>
          (case (Digest_Algorithm d, Digest_Hex d) of
             (Some alg, Some hex) \<Rightarrow>
               (let idx = searchEntry hex alg es
                in if idx = length es \<or> entryDigest (es ! idx) \<noteq> d then SOk es
                   else SOk (take idx es @ drop (idx + 1) es))
           | _ \<Rightarrow> SPanic))"


section \<open>Entries of a set of digests\<close>

definition entryOf :: "string \<Rightarrow> digestEntry" where
  "entryOf d = \<lparr>entryAlg = the (Digest_Algorithm d), entryVal = the (Digest_Hex d), entryDigest = d\<rparr>"

definition entryKey :: "digestEntry \<Rightarrow> string \<times> string" where
  "entryKey e = (entryVal e, entryAlg e)"

definition setOf :: "string fset \<Rightarrow> digestEntries" where
  "setOf D = sort_key entryKey (map entryOf (sorted_list_of_fset D))"

text \<open>\<open>Search\<close> of the image store, whose digest set holds the ids of the known images.\<close>

definition imageStore_Search :: "string \<Rightarrow> ('l, 'h) imageStore \<Rightarrow> string imageResult" where
  "imageStore_Search term s =
     (case Set_Lookup term (setOf (digestSet s)) of
        LDigest d \<Rightarrow> IOk d
      | ErrDigestNotFound \<Rightarrow> IErr (''No such image: '' @ term)
      | ErrDigestAmbiguous \<Rightarrow> IErr ''ambiguous digest string''
      | LPanic \<Rightarrow> IPanic)"

lemma entryOf_sel [simp]:
  "entryAlg (entryOf d) = the (Digest_Algorithm d)" "entryVal (entryOf d) = the (Digest_Hex d)"
  "entryDigest (entryOf d) = d"
  by (simp_all add: entryOf_def)

lemma digest_parts:
  "Digest_Algorithm d = Some a \<longleftrightarrow> (\<exists>h. Digest_Hex d = Some h \<and> d = a @ CHR '':'' # h \<and> CHR '':'' \<notin> set a)"
  "Digest_Hex d = None \<longleftrightarrow> CHR '':'' \<notin> set d" "Digest_Algorithm d = None \<longleftrightarrow> CHR '':'' \<notin> set d"
proof -
  show "Digest_Hex d = None \<longleftrightarrow> CHR '':'' \<notin> set d" "Digest_Algorithm d = None \<longleftrightarrow> CHR '':'' \<notin> set d"
    by (simp_all add: Digest_Hex_def Digest_Algorithm_def indexOf_None_iff [symmetric] split: option.split)
  show "Digest_Algorithm d = Some a \<longleftrightarrow> (\<exists>h. Digest_Hex d = Some h \<and> d = a @ CHR '':'' # h \<and> CHR '':'' \<notin> set a)"
    by (auto simp: Digest_Algorithm_def Digest_Hex_def indexOf_append_notin split: option.splits elim: indexOf_SomeE)
qed

text \<open>A string that is a digest in format has a colon, so neither \<open>Hex\<close> nor \<open>Algorithm\<close> panics on it.\<close>

lemma format_parts:
  assumes "Digest_Validate d \<noteq> Some ErrDigestInvalidFormat"
  obtains a h where "Digest_Algorithm d = Some a" "Digest_Hex d = Some h" "d = a @ CHR '':'' # h"
proof -
  have "Digest_Algorithm d \<noteq> None"
    using assms by (auto simp: Digest_Validate_def Digest_Algorithm_def split: option.splits if_splits)
  then show thesis using that digest_parts(1) by blast
qed

lemma entryKey_of:
  assumes "Digest_Validate d = None"
  shows "d = snd (entryKey (entryOf d)) @ CHR '':'' # fst (entryKey (entryOf d))"
proof -
  from assms obtain a h where "Digest_Algorithm d = Some a" "Digest_Hex d = Some h" and d: "d = a @ CHR '':'' # h"
    by (metis format_parts option.distinct(1))
  then have "entryKey (entryOf d) = (h, a)" by (simp add: entryKey_def)
  then show ?thesis using d by simp
qed

lemma entryKey_inj:
  assumes "Digest_Validate d = None" and "Digest_Validate d' = None" and "entryKey (entryOf d) = entryKey (entryOf d')"
  shows "d = d'"
  using entryKey_of [OF assms(1)] entryKey_of [OF assms(2)] assms(3) by metis

definition strictly :: "digestEntries \<Rightarrow> bool" where
  "strictly es \<longleftrightarrow> sorted_wrt (\<lambda>x y. entryKey x < entryKey y) es"

lemma strictly_map: "strictly es \<longleftrightarrow> sorted (map entryKey es) \<and> distinct (map entryKey es)"
  using strict_sorted_iff [of "map entryKey es"] by (simp add: strictly_def sorted_wrt_map)

lemma setOf_set: "set (setOf D) = entryOf ` fset D"
  by (simp add: setOf_def sorted_list_of_fset_simps)

definition valids :: "string fset \<Rightarrow> bool" where
  "valids D \<longleftrightarrow> (\<forall>d |\<in>| D. Digest_Validate d = None)"

lemma valids_inj: "valids D \<Longrightarrow> inj_on (entryKey \<circ> entryOf) (fset D)"
  using entryKey_inj by (auto simp: inj_on_def valids_def)

lemma setOf_strictly:
  assumes "valids D"
  shows "strictly (setOf D)"
proof -
  have "distinct (sorted_list_of_fset D)" by (simp add: sorted_list_of_fset.rep_eq)
  then have "distinct (map (entryKey \<circ> entryOf) (sorted_list_of_fset D))"
    using valids_inj [OF assms] by (simp add: distinct_map sorted_list_of_fset_simps)
  then show ?thesis
    by (auto simp: strictly_map setOf_def distinct_map inj_on_def)
qed

lemma strictly_unique:
  assumes "strictly es" and "strictly es'" and "set es = set es'"
  shows "es = es'"
proof -
  have "map entryKey es = map entryKey es'"
    using assms by (intro sorted_distinct_set_unique) (auto simp: strictly_map)
  moreover have "inj_on entryKey (set es \<union> set es')" using assms by (auto simp: strictly_map distinct_map)
  ultimately show ?thesis by (metis map_inj_on)
qed

lemma setOf_unique: "valids D \<Longrightarrow> strictly es \<Longrightarrow> set es = entryOf ` fset D \<Longrightarrow> es = setOf D"
  using strictly_unique setOf_strictly setOf_set by metis


section \<open>Where the bisection ends\<close>

lemma takeWhile_upFrom:
  assumes "sorted_wrt (\<lambda>x y. P y \<longrightarrow> P x) es"
  shows "upFrom (\<lambda>i. \<not> P (es ! i)) (length es) (length (takeWhile P es))"
proof -
  have "P (es ! a) \<longleftrightarrow> a < length (takeWhile P es)" if "a < length es" for a
  proof
    show "a < length (takeWhile P es) \<Longrightarrow> P (es ! a)" by (metis nth_mem set_takeWhileD takeWhile_nth)
    show "a < length (takeWhile P es)" if "P (es ! a)"
    proof (rule ccontr)
      assume "\<not> a < length (takeWhile P es)"
      then have n: "length (takeWhile P es) \<le> a" by simp
      then have "\<not> P (es ! length (takeWhile P es))" using \<open>a < length es\<close> by (intro nth_length_takeWhile) simp
      then show False
        using that n \<open>a < length es\<close> assms by (metis le_neq_implies_less sorted_wrt_nth_less)
    qed
  qed
  then show ?thesis using length_takeWhile_le [of P es] by (auto simp: upFrom_def not_less)
qed

lemma takeWhile_sorted_filter:
  assumes "sorted_wrt (\<lambda>x y. P y \<longrightarrow> P x) es"
  shows "takeWhile P es = filter P es" and "dropWhile P es = filter (\<lambda>x. \<not> P x) es"
proof -
  have "takeWhile P es = filter P es \<and> dropWhile P es = filter (\<lambda>x. \<not> P x) es"
    using assms by (induction es) (auto simp: filter_empty_conv filter_id_conv)
  then show "takeWhile P es = filter P es" "dropWhile P es = filter (\<lambda>x. \<not> P x) es" by blast+
qed

definition below :: "string \<Rightarrow> string \<Rightarrow> digestEntry \<Rightarrow> bool" where
  "below v alg e \<longleftrightarrow> entryKey e < (v, alg)"

lemma strictly_below: "strictly es \<Longrightarrow> sorted_wrt (\<lambda>x y. below v alg y \<longrightarrow> below v alg x) es"
  unfolding strictly_def below_def by (erule sorted_wrt_mono_rel [rotated]) (auto intro: less_trans)

lemma searchEntry_below:
  assumes "strictly es"
  shows "searchEntry v alg es = length (filter (below v alg) es)"
proof -
  have "(\<lambda>i. if entryVal (es ! i) = v then alg \<le> entryAlg (es ! i) else v \<le> entryVal (es ! i)) =
      (\<lambda>i. \<not> below v alg (es ! i))"
    by (auto simp: below_def entryKey_def fun_eq_iff less_prod_def')
  then show ?thesis
    unfolding searchEntry_def
    using sortSearch_eq [OF takeWhile_upFrom [OF strictly_below [OF assms]]] takeWhile_sorted_filter(1) [OF strictly_below [OF assms]]
    by simp
qed

lemma split_below:
  assumes "strictly es"
  shows "es = filter (below v alg) es @ filter (\<lambda>e. \<not> below v alg e) es"
  using takeWhile_sorted_filter [OF strictly_below [OF assms]] takeWhile_dropWhile_id by metis

lemma take_searchEntry:
  assumes "strictly es"
  shows "take (searchEntry v alg es) es = filter (below v alg) es"
    and "drop (searchEntry v alg es) es = filter (\<lambda>e. \<not> below v alg e) es"
  using split_below [OF assms, of v alg] unfolding searchEntry_below [OF assms]
  by (metis append_eq_conv_conj)+

text \<open>What stands at the position: nothing, the entry of the digest itself, or a greater one.\<close>

lemma searchEntry_cases:
  assumes es: "strictly es" and "\<forall>e \<in> set es. \<exists>d. e = entryOf d \<and> Digest_Validate d = None"
    and d: "Digest_Validate d = None" "entryKey (entryOf d) = (v, alg)"
  obtains (none) "searchEntry v alg es = length es" "\<forall>e \<in> set es. entryKey e < (v, alg)"
  | (found) rest where "searchEntry v alg es < length es" "es ! searchEntry v alg es = entryOf d"
      "filter (\<lambda>e. \<not> below v alg e) es = entryOf d # rest"
  | (greater) "searchEntry v alg es < length es" "entryDigest (es ! searchEntry v alg es) \<noteq> d" "entryOf d \<notin> set es"
      "\<forall>e \<in> set (filter (\<lambda>e. \<not> below v alg e) es). (v, alg) < entryKey e"
proof (cases "filter (\<lambda>e. \<not> below v alg e) es")
  case Nil
  then have "searchEntry v alg es = length es" using take_searchEntry(2) [OF es, of v alg] searchEntry_below [OF es, of v alg]
    by (metis append_Nil2 split_below [OF es])
  with Nil show thesis by (intro none) (auto simp: filter_empty_conv below_def)
next
  case (Cons e rest)
  let ?n = "searchEntry v alg es"
  have dr: "drop ?n es = e # rest" using take_searchEntry(2) [OF es] Cons by simp
  then have n: "?n < length es" and nth: "es ! ?n = e" by (metis drop_all linorder_not_le list.distinct(1), metis nth_via_drop)
  have mem: "e \<in> set es" using n nth by (metis nth_mem)
  then obtain d' where d': "e = entryOf d'" "Digest_Validate d' = None" using assms(2) by blast
  have str: "sorted_wrt (\<lambda>x y. entryKey x < entryKey y) (e # rest)"
    using es unfolding strictly_def by (metis Cons sorted_wrt_filter)
  show thesis
  proof (cases "entryKey e = (v, alg)")
    case True
    then have "d' = d" using entryKey_inj d d' by metis
    with n nth d' Cons show thesis by (intro found) simp_all
  next
    case False
    have "\<not> below v alg e" using Cons by (metis (mono_tags, lifting) filter_eq_ConsD)
    with False have lt: "(v, alg) < entryKey e" by (simp add: below_def)
    have gt: "\<forall>x \<in> set (e # rest). (v, alg) < entryKey x" using str lt by (auto intro: less_trans)
    have "entryOf d \<notin> set es"
    proof
      assume "entryOf d \<in> set es"
      then have "entryOf d \<in> set (e # rest)" using Cons d(2) by (auto simp: below_def simp flip: Cons)
      with gt d(2) show False by auto
    qed
    moreover have "d' \<noteq> d" using False d d' by auto
    ultimately show thesis using n nth d' gt Cons by (intro greater) simp_all
  qed
qed


section \<open>The slice implements the set\<close>

lemma setOf_entries: "valids D \<Longrightarrow> \<forall>e \<in> set (setOf D). \<exists>d. e = entryOf d \<and> Digest_Validate d = None"
  by (auto simp: setOf_set valids_def)

lemma validated_parts:
  assumes "Digest_Validate d = None"
  obtains a h where "Digest_Algorithm d = Some a" "Digest_Hex d = Some h" "entryKey (entryOf d) = (h, a)"
    "\<lparr>entryAlg = a, entryVal = h, entryDigest = d\<rparr> = entryOf d"
proof -
  obtain a h where "Digest_Algorithm d = Some a" "Digest_Hex d = Some h"
    using assms by (metis format_parts option.distinct(1))
  then show thesis by (intro that) (simp_all add: entryKey_def entryOf_def)
qed

lemma strictly_insert:
  assumes es: "strictly es" and k: "entryKey e = (v, alg)" and gt: "\<forall>x \<in> set (filter (\<lambda>x. \<not> below v alg x) es). (v, alg) < entryKey x"
  shows "strictly (filter (below v alg) es @ e # filter (\<lambda>x. \<not> below v alg x) es)"
proof -
  have f: "sorted_wrt (\<lambda>x y. entryKey x < entryKey y) (filter P es)" for P
    using es unfolding strictly_def by (rule sorted_wrt_filter)
  show ?thesis
    using f gt k unfolding strictly_def sorted_wrt_append
    by (auto simp: below_def intro: less_trans)
qed

lemma entryOf_inj: "entryOf d = entryOf d' \<longleftrightarrow> d = d'"
  by (metis entryOf_sel(3))

lemma Set_Add_refines:
  assumes D: "valids D"
  shows "Set_Add d (setOf D) =
    (case digestSet_Add d D of (Some e, _) \<Rightarrow> SErr e | (None, D') \<Rightarrow> SOk (setOf D'))"
proof (cases "Digest_Validate d")
  case (Some e)
  then show ?thesis by (simp add: Set_Add_def digestSet_Add_def)
next
  case None
  then obtain a h where p: "Digest_Algorithm d = Some a" "Digest_Hex d = Some h" and k: "entryKey (entryOf d) = (h, a)"
    and e: "\<lparr>entryAlg = a, entryVal = h, entryDigest = d\<rparr> = entryOf d" by (rule validated_parts)
  note es = setOf_strictly [OF D] and ents = setOf_entries [OF D]
  have V: "valids (finsert d D)" using D None by (auto simp: valids_def)
  have ins: "Set_Add d (setOf D) = SOk xs \<Longrightarrow> strictly xs \<Longrightarrow> set xs = insert (entryOf d) (set (setOf D)) \<Longrightarrow> ?thesis" for xs
    using setOf_unique [OF V, of xs] None by (simp add: digestSet_Add_def setOf_set)
  note def = Set_Add_def None p option.case prod.case e Let_def
  from es ents None k show ?thesis
  proof (cases rule: searchEntry_cases)
    case none
    show ?thesis
    proof (rule ins)
      show "Set_Add d (setOf D) = SOk (setOf D @ [entryOf d])" unfolding def using none(1) by simp
      show "strictly (setOf D @ [entryOf d])" using none(2) es k by (simp add: strictly_def sorted_wrt_append)
    qed simp
  next
    case (found rest)
    show ?thesis
    proof (rule ins)
      show "Set_Add d (setOf D) = SOk (setOf D)" unfolding def using found by simp
      show "set (setOf D) = insert (entryOf d) (set (setOf D))" using found by (metis insert_absorb nth_mem)
    qed (rule es)
  next
    case greater
    let ?xs = "filter (below h a) (setOf D) @ entryOf d # filter (\<lambda>x. \<not> below h a x) (setOf D)"
    show ?thesis
    proof (rule ins)
      show "Set_Add d (setOf D) = SOk ?xs" unfolding def using greater(1,2) by (simp add: take_searchEntry [OF es])
      show "strictly ?xs" by (rule strictly_insert [OF es k greater(4)])
    qed auto
  qed
qed

lemma Set_Remove_refines:
  assumes D: "valids D"
  shows "Set_Remove d (setOf D) =
    (case digestSet_Remove d D of (Some e, _) \<Rightarrow> SErr e | (None, D') \<Rightarrow> SOk (setOf D'))"
proof (cases "Digest_Validate d")
  case (Some e)
  then show ?thesis by (simp add: Set_Remove_def digestSet_Remove_def)
next
  case None
  then obtain a h where p: "Digest_Algorithm d = Some a" "Digest_Hex d = Some h" and k: "entryKey (entryOf d) = (h, a)"
    by (rule validated_parts)
  note es = setOf_strictly [OF D] and ents = setOf_entries [OF D]
  have V: "valids (D |-| {|d|})" using D by (auto simp: valids_def)
  note def = Set_Remove_def None p option.case prod.case Let_def
  have out: "Set_Remove d (setOf D) = SOk (setOf D) \<Longrightarrow> entryOf d \<notin> set (setOf D) \<Longrightarrow> ?thesis"
  proof -
    assume run: "Set_Remove d (setOf D) = SOk (setOf D)" and "entryOf d \<notin> set (setOf D)"
    then have "D |-| {|d|} = D" by (auto simp: setOf_set)
    with run None show ?thesis by (simp add: digestSet_Remove_def)
  qed
  from es ents None k show ?thesis
  proof (cases rule: searchEntry_cases)
    case none
    with k show ?thesis by (intro out) (auto simp: def)
  next
    case (found rest)
    let ?b = "filter (below h a) (setOf D)"
    have all: "setOf D = ?b @ entryOf d # rest" using split_below [OF es] found(3) by metis
    then have str: "strictly (?b @ entryOf d # rest)" using es by simp
    then have xs: "strictly (?b @ rest)" "entryOf d \<notin> set (?b @ rest)" by (auto simp: strictly_def sorted_wrt_append)
    have "set (?b @ rest) = set (setOf D) - {entryOf d}" using all xs(2) by (metis Diff_insert_absorb list.simps(15) set_append Un_insert_right)
    also have "\<dots> = entryOf ` fset (D |-| {|d|})" by (auto simp: setOf_set entryOf_inj)
    finally have "?b @ rest = setOf (D |-| {|d|})" by (rule setOf_unique [OF V xs(1)])
    moreover have "drop (searchEntry h a (setOf D) + 1) (setOf D) = rest"
      using take_searchEntry(2) [OF es, of h a] found(3) by (metis drop_drop add.commute drop_Suc_Cons drop_0 One_nat_def plus_1_eq_Suc)
    ultimately show ?thesis
      using found None by (simp add: def take_searchEntry(1) [OF es] digestSet_Remove_def)
  next
    case greater
    then show ?thesis by (intro out) (auto simp: def)
  qed
qed


section \<open>Short ids\<close>

text \<open>The algorithm and the hex value that \<open>Lookup\<close> reads off a term; no algorithm is the empty string.\<close>

definition termParts :: "string \<Rightarrow> string \<times> string" where
  "termParts term =
     (if Digest_Validate term = Some ErrDigestInvalidFormat then ([], term)
      else (the (Digest_Algorithm term), the (Digest_Hex term)))"

definition abbreviates :: "string \<Rightarrow> string \<Rightarrow> bool" where
  "abbreviates term d \<longleftrightarrow>
     (fst (termParts term) = [] \<or> Digest_Algorithm d = Some (fst (termParts term))) \<and>
     has_prefix (the (Digest_Hex d)) (snd (termParts term))"

lemma checkShortMatch_iff:
  "checkShortMatch alg hex sa sh \<longleftrightarrow> (sa = [] \<or> alg = sa) \<and> has_prefix hex sh"
  by (auto simp: checkShortMatch_def has_prefix_def)

lemma Set_Lookup_at:
  assumes "es \<noteq> []"
  shows "Set_Lookup term es =
    lookupAt (searchEntry (snd (termParts term)) (fst (termParts term)) es) (fst (termParts term)) (snd (termParts term)) es"
proof (cases "Digest_Validate term = Some ErrDigestInvalidFormat")
  case True
  have "(\<lambda>i. term \<le> entryVal (es ! i)) =
      (\<lambda>i. if entryVal (es ! i) = term then [] \<le> entryAlg (es ! i) else term \<le> entryVal (es ! i))"
    by (auto simp: fun_eq_iff)
  with True assms show ?thesis by (simp add: Set_Lookup_def termParts_def searchEntry_def)
next
  case False
  then obtain a h where "Digest_Algorithm term = Some a" "Digest_Hex term = Some h" by (rule format_parts)
  with False assms show ?thesis by (simp add: Set_Lookup_def termParts_def)
qed

lemma prefix_le: "has_prefix y p \<Longrightarrow> p \<le> y" for p y :: string
  by (induction p arbitrary: y) (auto simp: has_prefix_iff)

lemma prefix_between: "has_prefix y p \<Longrightarrow> p \<le> x \<Longrightarrow> x \<le> y \<Longrightarrow> has_prefix x p" for p x y :: string
proof (induction p arbitrary: x y)
  case (Cons a p)
  then obtain y' where "y = a # y'" "has_prefix y' p" by (cases y) auto
  with Cons show ?case by (cases x) auto
qed simp

lemma lookupAt_list:
  assumes "sorted_wrt (\<lambda>x y. checkShortMatch (entryAlg y) (entryVal y) alg hex \<longrightarrow> checkShortMatch (entryAlg x) (entryVal x) alg hex) vs"
  shows "lookupAt (length us) alg hex (us @ vs) =
    (case filter (\<lambda>e. checkShortMatch (entryAlg e) (entryVal e) alg hex) vs of
       [] \<Rightarrow> ErrDigestNotFound
     | [x] \<Rightarrow> LDigest (entryDigest x)
     | x # _ \<Rightarrow> if entryAlg x = alg \<and> entryVal x = hex then LDigest (entryDigest x) else ErrDigestAmbiguous)"
proof (cases vs)
  case Nil
  then show ?thesis by (simp add: lookupAt_def)
next
  case (Cons x xs)
  let ?m = "\<lambda>e. checkShortMatch (entryAlg e) (entryVal e) alg hex"
  show ?thesis
  proof (cases "?m x")
    case False
    then have "filter ?m vs = []" using assms Cons by (auto simp: filter_empty_conv)
    with False Cons show ?thesis by (simp add: lookupAt_def)
  next
    case True
    have "lookupAt (length us) alg hex (us @ x # xs) =
        (if entryAlg x = alg \<and> entryVal x = hex then LDigest (entryDigest x)
         else if xs \<noteq> [] \<and> ?m (hd xs) then ErrDigestAmbiguous else LDigest (entryDigest x))"
      using True by (cases xs) (simp_all add: lookupAt_def nth_append)
    moreover have "filter ?m xs = [] \<longleftrightarrow> \<not> (xs \<noteq> [] \<and> ?m (hd xs))"
      using assms Cons by (cases xs) (auto simp: filter_empty_conv)
    ultimately show ?thesis using True Cons by (auto split: list.split)
  qed
qed

lemma valid_length:
  assumes "Digest_Validate d = None" and "Digest_Algorithm d = Some a"
  shows "length (the (Digest_Hex d)) = the (Algorithm_Size a) * 2" and "a \<noteq> []"
proof -
  obtain i where i: "indexOf (CHR '':'') d = Some i" "a = take i d" "Digest_Hex d = Some (drop (i + 1) d)"
    using assms(2) by (auto simp: Digest_Algorithm_def Digest_Hex_def split: option.splits)
  obtain n where n: "Algorithm_Size a = Some n" "length (drop (i + 1) d) = n * 2"
    using assms(1) i unfolding Digest_Validate_def by (auto split: if_splits option.splits)
  show "length (the (Digest_Hex d)) = the (Algorithm_Size a) * 2" unfolding i(3) n(1) option.sel by (rule n(2))
  show "a \<noteq> []" using n(1) by (auto simp: Algorithm_Size_def)
qed

text \<open>All digests of one algorithm: the matching entries start where the bisection ends.\<close>

lemma match_not_below:
  assumes "checkShortMatch (entryAlg e) (entryVal e) alg hex"
  shows "\<not> below hex alg e"
  using assms prefix_le [of "entryVal e" hex] by (auto simp: below_def entryKey_def checkShortMatch_iff)

lemma match_downward:
  assumes es: "strictly es" and A: "\<forall>e \<in> set es. entryAlg e = A"
  shows "sorted_wrt (\<lambda>x y. checkShortMatch (entryAlg y) (entryVal y) alg hex \<longrightarrow> checkShortMatch (entryAlg x) (entryVal x) alg hex)
           (filter (\<lambda>e. \<not> below hex alg e) es)"
proof -
  have "sorted_wrt (\<lambda>x y. entryKey x < entryKey y) (filter (\<lambda>e. \<not> below hex alg e) es)"
    using es unfolding strictly_def by (rule sorted_wrt_filter)
  then show ?thesis
    by (rule sorted_wrt_mono_rel [rotated])
      (use A prefix_between [of _ hex] in \<open>auto simp: checkShortMatch_iff below_def entryKey_def not_less\<close>)
qed

lemma lookup_one_algorithm:
  assumes D: "valids D" and A: "\<forall>d |\<in>| D. Digest_Algorithm d = Some A"
  shows "Set_Lookup term (setOf D) =
    (case filter (\<lambda>e. abbreviates term (entryDigest e)) (setOf D) of
       [] \<Rightarrow> ErrDigestNotFound | [e] \<Rightarrow> LDigest (entryDigest e) | _ \<Rightarrow> ErrDigestAmbiguous)"
proof (cases "setOf D = []")
  case True
  then show ?thesis by (simp add: Set_Lookup_def)
next
  case False
  obtain alg hex where tp: "termParts term = (alg, hex)" by fastforce
  let ?es = "setOf D" and ?m = "\<lambda>e. checkShortMatch (entryAlg e) (entryVal e) alg hex"
  note es = setOf_strictly [OF D]
  have eA: "\<forall>e \<in> set ?es. entryAlg e = A" using A by (auto simp: setOf_set)
  have m: "filter (\<lambda>e. abbreviates term (entryDigest e)) ?es = filter ?m ?es"
    using A by (intro filter_cong) (auto simp: setOf_set abbreviates_def checkShortMatch_iff tp)
  have m': "filter ?m ?es = filter ?m (filter (\<lambda>e. \<not> below hex alg e) ?es)"
    using match_not_below by (auto intro!: filter_cong simp: conj_commute)
  have at: "Set_Lookup term ?es = lookupAt (length (filter (below hex alg) ?es)) alg hex
      (filter (below hex alg) ?es @ filter (\<lambda>e. \<not> below hex alg e) ?es)"
    using split_below [OF es, of hex alg] by (simp add: Set_Lookup_at [OF False] tp searchEntry_below [OF es])
  have two: "\<not> (entryAlg x = alg \<and> entryVal x = hex)" if "filter ?m ?es = x # y # r" for x y r
  proof
    assume exact: "entryAlg x = alg \<and> entryVal x = hex"
    have "{x, y} \<subseteq> set (filter ?m ?es)" unfolding that by simp
    then have xy: "x \<in> set ?es" "y \<in> set ?es" "?m y" by auto
    then obtain dx dy where d: "x = entryOf dx" "y = entryOf dy" "dx |\<in>| D" "dy |\<in>| D" by (auto simp: setOf_set)
    then have "length (entryVal x) = length (entryVal y)"
      using valid_length(1) [of _ A] D A by (simp add: valids_def)
    then have "entryVal x = entryVal y" using xy(3) exact by (simp add: checkShortMatch_iff has_prefix_def)
    then have "entryKey x = entryKey y" using eA xy by (simp add: entryKey_def)
    moreover have "sorted_wrt (\<lambda>x y. entryKey x < entryKey y) (x # y # r)"
      using es unfolding strictly_def that [symmetric] by (rule sorted_wrt_filter)
    ultimately show False by simp
  qed
  show ?thesis
    unfolding at m lookupAt_list [OF match_downward [OF es eA]] m' [symmetric]
    using two by (auto split: list.split)
qed


section \<open>Histories of calls\<close>

datatype setCall = AddDigestCall string | RemoveDigestCall string

fun callDigest :: "setCall \<Rightarrow> string" where
  "callDigest (AddDigestCall d) = d"
| "callDigest (RemoveDigestCall d) = d"

definition setAfter :: "setResult \<Rightarrow> digestEntries \<Rightarrow> digestEntries" where
  "setAfter r es = (case r of SOk es' \<Rightarrow> es' | _ \<Rightarrow> es)"

fun set_exec :: "setCall \<Rightarrow> digestEntries \<Rightarrow> digestEntries" where
  "set_exec (AddDigestCall d) es = setAfter (Set_Add d es) es"
| "set_exec (RemoveDigestCall d) es = setAfter (Set_Remove d es) es"

fun spec_set :: "setCall \<Rightarrow> string fset \<Rightarrow> string fset" where
  "spec_set (AddDigestCall d) D = (if Digest_Validate d = None then finsert d D else D)"
| "spec_set (RemoveDigestCall d) D = D |-| {|d|}"

lemma spec_set_eq:
  "valids D \<Longrightarrow> spec_set (AddDigestCall d) D = snd (digestSet_Add d D)"
  "valids D \<Longrightarrow> spec_set (RemoveDigestCall d) D = snd (digestSet_Remove d D)"
  by (auto simp: digestSet_Add_def digestSet_Remove_def valids_def split: option.split)

lemma set_exec_refines: "valids D \<Longrightarrow> set_exec c (setOf D) = setOf (spec_set c D) \<and> valids (spec_set c D)"
proof (cases c)
  case (AddDigestCall d)
  assume D: "valids D"
  with AddDigestCall show ?thesis
    using Set_Add_refines [OF D, of d] by (auto simp: setAfter_def digestSet_Add_def valids_def split: option.splits)
next
  case (RemoveDigestCall d)
  assume D: "valids D"
  have "Digest_Validate d \<noteq> None \<Longrightarrow> D |-| {|d|} = D" using D by (auto simp: valids_def)
  with D RemoveDigestCall show ?thesis
    using Set_Remove_refines [OF D, of d]
    by (auto simp: setAfter_def digestSet_Remove_def valids_def split: option.splits)
qed

lemma set_history: "valids D \<Longrightarrow> fold set_exec cs (setOf D) = setOf (fold spec_set cs D) \<and> valids (fold spec_set cs D)"
  by (induction cs arbitrary: D) (simp_all add: set_exec_refines)

lemma spec_set_sub: "fset (fold spec_set cs D) \<subseteq> fset D \<union> callDigest ` set cs"
proof (induction cs arbitrary: D)
  case (Cons c cs)
  have "fset (spec_set c D) \<subseteq> fset D \<union> {callDigest c}" by (cases c) auto
  with Cons [of "spec_set c D"] show ?case by auto
qed simp

lemma case_length_unique:
  assumes "distinct xs" and "distinct ys" and "set xs = set ys"
  shows "(case xs of [] \<Rightarrow> a | [x] \<Rightarrow> f x | _ \<Rightarrow> b) = (case ys of [] \<Rightarrow> a | [y] \<Rightarrow> f y | _ \<Rightarrow> b)"
proof -
  have "length xs = length ys" using assms by (metis distinct_card)
  then show ?thesis using assms(3) by (cases xs; cases ys) (auto split: list.split)
qed

text \<open>
  C17: Short ids resolve exactly.  After any history of \<open>Add\<close> and \<open>Remove\<close> calls with digests of
  one algorithm, \<open>Lookup\<close> of a term, with or without an algorithm, finds the digest that was
  added and not removed since and that the term abbreviates, if there is exactly one; it
  reports not found if there is none and ambiguous if there are several.
\<close>

theorem short_id_lookup:
  assumes "\<forall>c \<in> set cs. Digest_Algorithm (callDigest c) = Some A"
  shows "Set_Lookup term (fold set_exec cs NewSet) =
    (case sorted_list_of_fset (ffilter (abbreviates term) (fold spec_set cs {||})) of
       [] \<Rightarrow> ErrDigestNotFound | [d] \<Rightarrow> LDigest d | _ \<Rightarrow> ErrDigestAmbiguous)"
proof -
  let ?D = "fold spec_set cs {||}" and ?xs = "filter (\<lambda>e. abbreviates term (entryDigest e)) (setOf (fold spec_set cs {||}))"
  have "setOf {||} = NewSet" "valids {||}" by (simp_all add: setOf_def NewSet_def valids_def sorted_list_of_fset.rep_eq)
  with set_history [of "{||}" cs] have run: "fold set_exec cs NewSet = setOf ?D" and V: "valids ?D" by simp_all
  have A: "\<forall>d |\<in>| ?D. Digest_Algorithm d = Some A" using spec_set_sub [of cs "{||}"] assms by auto
  have "distinct (map entryDigest (setOf ?D))"
    using setOf_strictly [OF V] by (auto simp: strictly_map distinct_map setOf_set inj_on_def)
  then have "distinct (map entryDigest ?xs)" by (rule distinct_map_filter)
  moreover have "set (map entryDigest ?xs) = set (sorted_list_of_fset (ffilter (abbreviates term) ?D))"
    by (force simp: setOf_set sorted_list_of_fset_simps)
  ultimately have "(case map entryDigest ?xs of [] \<Rightarrow> ErrDigestNotFound | [d] \<Rightarrow> LDigest d | _ \<Rightarrow> ErrDigestAmbiguous) =
      (case sorted_list_of_fset (ffilter (abbreviates term) ?D) of [] \<Rightarrow> ErrDigestNotFound | [d] \<Rightarrow> LDigest d | _ \<Rightarrow> ErrDigestAmbiguous)"
    by (intro case_length_unique) (simp_all add: sorted_list_of_fset.rep_eq)
  then show ?thesis
    unfolding run lookup_one_algorithm [OF V A] by (auto split: list.splits)
qed

definition digestA :: string where "digestA = ''sha256:a'' @ replicate 63 CHR ''0''"
definition digestB :: string where "digestB = ''sha256:b'' @ replicate 63 CHR ''0''"

lemma demo_digests:
  "Digest_Validate digestA = None" "Digest_Validate digestB = None"
  "Digest_Validate ''a0'' = Some ErrDigestInvalidFormat"
  "Digest_Algorithm digestA = Some ''sha256''" "Digest_Algorithm digestB = Some ''sha256''"
  "Digest_Hex digestA = Some (''a'' @ replicate 63 CHR ''0'')" "Digest_Hex digestB = Some (''b'' @ replicate 63 CHR ''0'')"
  unfolding digestA_def digestB_def by (code_simp, code_simp, code_simp, simp_all add: Digest_Algorithm_def Digest_Hex_def)

theorem short_id_lookup_witness:
  "Set_Lookup ''a0'' (fold set_exec [AddDigestCall digestA, AddDigestCall digestB] NewSet) = LDigest digestA"
proof -
  have "ffilter (abbreviates ''a0'') (fold spec_set [AddDigestCall digestA, AddDigestCall digestB] {||}) = {|digestA|}"
    by (auto simp: abbreviates_def termParts_def demo_digests numeral_eq_Suc)
  then show ?thesis
    using short_id_lookup [of "[AddDigestCall digestA, AddDigestCall digestB]" "''sha256''" "''a0''"]
    by (simp add: demo_digests sorted_list_of_fset.rep_eq del: fold_simps)
qed

text \<open>
  With digests of several algorithms a term that names one can miss its digest: the bisection
  stops at an entry of another algorithm with a smaller value.
\<close>

lemma lookup_mixed_algorithms:
  "Set_Lookup ''sha512:a'' (fold set_exec [AddDigestCall (''sha256:ab'' @ replicate 62 CHR ''0''), AddDigestCall (''sha512:ac'' @ replicate 126 CHR ''0'')] NewSet)
     = ErrDigestNotFound"
  "abbreviates ''sha512:a'' (''sha512:ac'' @ replicate 126 CHR ''0'')"
  by (code_simp, code_simp)

end
