(* ===== verification/Image_Delete.thy ===== *)
theory Image_Delete
  imports Image_Properties Digest_Set Container_State Container_Store
begin

text \<open>
  Deleting an image: \<^verbatim>\<open>src/daemon/image_delete.go\<close>, with the lookup of images in
  \<^verbatim>\<open>src/daemon/image.go\<close>, the events of \<^verbatim>\<open>src/daemon/events.go\<close> about images and the error of
  \<^verbatim>\<open>src/daemon/errors.go\<close>.  It composes the image store, the tag store, the digest set, the
  containers in memory and, through the image store, the layer store.

  The state of the daemon is a record of these stores and the events logged so far.  The
  outcomes of the file writes of the tag store are a stream in the state.  Of an image's
  configuration the events use the labels, which \<open>lab\<close> reads off its JSON text (\<open>None\<close> if it has
  no \<open>Config\<close>).  The panics that the stores can raise, among them that of an id without a colon,
  are error values that end the call.  The expression
  \<open>return records, daemon.imageDeleteHelper(imgID, &records, ...)\<close> reads \<open>records\<close> after the
  call here, as the compiler does; the language leaves the order open.
\<close>

section \<open>State\<close>

record imgContainer =
  cntID :: string
  cntImageID :: ID
  cntState :: State

record imgEvent =
  evAction :: string
  evActorID :: string
  evAttributes :: "string \<rightharpoonup> string"

record ('l, 'h) imageDaemon =
  dImages :: "('l, 'h) imageStore"
  dRefs :: refStore
  dContainers :: "imgContainer memoryStore"
  dEvents :: "imgEvent list"
  refWrites :: "nat \<Rightarrow> string option"
  refWriteCount :: nat

record imageDeleteConflict =
  confHard :: bool
  confUsed :: bool
  confImgID :: ID
  confMessage :: string

datatype del_error =
    EParse ref_error
  | ErrImageDoesNotExist string
  | ErrRequestNotFound string
  | ErrUsedByContainer string string string
  | EConflict imageDeleteConflict
  | ERef rs_error
  | EImage string
  | ELayer ls_error
  | EPanic string

text \<open>\<open>types.ImageDelete\<close>: the other field is the empty string.\<close>

datatype imageRecord = Untagged string | Deleted string

type_synonym labels = "bytes \<Rightarrow> (string \<rightharpoonup> string) option"

section \<open>Looking images up\<close>

definition State_IsRunning :: "State \<Rightarrow> bool" where
  "State_IsRunning s = Running s"

definition GetImageID ::
    "('l, 'h) imageEnv \<Rightarrow> string \<Rightarrow> ('l, 'h) imageDaemon \<Rightarrow> (del_error + ID) \<times> ('l, 'h) imageDaemon" where
  "GetImageID E refOrID d =
     (case ParseIDOrReference refOrID of
        (_, Some (Inl e)) \<Rightarrow> (Inl (EParse e), d)
      | (i, None) \<Rightarrow>
          (case imageStore_Get E i (dImages d) of
             (Inl FsPanic, s) \<Rightarrow> (Inl (EPanic digestPanic), d\<lparr>dImages := s\<rparr>)
           | (Inl (FsErr _), s) \<Rightarrow> (Inl (ErrImageDoesNotExist refOrID), d\<lparr>dImages := s\<rparr>)
           | (Inr _, s) \<Rightarrow> (Inr i, d\<lparr>dImages := s\<rparr>))
      | (_, Some (Inr ref)) \<Rightarrow>
          (let byID = (case imageStore_Search refOrID (dImages d) of
                         IOk i \<Rightarrow> Inr i
                       | IErr _ \<Rightarrow> Inl (ErrImageDoesNotExist refOrID)
                       | IPanic \<Rightarrow> Inl (EPanic digestPanic))
           in case store_Get ref (dRefs d) of
                Inr i \<Rightarrow> (Inr i, d)
              | Inl _ \<Rightarrow>
                  (case ref of
                     TaggedRef name tag \<Rightarrow>
                       (case imageStore_Search tag (dImages d) of
                          IOk i \<Rightarrow>
                            if \<exists>namedRef \<in> set (store_References i (dRefs d)). Named_Name namedRef = Named_Name ref
                            then (Inr i, d) else (byID, d)
                        | IErr _ \<Rightarrow> (byID, d)
                        | IPanic \<Rightarrow> (Inl (EPanic digestPanic), d))
                   | _ \<Rightarrow> (byID, d))))"

definition GetImage ::
    "('l, 'h) imageEnv \<Rightarrow> string \<Rightarrow> ('l, 'h) imageDaemon \<Rightarrow> (del_error + Image) \<times> ('l, 'h) imageDaemon" where
  "GetImage E refOrID d =
     (case GetImageID E refOrID d of
        (Inl e, d1) \<Rightarrow> (Inl e, d1)
      | (Inr i, d1) \<Rightarrow>
          (case imageStore_Get E i (dImages d1) of
             (Inl FsPanic, s) \<Rightarrow> (Inl (EPanic digestPanic), d1\<lparr>dImages := s\<rparr>)
           | (Inl (FsErr e), s) \<Rightarrow> (Inl (EImage e), d1\<lparr>dImages := s\<rparr>)
           | (Inr img, s) \<Rightarrow> (Inr img, d1\<lparr>dImages := s\<rparr>)))"

text \<open>\<open>LogImageEvent\<close> with no attributes of its own.  The result is the panic of the lookup, if any.\<close>

definition LogImageEvent ::
    "('l, 'h) imageEnv \<Rightarrow> labels \<Rightarrow> ID \<Rightarrow> string \<Rightarrow> string \<Rightarrow> ('l, 'h) imageDaemon \<Rightarrow>
     del_error option \<times> ('l, 'h) imageDaemon" where
  "LogImageEvent E lab imageID refName action d =
     (case GetImage E imageID d of
        (Inl (EPanic m), d1) \<Rightarrow> (Some (EPanic m), d1)
      | (img, d1) \<Rightarrow>
          (let attrs = (case img of
                          Inl _ \<Rightarrow> Map.empty
                        | Inr im \<Rightarrow> (case lab (rawJSON im) of None \<Rightarrow> Map.empty | Some l \<Rightarrow> l));
               attrs' = (if refName \<noteq> [] then attrs(''name'' \<mapsto> refName) else attrs)
           in (None, d1\<lparr>dEvents := dEvents d1 @ [\<lparr>evAction = action, evActorID = imageID, evAttributes = attrs'\<rparr>]\<rparr>)))"

definition imageNotExistToErrcode :: "del_error \<Rightarrow> del_error" where
  "imageNotExistToErrcode err =
     (case err of
        ErrImageDoesNotExist refOrID \<Rightarrow>
          if CHR ''@'' \<in> set refOrID then ErrRequestNotFound (''No such image: '' @ refOrID)
          else (case ParseNamed refOrID of
                  Inl _ \<Rightarrow> ErrRequestNotFound (''No such image: '' @ refOrID @ '':'' @ DefaultTag)
                | Inr ref \<Rightarrow>
                    ErrRequestNotFound (''No such image: '' @ Named_Name ref @ '':'' @
                      (case ref of TaggedRef _ tag \<Rightarrow> tag | _ \<Rightarrow> DefaultTag)))
      | _ \<Rightarrow> err)"


section \<open>Conflicts\<close>

unbundle bit_operations_syntax

definition conflictDependentChild :: int where "conflictDependentChild = 1"
definition conflictRunningContainer :: int where "conflictRunningContainer = 2"
definition conflictActiveReference :: int where "conflictActiveReference = 4"
definition conflictStoppedContainer :: int where "conflictStoppedContainer = 8"
definition conflictHard :: int where "conflictHard = conflictDependentChild OR conflictRunningContainer"
definition conflictSoft :: int where "conflictSoft = conflictActiveReference OR conflictStoppedContainer"

definition getContainerUsingImage :: "ID \<Rightarrow> ('l, 'h) imageDaemon \<Rightarrow> imgContainer option" where
  "getContainerUsingImage imageID d = memoryStore_First (\<lambda>c. cntImageID c = imageID) (dContainers d)"

definition imageIsDangling :: "ID \<Rightarrow> ('l, 'h) imageDaemon \<Rightarrow> bool" where
  "imageIsDangling imgID d \<longleftrightarrow>
     \<not> (0 < length (store_References imgID (dRefs d)) \<or> 0 < fcard (imageStore_Children imgID (dImages d)))"

definition imageDeleteConflict_Error :: "imageDeleteConflict \<Rightarrow> string" where
  "imageDeleteConflict_Error idc =
     ''conflict: unable to delete '' @ TruncateID (confImgID idc) @ '' ('' @
     (if confHard idc then ''cannot be forced'' else ''must be forced'') @ '') - '' @ confMessage idc"

text \<open>The checks in the order of the code; each is skipped when its bit is not in the mask.\<close>

definition checkStopped :: "ID \<Rightarrow> int \<Rightarrow> ('l, 'h) imageDaemon \<Rightarrow> imageDeleteConflict option" where
  "checkStopped imgID cmask d =
     (if cmask AND conflictStoppedContainer \<noteq> 0 then
        (case memoryStore_First (\<lambda>c. \<not> State_IsRunning (cntState c) \<and> cntImageID c = imgID) (dContainers d) of
           Some c \<Rightarrow>
             Some \<lparr>confHard = False, confUsed = True, confImgID = imgID,
                   confMessage = ''image is being used by stopped container '' @ TruncateID (cntID c)\<rparr>
         | None \<Rightarrow> None)
      else None)"

definition checkReference :: "ID \<Rightarrow> int \<Rightarrow> ('l, 'h) imageDaemon \<Rightarrow> imageDeleteConflict option" where
  "checkReference imgID cmask d =
     (if cmask AND conflictActiveReference \<noteq> 0 \<and> 0 < length (store_References imgID (dRefs d)) then
        Some \<lparr>confHard = False, confUsed = False, confImgID = imgID,
              confMessage = ''image is referenced in one or more repositories''\<rparr>
      else checkStopped imgID cmask d)"

definition checkRunning :: "ID \<Rightarrow> int \<Rightarrow> ('l, 'h) imageDaemon \<Rightarrow> imageDeleteConflict option" where
  "checkRunning imgID cmask d =
     (if cmask AND conflictRunningContainer \<noteq> 0 then
        (case memoryStore_First (\<lambda>c. State_IsRunning (cntState c) \<and> cntImageID c = imgID) (dContainers d) of
           Some c \<Rightarrow>
             Some \<lparr>confHard = True, confUsed = True, confImgID = imgID,
                   confMessage = ''image is being used by running container '' @ TruncateID (cntID c)\<rparr>
         | None \<Rightarrow> checkReference imgID cmask d)
      else checkReference imgID cmask d)"

definition checkImageDeleteConflict :: "ID \<Rightarrow> int \<Rightarrow> ('l, 'h) imageDaemon \<Rightarrow> imageDeleteConflict option" where
  "checkImageDeleteConflict imgID cmask d =
     (if cmask AND conflictDependentChild \<noteq> 0 \<and> 0 < fcard (imageStore_Children imgID (dImages d)) then
        Some \<lparr>confHard = True, confUsed = False, confImgID = imgID,
              confMessage = ''image has dependent child images''\<rparr>
      else checkRunning imgID cmask d)"

section \<open>References\<close>

fun singleLoop :: "Named list \<Rightarrow> Named option \<Rightarrow> string fset \<Rightarrow> (Named option \<times> string fset) option" where
  "singleLoop [] singleRef canonicalRefs = Some (singleRef, canonicalRefs)"
| "singleLoop (repoRef # rs) singleRef canonicalRefs =
     (if isCanonical repoRef then singleLoop rs singleRef (finsert (Named_Name repoRef) canonicalRefs)
      else if singleRef = None then singleLoop rs (Some repoRef) canonicalRefs
      else None)"

definition isSingleReference :: "Named list \<Rightarrow> bool" where
  "isSingleReference repoRefs =
     (if length repoRefs \<le> 1 then length repoRefs = 1
      else case singleLoop repoRefs None {||} of
             None \<Rightarrow> False
           | Some (singleRef, canonicalRefs) \<Rightarrow>
               (let r = (case singleRef of None \<Rightarrow> repoRefs ! 0 | Some r \<Rightarrow> r)
                in fcard canonicalRefs = 1 \<and> Named_Name r |\<in>| canonicalRefs))"

definition isImageIDPrefix :: "string \<Rightarrow> string \<Rightarrow> bool" where
  "isImageIDPrefix imageID possiblePrefix =
     (if has_prefix imageID possiblePrefix then True
      else case indexOf (CHR '':'') imageID of
             Some i \<Rightarrow> has_prefix (drop (i + 1) imageID) possiblePrefix
           | None \<Rightarrow> False)"

definition removeImageRef ::
    "Named \<Rightarrow> ('l, 'h) imageDaemon \<Rightarrow> (Named \<times> del_error option) \<times> ('l, 'h) imageDaemon" where
  "removeImageRef ref0 d =
     (let ref = WithDefaultTag ref0
      in case store_Delete (refWrites d (refWriteCount d)) ref (dRefs d) of
           ((_, err), s) \<Rightarrow>
             ((ref, map_option ERef err), d\<lparr>dRefs := s, refWriteCount := refWriteCount d + 1\<rparr>))"

text \<open>The loop that untags a list of references and logs each; it stops at the first error.\<close>

fun untagAll ::
    "('l, 'h) imageEnv \<Rightarrow> labels \<Rightarrow> ID \<Rightarrow> Named list \<Rightarrow> imageRecord list \<Rightarrow> ('l, 'h) imageDaemon \<Rightarrow>
     del_error option \<times> imageRecord list \<times> ('l, 'h) imageDaemon" where
  "untagAll E lab imgID [] records d = (None, records, d)"
| "untagAll E lab imgID (ref # refs) records d =
     (case removeImageRef ref d of
        ((_, Some e), d1) \<Rightarrow> (Some e, records, d1)
      | ((parsedRef, None), d1) \<Rightarrow>
          (case LogImageEvent E lab imgID imgID ''untag'' d1 of
             (Some e, d2) \<Rightarrow> (Some e, records, d2)
           | (None, d2) \<Rightarrow> untagAll E lab imgID refs (records @ [Untagged (Named_String parsedRef)]) d2))"

definition removeAllReferencesToImageID ::
    "('l, 'h) imageEnv \<Rightarrow> labels \<Rightarrow> ID \<Rightarrow> imageRecord list \<Rightarrow> ('l, 'h) imageDaemon \<Rightarrow>
     del_error option \<times> imageRecord list \<times> ('l, 'h) imageDaemon" where
  "removeAllReferencesToImageID E lab imgID records d =
     untagAll E lab imgID (store_References imgID (dRefs d)) records d"

section \<open>Deletion\<close>

definition helperMask :: "bool \<Rightarrow> int" where
  "helperMask force = (if \<not> force then conflictHard OR conflictSoft else conflictHard)"

partial_function (option) imageDeleteHelper ::
    "('l, 'h) imageEnv \<Rightarrow> labels \<Rightarrow> ID \<Rightarrow> bool \<Rightarrow> bool \<Rightarrow> bool \<Rightarrow> imageRecord list \<Rightarrow> ('l, 'h) imageDaemon \<Rightarrow>
     (del_error option \<times> imageRecord list \<times> ('l, 'h) imageDaemon) option" where
  "imageDeleteHelper E lab imgID force prune quiet records d =
     (case checkImageDeleteConflict imgID (helperMask force) d of
        Some conflict \<Rightarrow>
          if quiet \<and> (\<not> imageIsDangling imgID d \<or> confUsed conflict) then Some (None, records, d)
          else Some (Some (EConflict conflict), records, d)
      | None \<Rightarrow>
          (case imageStore_GetParent E imgID (dImages d) of
             (Inl FsPanic, s0) \<Rightarrow> Some (Some (EPanic digestPanic), records, d\<lparr>dImages := s0\<rparr>)
           | (p, s0) \<Rightarrow>
               (let par = (case p of Inl _ \<Rightarrow> [] | Inr q \<Rightarrow> q)
                in case removeAllReferencesToImageID E lab imgID records (d\<lparr>dImages := s0\<rparr>) of
                     (Some e, records1, d1) \<Rightarrow> Some (Some e, records1, d1)
                   | (None, records1, d1) \<Rightarrow>
                       (case imageStore_Delete E imgID (dImages d1) of
                          None \<Rightarrow> None
                        | Some (Inl e, s) \<Rightarrow> Some (Some (EImage e), records1, d1\<lparr>dImages := s\<rparr>)
                        | Some (Inr (Err e), s) \<Rightarrow> Some (Some (ELayer e), records1, d1\<lparr>dImages := s\<rparr>)
                        | Some (Inr (Panic m), s) \<Rightarrow> Some (Some (EPanic m), records1, d1\<lparr>dImages := s\<rparr>)
                        | Some (Inr (Ok removedLayers), s) \<Rightarrow>
                            (case LogImageEvent E lab imgID imgID ''delete'' (d1\<lparr>dImages := s\<rparr>) of
                               (Some e, d2) \<Rightarrow> Some (Some e, records1, d2)
                             | (None, d2) \<Rightarrow>
                                 (let records2 = records1 @ Deleted imgID # map (\<lambda>m. Deleted (MChainID m)) removedLayers
                                  in if \<not> prune \<or> par = [] then Some (None, records2, d2)
                                     else imageDeleteHelper E lab par False True True records2 d2))))))"


text \<open>
  Of a repository whose last tag is gone: the loop that removes its digest references to the
  image.  It returns the references that remain.
\<close>

fun removeDigests ::
    "string \<Rightarrow> Named list \<Rightarrow> Named list \<Rightarrow> imageRecord list \<Rightarrow> ('l, 'h) imageDaemon \<Rightarrow>
     del_error option \<times> Named list \<times> imageRecord list \<times> ('l, 'h) imageDaemon" where
  "removeDigests name [] remainingRefs records d = (None, remainingRefs, records, d)"
| "removeDigests name (repoRef # rs) remainingRefs records d =
     (if isCanonical repoRef \<and> name = Named_Name repoRef then
        (case removeImageRef repoRef d of
           ((_, Some e), d1) \<Rightarrow> (Some e, remainingRefs, records, d1)
         | ((_, None), d1) \<Rightarrow> removeDigests name rs remainingRefs (records @ [Untagged (Named_String repoRef)]) d1)
      else removeDigests name rs (remainingRefs @ [repoRef]) records d)"

definition cleanDigests ::
    "Named \<Rightarrow> Named list \<Rightarrow> imageRecord list \<Rightarrow> ('l, 'h) imageDaemon \<Rightarrow>
     del_error option \<times> Named list \<times> imageRecord list \<times> ('l, 'h) imageDaemon" where
  "cleanDigests parsedRef repoRefs records d =
     (if \<not> isCanonical parsedRef \<and>
         \<not> (\<exists>repoRef \<in> set repoRefs. \<not> isCanonical repoRef \<and> Named_Name parsedRef = Named_Name repoRef)
      then removeDigests (Named_Name parsedRef) repoRefs [] records d
      else (None, repoRefs, records, d))"

text \<open>
  The two ways to name the image.  Each either finishes the call or hands over to
  \<open>imageDeleteHelper\<close>.
\<close>

datatype ('l, 'h) untagResult =
    Finished "imageRecord list" "del_error option" "('l, 'h) imageDaemon"
  | Continue "imageRecord list" bool "('l, 'h) imageDaemon"

definition untagByReference ::
    "('l, 'h) imageEnv \<Rightarrow> labels \<Rightarrow> string \<Rightarrow> bool \<Rightarrow> ID \<Rightarrow> ('l, 'h) imageDaemon \<Rightarrow> ('l, 'h) untagResult" where
  "untagByReference E lab imageRef force imgID d =
     (case (if \<not> force \<and> isSingleReference (store_References imgID (dRefs d))
            then getContainerUsingImage imgID d else None) of
        Some c \<Rightarrow> Finished [] (Some (ErrUsedByContainer imageRef (TruncateID (cntID c)) (TruncateID imgID))) d
      | None \<Rightarrow>
          (case ParseNamed imageRef of
             Inl e \<Rightarrow> Finished [] (Some (EParse e)) d
           | Inr ref \<Rightarrow>
               (case removeImageRef ref d of
                  ((_, Some e), d1) \<Rightarrow> Finished [] (Some e) d1
                | ((parsedRef, None), d1) \<Rightarrow>
                    (case LogImageEvent E lab imgID imgID ''untag'' d1 of
                       (Some e, d2) \<Rightarrow> Finished [] (Some e) d2
                     | (None, d2) \<Rightarrow>
                         (case cleanDigests parsedRef (store_References imgID (dRefs d2))
                                 [Untagged (Named_String parsedRef)] d2 of
                            (Some e, _, records, d3) \<Rightarrow> Finished records (Some e) d3
                          | (None, repoRefs, records, d3) \<Rightarrow>
                              if 0 < length repoRefs then Finished records None d3
                              else Continue records True d3)))))"

definition untagByID ::
    "('l, 'h) imageEnv \<Rightarrow> labels \<Rightarrow> bool \<Rightarrow> ID \<Rightarrow> ('l, 'h) imageDaemon \<Rightarrow> ('l, 'h) untagResult" where
  "untagByID E lab force imgID d =
     (let repoRefs = store_References imgID (dRefs d)
      in if isSingleReference repoRefs then
           (let c = (if \<not> force then conflictHard OR (conflictSoft AND NOT conflictActiveReference) else conflictHard)
            in case checkImageDeleteConflict imgID c d of
                 Some conflict \<Rightarrow> Finished [] (Some (EConflict conflict)) d
               | None \<Rightarrow>
                   (case untagAll E lab imgID repoRefs [] d of
                      (Some e, _, d1) \<Rightarrow> Finished [] (Some e) d1
                    | (None, records, d1) \<Rightarrow> Continue records False d1))
         else Continue [] False d)"

definition ImageDelete ::
    "('l, 'h) imageEnv \<Rightarrow> labels \<Rightarrow> string \<Rightarrow> bool \<Rightarrow> bool \<Rightarrow> ('l, 'h) imageDaemon \<Rightarrow>
     ((imageRecord list \<times> del_error option) \<times> ('l, 'h) imageDaemon) option" where
  "ImageDelete E lab imageRef force prune d =
     (case GetImageID E imageRef d of
        (Inl e, d0) \<Rightarrow> Some (([], Some (imageNotExistToErrcode e)), d0)
      | (Inr imgID, d0) \<Rightarrow>
          (case (if \<not> isImageIDPrefix imgID imageRef then untagByReference E lab imageRef force imgID d0
                 else untagByID E lab force imgID d0) of
             Finished records e d1 \<Rightarrow> Some ((records, e), d1)
           | Continue records removedRepositoryRef d1 \<Rightarrow>
               (case imageDeleteHelper E lab imgID force prune removedRepositoryRef records d1 of
                  None \<Rightarrow> None
                | Some (e, records', d2) \<Rightarrow> Some ((records', e), d2))))"


section \<open>Frames\<close>

definition same_daemon :: "('l, 'h) imageDaemon \<Rightarrow> ('l, 'h) imageDaemon \<Rightarrow> bool" where
  "same_daemon d d' \<longleftrightarrow>
     same_store (dImages d) (dImages d') \<and> dRefs d' = dRefs d \<and> dContainers d' = dContainers d \<and>
     refWrites d' = refWrites d"

definition dinv :: "('l, 'h) imageEnv \<Rightarrow> ('l, 'h) imageDaemon \<Rightarrow> bool" where
  "dinv E d \<longleftrightarrow> is_inv E (dImages d) \<and> rs_inv (dRefs d)"

lemma same_daemon_refl [simp]: "same_daemon d d"
  by (simp add: same_daemon_def)

lemma same_daemon_trans: "same_daemon d d1 \<Longrightarrow> same_daemon d1 d2 \<Longrightarrow> same_daemon d d2"
  unfolding same_daemon_def by (metis same_store_trans)

lemma same_daemon_inv: "same_daemon d d' \<Longrightarrow> dinv E d \<Longrightarrow> dinv E d'"
  unfolding same_daemon_def dinv_def by (metis same_store_inv)

lemma Get_same_daemon: "imageStore_Get E i (dImages d) = (x, s) \<Longrightarrow> same_daemon d (d\<lparr>dImages := s\<rparr>)"
  using Get_same [of "dImages d" E i] by (simp add: same_daemon_def)

lemma GetImageID_same:
  assumes "GetImageID E r d = (x, d')"
  shows "same_daemon d d'"
proof -
  obtain i y where p: "ParseIDOrReference r = (i, y)" by fastforce
  show ?thesis
  proof (cases y)
    case None
    obtain z s where g: "imageStore_Get E i (dImages d) = (z, s)" by fastforce
    have "d' = d\<lparr>dImages := s\<rparr>" using assms by (auto simp: GetImageID_def p None g split: sum.splits fs_error.splits)
    then show ?thesis using Get_same_daemon [OF g] by simp
  next
    case (Some z)
    have "d' = d" using assms
      by (auto simp: GetImageID_def p Some Let_def split: sum.splits Named.splits imageResult.splits if_splits)
    then show ?thesis by simp
  qed
qed

lemma GetImage_same:
  assumes "GetImage E r d = (x, d')"
  shows "same_daemon d d'"
proof -
  obtain y d1 where g: "GetImageID E r d = (y, d1)" by fastforce
  note one = GetImageID_same [OF g]
  show ?thesis
  proof (cases y)
    case (Inl e)
    with assms one show ?thesis by (simp add: GetImage_def g)
  next
    case (Inr i)
    obtain z s where s: "imageStore_Get E i (dImages d1) = (z, s)" by fastforce
    have "d' = d1\<lparr>dImages := s\<rparr>" using assms by (auto simp: GetImage_def g Inr s split: sum.splits fs_error.splits)
    then show ?thesis using same_daemon_trans [OF one Get_same_daemon [OF s]] by simp
  qed
qed

lemma LogImageEvent_same:
  assumes "LogImageEvent E lab i n a d = (e, d')"
  shows "same_daemon d d'"
proof -
  obtain y d1 where g: "GetImage E i d = (y, d1)" by fastforce
  have "\<exists>ev. d' = d1 \<or> d' = d1\<lparr>dEvents := ev\<rparr>"
    using assms by (auto simp: LogImageEvent_def g Let_def split: sum.splits del_error.splits)
  with GetImage_same [OF g] show ?thesis by (auto simp: same_daemon_def)
qed

lemma lang_Plus_oneOf: "s \<in> lang (Plus (oneOf S)) \<longleftrightarrow> s \<noteq> [] \<and> list_all (\<lambda>c. c \<in> set S) s"
  unfolding Plus_def oneOf_def lang_Seq_Cls by (cases s) (auto simp: star_lang_Cls)

lemma ValidateID_digest:
  assumes "ValidateID x"
  shows "Digest_Validate (''sha256:'' @ x) = None"
proof -
  have sub: "set ''abcdef0123456789'' \<subseteq> set hexdigits" by (simp add: hexdigits_def)
  have x: "length x = 64" "list_all (\<lambda>c. c \<in> set ''abcdef0123456789'') x" using assms unfolding ValidateID_def by blast+
  have "x \<noteq> []" using x(1) by fastforce
  moreover have "list_all (\<lambda>c. c \<in> set hexdigits) x" by (rule list.pred_mono_strong [OF x(2)]) (use sub in blast)
  ultimately have x: "length x = 64" "list_all (\<lambda>c. c \<in> set hexdigits) x" "x \<noteq> []" using x(1) by blast+
  have "x \<in> lang (Plus (oneOf hexdigits))"
    using x by (simp add: lang_Plus_oneOf)
  moreover have "''sha256'' \<in> lang (Plus (oneOf (lower @ upper @ digits @ ''-_+.'')))"
    by (simp add: lang_Plus_oneOf lower_def digits_def)
  moreover have "''sha256:'' @ x = ''sha256'' @ [CHR '':''] @ x" by simp
  ultimately have re: "re_match DigestRegexpAnchored (''sha256:'' @ x)"
    unfolding re_match_lang DigestRegexpAnchored_def lang.simps lang_Chr by blast
  have "indexOf (CHR '':'') (''sha256:'' @ x) = Some 6" by simp
  then show ?thesis using re x(1) by (simp add: Digest_Validate_def Algorithm_Size_def del: indexOf.simps)
qed


section \<open>Untagging\<close>

definition refsTo :: "('l, 'h) imageDaemon \<Rightarrow> ID \<Rightarrow> Named set" where
  "refsTo d i = {r. proper r \<and> tags (dRefs d) r = Some i}"

text \<open>Only references to the image \<open>i\<close> are gone, and nothing else has changed.\<close>

definition untagged_only :: "ID \<Rightarrow> ('l, 'h) imageDaemon \<Rightarrow> ('l, 'h) imageDaemon \<Rightarrow> bool" where
  "untagged_only i d d' \<longleftrightarrow>
     same_store (dImages d) (dImages d') \<and> dContainers d' = dContainers d \<and> refWrites d' = refWrites d \<and>
     rs_inv (dRefs d') \<and>
     (\<forall>r. proper r \<longrightarrow> tags (dRefs d') r = tags (dRefs d) r \<or> tags (dRefs d) r = Some i \<and> tags (dRefs d') r = None)"

lemma untagged_only_same: "same_daemon d d' \<Longrightarrow> rs_inv (dRefs d) \<Longrightarrow> untagged_only i d d'"
  by (simp add: same_daemon_def untagged_only_def)

lemma untagged_only_trans:
  assumes "untagged_only i d d1" and "untagged_only i d1 d2"
  shows "untagged_only i d d2"
  using assms same_store_trans [of "dImages d" "dImages d1" "dImages d2"] unfolding untagged_only_def by metis

lemma untagged_only_inv:
  assumes "untagged_only i d d'"
  shows "same_store (dImages d) (dImages d')" and "rs_inv (dRefs d')" and "dinv E d \<Longrightarrow> dinv E d'"
    and "proper r \<Longrightarrow> tags (dRefs d') r = None \<or> tags (dRefs d') r = tags (dRefs d) r"
    and "refsTo d' j \<subseteq> refsTo d j" and "j \<noteq> i \<Longrightarrow> refsTo d' j = refsTo d j"
  using assms unfolding untagged_only_def dinv_def
  by (blast, blast, metis same_store_inv, metis, auto simp: refsTo_def)

lemma WithDefaultTag_proper: "proper r \<Longrightarrow> WithDefaultTag r = r"
  by (simp add: proper_def WithDefaultTag_def)

lemma removeImageRef_tags:
  assumes inv: "rs_inv (dRefs d)" and r: "proper (WithDefaultTag r)" and run: "removeImageRef r d = ((ref, e), d')"
  shows "rs_inv (dRefs d')"
    and "proper q \<Longrightarrow> tags (dRefs d') q = (if q = WithDefaultTag r then None else tags (dRefs d) q)"
proof -
  let ?r = "WithDefaultTag r" and ?w = "refWrites d (refWriteCount d)"
  have d': "dRefs d' = snd (store_Delete ?w ?r (dRefs d))"
    using run by (auto simp: removeImageRef_def Let_def split: prod.splits)
  have "refines (dRefs d) (tags (dRefs d))" using inv by (simp add: refines_def)
  from Delete_refines [OF this, of ?r ?w] r
  have "refines (dRefs d') ((tags (dRefs d))(?r := None))" by (simp add: d' WithDefaultTag_proper [OF r])
  then show "rs_inv (dRefs d')" "proper q \<Longrightarrow> tags (dRefs d') q = (if q = ?r then None else tags (dRefs d) q)"
    by (auto simp: refines_def)
qed

lemma removeImageRef_missing:
  assumes "proper (WithDefaultTag r)" and "tags (dRefs d) (WithDefaultTag r) = None"
  shows "snd (fst (removeImageRef r d)) = Some (ERef ErrDoesNotExist)"
  using assms by (simp add: removeImageRef_def Delete_eq WithDefaultTag_proper Let_def)

text \<open>\<open>isSingleReference\<close> says what its comment promises: one repository, at most one tag.\<close>

lemma singleLoop_spec:
  "singleLoop rs x C =
     (if length (filter (\<lambda>r. \<not> isCanonical r) rs) + (if x = None then 0 else 1) \<le> 1
      then Some (case filter (\<lambda>r. \<not> isCanonical r) rs of [] \<Rightarrow> x | r # _ \<Rightarrow> Some r,
                 C |\<union>| fset_of_list (map Named_Name (filter isCanonical rs)))
      else None)"
  by (induction rs x C rule: singleLoop.induct) (auto split: list.splits)

lemma image_one:
  assumes "S \<noteq> {}"
  shows "(\<exists>n. f ` S = {n}) \<and> f r \<in> f ` S \<longleftrightarrow> (\<forall>x \<in> insert r S. \<forall>y \<in> insert r S. f x = f y)"
proof
  assume l: "(\<exists>n. f ` S = {n}) \<and> f r \<in> f ` S"
  then obtain n where "f ` S = {n}" "f r = n" by blast
  then have "\<forall>x \<in> insert r S. f x = n" by blast
  then show "\<forall>x \<in> insert r S. \<forall>y \<in> insert r S. f x = f y" by simp
next
  assume r: "\<forall>x \<in> insert r S. \<forall>y \<in> insert r S. f x = f y"
  then have "f ` S = {f r}" using assms by blast
  then show "(\<exists>n. f ` S = {n}) \<and> f r \<in> f ` S" by simp
qed

lemma isSingleReference_iff:
  "isSingleReference rs \<longleftrightarrow>
     rs \<noteq> [] \<and> length (filter (\<lambda>r. \<not> isCanonical r) rs) \<le> 1 \<and> (\<forall>r \<in> set rs. \<forall>q \<in> set rs. Named_Name r = Named_Name q)"
proof (cases "length rs \<le> 1")
  case True
  then show ?thesis by (cases rs) (auto simp: isSingleReference_def)
next
  case False
  let ?t = "filter (\<lambda>r. \<not> isCanonical r) rs" and ?C = "fset_of_list (map Named_Name (filter isCanonical rs))"
  have ne: "rs \<noteq> []" using False by auto
  show ?thesis
  proof (cases "length ?t \<le> 1")
    case True
    have card: "fcard ?C = 1 \<longleftrightarrow> (\<exists>n. Named_Name ` {r \<in> set rs. isCanonical r} = {n})"
      by (simp add: fcard.rep_eq fset_of_list.rep_eq card_1_singleton_iff Int_def conj_commute)
    have inC: "n |\<in>| ?C \<longleftrightarrow> n \<in> Named_Name ` {r \<in> set rs. isCanonical r}" for n by (auto simp: fset_of_list.rep_eq)
    have single: "isSingleReference rs \<longleftrightarrow> fcard ?C = 1 \<and> Named_Name (case ?t of [] \<Rightarrow> rs ! 0 | r # _ \<Rightarrow> r) |\<in>| ?C"
      using False True unfolding isSingleReference_def singleLoop_spec by (auto split: list.splits)
    from True consider "?t = []" | r where "?t = [r]" by (cases ?t; cases "tl ?t") auto
    then show ?thesis
    proof cases
      case 1
      then have "{r \<in> set rs. isCanonical r} = set rs" by (auto simp: filter_empty_conv)
      moreover have "insert (rs ! 0) (set rs) = set rs" using ne by (auto simp: insert_absorb)
      ultimately show ?thesis
        using ne 1 image_one [of "set rs" Named_Name "rs ! 0"] unfolding single card inC by simp
    next
      case (2 r)
      have "{q \<in> set rs. \<not> isCanonical q} = {r}" using arg_cong [OF 2, of set] by simp
      then have rs: "set rs = insert r {q \<in> set rs. isCanonical q}" by blast
      have "filter isCanonical rs \<noteq> []" using 2 False sum_length_filter_compl [of isCanonical rs] by auto
      then have "{q \<in> set rs. isCanonical q} \<noteq> {}" by (auto simp: filter_empty_conv)
      from image_one [OF this, of Named_Name r] show ?thesis
        using ne 2 unfolding single card inC by (simp flip: rs)
    qed
  qed (use False ne in \<open>simp add: isSingleReference_def singleLoop_spec\<close>)
qed

lemma removeImageRef_only:
  assumes inv: "rs_inv (dRefs d)" and r: "proper (WithDefaultTag r)"
    and i: "tags (dRefs d) (WithDefaultTag r) = None \<or> tags (dRefs d) (WithDefaultTag r) = Some i"
    and run: "removeImageRef r d = ((ref, e), d')"
  shows "untagged_only i d d'" and "ref = WithDefaultTag r" and "tags (dRefs d') (WithDefaultTag r) = None"
    and "dImages d' = dImages d" and "refWrites d' = refWrites d"
    and "tags (dRefs d) (WithDefaultTag r) = Some i \<Longrightarrow> refWrites d (refWriteCount d) = None \<Longrightarrow> e = None"
proof -
  let ?r = "WithDefaultTag r" and ?w = "refWrites d (refWriteCount d)"
  note rr = WithDefaultTag_proper [OF r]
  show "ref = WithDefaultTag r" "dImages d' = dImages d" "refWrites d' = refWrites d"
    using run by (auto simp: removeImageRef_def Let_def split: prod.splits)
  have d': "dContainers d' = dContainers d" and e: "e = map_option ERef (snd (fst (store_Delete ?w ?r (dRefs d))))"
    using run by (auto simp: removeImageRef_def Let_def split: prod.splits)
  note t = removeImageRef_tags [OF inv r run]
  show "untagged_only i d d'"
    unfolding untagged_only_def using t i d' \<open>dImages d' = dImages d\<close> \<open>refWrites d' = refWrites d\<close> by auto
  show "tags (dRefs d') ?r = None" using t(2) [OF r] by simp
  show "e = None" if "tags (dRefs d) ?r = Some i" "?w = None"
    using that by (simp add: e Delete_eq rr store_save_def Let_def)
qed

lemma untagAll_only:
  assumes "rs_inv (dRefs d)"
    and "\<forall>r \<in> set refs. proper r \<and> (tags (dRefs d) r = None \<or> tags (dRefs d) r = Some i)"
    and "untagAll E lab i refs records d = (e, records', d')"
  shows "untagged_only i d d'" and "e = None \<Longrightarrow> r \<in> set refs \<Longrightarrow> tags (dRefs d') r = None"
    and "\<exists>more. records' = records @ more"
proof -
  have "untagged_only i d d' \<and> (e = None \<longrightarrow> (\<forall>r \<in> set refs. tags (dRefs d') r = None)) \<and> (\<exists>more. records' = records @ more)"
    using assms
  proof (induction refs arbitrary: records d)
    case Nil
    then show ?case by (auto intro!: untagged_only_same)
  next
    case (Cons r refs)
    have r: "proper r" "WithDefaultTag r = r" using Cons.prems(2) WithDefaultTag_proper by auto
    obtain ref x d1 where run: "removeImageRef r d = ((ref, x), d1)" by (metis prod.exhaust)
    have one: "untagged_only i d d1" "tags (dRefs d1) r = None"
      using removeImageRef_only [OF Cons.prems(1) _ _ run, of i] r Cons.prems(2) by simp_all
    show ?case
    proof (cases x)
      case (Some a)
      with Cons.prems(3) run one show ?thesis by auto
    next
      case None
      obtain y d2 where log: "LogImageEvent E lab i i ''untag'' d1 = (y, d2)" by (rule prod.exhaust)
      note u1 = untagged_only_inv [OF one(1)]
      have same: "same_daemon d1 d2" by (rule LogImageEvent_same [OF log])
      have two: "untagged_only i d d2" by (rule untagged_only_trans [OF one(1) untagged_only_same [OF same u1(2)]])
      note u2 = untagged_only_inv [OF two]
      show ?thesis
      proof (cases y)
        case (Some a)
        with Cons.prems(3) run None log two show ?thesis by auto
      next
        case y: None
        have still: "\<forall>q \<in> set refs. proper q \<and> (tags (dRefs d2) q = None \<or> tags (dRefs d2) q = Some i)"
          using Cons.prems(2) u2(4) by fastforce
        have run2: "untagAll E lab i refs (records @ [Untagged (Named_String ref)]) d2 = (e, records', d')"
          using Cons.prems(3) run None log y by simp
        note ih = Cons.IH [OF u2(2) still run2]
        have "tags (dRefs d2) r = None" using one(2) same by (simp add: same_daemon_def)
        with ih have "tags (dRefs d') r = None" using untagged_only_inv(4) [OF _ r(1), of i d2 d'] by force
        with ih two untagged_only_trans show ?thesis by force
      qed
    qed
  qed
  then show "untagged_only i d d'" "e = None \<Longrightarrow> r \<in> set refs \<Longrightarrow> tags (dRefs d') r = None"
    "\<exists>more. records' = records @ more" by blast+
qed

text \<open>With working writes of the tag file only a panic of the event log ends the loop early.\<close>

lemma untagAll_succeeds:
  assumes "rs_inv (dRefs d)" and "distinct refs" and "set refs \<subseteq> refsTo d i"
    and "\<forall>n. refWrites d n = None" and "\<And>d1. untagged_only i d d1 \<Longrightarrow> fst (LogImageEvent E lab i i ''untag'' d1) = None"
  shows "fst (untagAll E lab i refs records d) = None"
  using assms
proof (induction refs arbitrary: records d)
  case (Cons r refs)
  have r: "proper r" "tags (dRefs d) r = Some i" "WithDefaultTag r = r"
    using Cons.prems(3) WithDefaultTag_proper by (auto simp: refsTo_def)
  obtain ref x d1 where run: "removeImageRef r d = ((ref, x), d1)" by (metis prod.exhaust)
  have wf: "proper (WithDefaultTag r)" "tags (dRefs d) (WithDefaultTag r) = None \<or> tags (dRefs d) (WithDefaultTag r) = Some i"
    using r by simp_all
  note one = removeImageRef_only [OF Cons.prems(1) wf run]
  have x: "x = None" using one(6) r Cons.prems(4) by simp
  obtain d2 where log: "LogImageEvent E lab i i ''untag'' d1 = (None, d2)" using Cons.prems(5) [OF one(1)] by (metis prod.collapse)
  note u1 = untagged_only_inv [OF one(1)]
  have same: "same_daemon d1 d2" by (rule LogImageEvent_same [OF log])
  have two: "untagged_only i d d2" by (rule untagged_only_trans [OF one(1) untagged_only_same [OF same u1(2)]])
  have "set refs \<subseteq> refsTo d2 i"
  proof
    fix q assume q: "q \<in> set refs"
    then have "q \<noteq> r" "proper q" "tags (dRefs d) q = Some i" using Cons.prems(2,3) by (auto simp: refsTo_def)
    moreover have "tags (dRefs d1) q = tags (dRefs d) q" if "q \<noteq> r" "proper q"
      using removeImageRef_tags(2) [OF Cons.prems(1) wf(1) run] that r(3) by simp
    ultimately show "q \<in> refsTo d2 i" using same by (simp add: refsTo_def same_daemon_def)
  qed
  then have "fst (untagAll E lab i refs (records @ [Untagged (Named_String ref)]) d2) = None"
    using Cons.prems(2,4) same u1(2) one(5) Cons.prems(5) untagged_only_trans [OF two]
    by (intro Cons.IH) (simp_all add: same_daemon_def)
  then show ?case using run x log by simp
qed simp

lemma References_refsTo: "rs_inv (dRefs d) \<Longrightarrow> set (store_References i (dRefs d)) = refsTo d i"
  by (simp add: References_spec refsTo_def)

lemma removeAllReferences_only:
  assumes "rs_inv (dRefs d)"
    and run: "removeAllReferencesToImageID E lab i records d = (e, records', d')"
  shows "untagged_only i d d'" and "e = None \<Longrightarrow> refsTo d' i = {}" and "\<exists>more. records' = records @ more"
    and "refsTo d i = {} \<Longrightarrow> e = None \<and> d' = d \<and> records' = records"
proof -
  let ?refs = "store_References i (dRefs d)"
  have refs: "set ?refs = refsTo d i" by (rule References_refsTo [OF assms(1)])
  have tagsOk: "\<forall>r \<in> set ?refs. proper r \<and> (tags (dRefs d) r = None \<or> tags (dRefs d) r = Some i)"
    unfolding refs by (simp add: refsTo_def)
  note u = untagAll_only [OF assms(1) tagsOk run [unfolded removeAllReferencesToImageID_def]]
  show "untagged_only i d d'" "\<exists>more. records' = records @ more" by (rule u)+
  show "refsTo d' i = {}" if "e = None"
    using u(2) [OF that] untagged_only_inv(5) [OF u(1), of i] unfolding refs by (auto simp: refsTo_def)
  show "e = None \<and> d' = d \<and> records' = records" if "refsTo d i = {}"
    using that refs run by (simp add: removeAllReferencesToImageID_def)
qed

lemma removeAll_succeeds:
  assumes "rs_inv (dRefs d)" and "\<forall>n. refWrites d n = None"
    and "\<And>d1. untagged_only i d d1 \<Longrightarrow> fst (LogImageEvent E lab i i ''untag'' d1) = None"
  shows "fst (removeAllReferencesToImageID E lab i records d) = None"
  unfolding removeAllReferencesToImageID_def
  by (rule untagAll_succeeds [OF assms(1) References_spec(2) [OF assms(1)] _ assms(2)])
    (use References_refsTo [OF assms(1)] assms(3) in simp_all)

section \<open>Conflicts\<close>

definition runningOn :: "('l, 'h) imageDaemon \<Rightarrow> ID \<Rightarrow> bool" where
  "runningOn d i \<longleftrightarrow> (\<exists>k c. memoryStore_Get k (dContainers d) = Some c \<and> cntImageID c = i \<and> Running (cntState c))"

definition usedBy :: "('l, 'h) imageDaemon \<Rightarrow> ID \<Rightarrow> bool" where
  "usedBy d i \<longleftrightarrow> (\<exists>k c. memoryStore_Get k (dContainers d) = Some c \<and> cntImageID c = i)"

lemmas conflict_defs = conflictDependentChild_def conflictRunningContainer_def conflictActiveReference_def
  conflictStoppedContainer_def conflictHard_def conflictSoft_def

lemma conflict_masks:
  "conflictHard = 3" "conflictHard OR conflictSoft = 15" "conflictHard OR (conflictSoft AND NOT conflictActiveReference) = 11"
  by (simp_all add: conflict_defs)

lemma helperMask_eq: "helperMask force = (if force then 3 else 15)"
  using conflict_masks(1,2) by (simp add: helperMask_def)

lemma getContainer_None: "getContainerUsingImage i d = None \<longleftrightarrow> \<not> usedBy d i"
  by (auto simp: getContainerUsingImage_def First_None usedBy_def)

lemma fcard_pos: "0 < fcard S \<longleftrightarrow> S \<noteq> {||}"
  by (auto simp: fcard.rep_eq card_gt_0_iff)

lemma first_None: "(case x of None \<Rightarrow> y | Some c \<Rightarrow> Some (f c)) = None \<longleftrightarrow> x = None \<and> y = None"
  by (simp split: option.split)

lemma check_None:
  "checkImageDeleteConflict i 3 d = None \<longleftrightarrow> imageStore_Children i (dImages d) = {||} \<and> \<not> runningOn d i"
  "checkImageDeleteConflict i 11 d = None \<longleftrightarrow> imageStore_Children i (dImages d) = {||} \<and> \<not> usedBy d i"
  "checkImageDeleteConflict i 15 d = None \<longleftrightarrow>
     imageStore_Children i (dImages d) = {||} \<and> \<not> usedBy d i \<and> store_References i (dRefs d) = []"
  unfolding checkImageDeleteConflict_def checkRunning_def checkReference_def checkStopped_def conflict_defs
  by (auto simp: first_None First_None runningOn_def usedBy_def State_IsRunning_def fcard_pos)

lemma check_used:
  assumes "checkImageDeleteConflict i m d = Some c" and "\<not> confUsed c"
  shows "\<not> imageIsDangling i d"
  using assms unfolding checkImageDeleteConflict_def checkRunning_def checkReference_def checkStopped_def imageIsDangling_def
  by (auto simp: fcard_pos split: if_splits option.splits)

text \<open>
  A quiet call reports no conflict at all: an image with a conflict is either used by a
  container or has a reference or a child, so it is not dangling.
\<close>

lemma quiet_no_conflict:
  assumes "checkImageDeleteConflict i (helperMask force) d = Some c"
  shows "imageDeleteHelper E lab i force prune True records d = Some (None, records, d)"
  using assms check_used [OF assms] by (subst imageDeleteHelper.simps) auto


section \<open>What a deletion may do\<close>

definition gone :: "('l, 'h) imageDaemon \<Rightarrow> ('l, 'h) imageDaemon \<Rightarrow> ID set" where
  "gone d d' = {i. known (dImages d) i \<and> \<not> known (dImages d') i}"

definition del_ok :: "('l, 'h) imageEnv \<Rightarrow> ID \<Rightarrow> bool \<Rightarrow> ('l, 'h) imageDaemon \<Rightarrow> ('l, 'h) imageDaemon \<Rightarrow> bool" where
  "del_ok E req force d d' \<longleftrightarrow>
     dinv E d' \<and> dContainers d' = dContainers d \<and>
     (\<forall>i. known (dImages d') i \<longrightarrow> known (dImages d) i \<and> parentFile (dImages d') i = parentFile (dImages d) i) \<and>
     (\<forall>i \<in> gone d d'. \<not> runningOn d i \<and> refsTo d' i = {} \<and> (usedBy d i \<or> refsTo d i \<noteq> {} \<longrightarrow> force \<and> i = req)) \<and>
     (\<forall>r. proper r \<longrightarrow> tags (dRefs d') r = tags (dRefs d) r \<or>
        force \<and> tags (dRefs d) r = Some req \<and> tags (dRefs d') r = None)"

lemma uses_cong: "dContainers d' = dContainers d \<Longrightarrow> runningOn d' = runningOn d \<and> usedBy d' = usedBy d"
  by (simp add: runningOn_def usedBy_def fun_eq_iff)

lemma del_okD:
  assumes "del_ok E req force d d'"
  shows "dinv E d'" "dContainers d' = dContainers d"
    "known (dImages d') i \<Longrightarrow> known (dImages d) i \<and> parentFile (dImages d') i = parentFile (dImages d) i"
    "i \<in> gone d d' \<Longrightarrow> \<not> runningOn d i" "i \<in> gone d d' \<Longrightarrow> refsTo d' i = {}"
    "i \<in> gone d d' \<Longrightarrow> usedBy d i \<or> refsTo d i \<noteq> {} \<Longrightarrow> force \<and> i = req"
    "proper r \<Longrightarrow> tags (dRefs d') r = tags (dRefs d) r \<or> force \<and> tags (dRefs d) r = Some req \<and> tags (dRefs d') r = None"
  using assms unfolding del_ok_def by blast+

lemma del_ok_refs:
  assumes "del_ok E req force d d'"
  shows "refsTo d' j \<subseteq> refsTo d j" and "\<not> force \<or> j \<noteq> req \<Longrightarrow> refsTo d' j = refsTo d j"
  using del_okD(7) [OF assms] by (fastforce simp: refsTo_def)+

lemma gone_split:
  assumes "\<And>i. known (dImages d2) i \<Longrightarrow> known (dImages d1) i" "\<And>i. known (dImages d1) i \<Longrightarrow> known (dImages d) i"
  shows "gone d d2 = gone d d1 \<union> gone d1 d2"
  using assms by (auto simp: gone_def)

lemma del_ok_trans:
  assumes 1: "del_ok E i force d d1" and 2: "del_ok E p False d1 d2"
  shows "del_ok E i force d d2" and "gone d d2 = gone d d1 \<union> gone d1 d2"
proof -
  show gone: "gone d d2 = gone d d1 \<union> gone d1 d2" using del_okD(3) [OF 1] del_okD(3) [OF 2] by (intro gone_split) blast+
  have same: "refsTo d2 j = refsTo d1 j" for j by (rule del_ok_refs(2) [OF 2]) simp
  have uses: "runningOn d1 = runningOn d" "usedBy d1 = usedBy d" using uses_cong [OF del_okD(2) [OF 1]] by blast+
  have "\<not> runningOn d j \<and> refsTo d2 j = {} \<and> (usedBy d j \<or> refsTo d j \<noteq> {} \<longrightarrow> force \<and> j = i)" if "j \<in> gone d d2" for j
  proof (cases "j \<in> gone d d1")
    case True
    then show ?thesis using del_okD(4-6) [OF 1 True] same by blast
  next
    case False
    with that gone have j: "j \<in> gone d1 d2" by blast
    have none: "\<not> runningOn d j" "\<not> usedBy d j" "refsTo d1 j = {}" using del_okD(4,6) [OF 2 j] uses by auto
    then show ?thesis using del_ok_refs(2) [OF 1, of j] same by blast
  qed
  moreover have "tags (dRefs d2) r = tags (dRefs d) r \<or> force \<and> tags (dRefs d) r = Some i \<and> tags (dRefs d2) r = None" if "proper r" for r
    using del_okD(7) [OF 1 that] del_okD(7) [OF 2 that] by auto
  moreover have "dContainers d2 = dContainers d" using del_okD(2) [OF 1] del_okD(2) [OF 2] by simp
  ultimately show "del_ok E i force d d2"
    using del_okD(1,3) [OF 2] del_okD(3) [OF 1] unfolding del_ok_def by metis
qed

lemma same_daemon_ok: "same_daemon d d' \<Longrightarrow> dinv E d \<Longrightarrow> del_ok E i force d d' \<and> gone d d' = {}"
  using same_daemon_inv [of d d' E] same_store_sel [of "dImages d" "dImages d'"]
  unfolding del_ok_def gone_def same_daemon_def by auto

lemma del_ok_same: "del_ok E i force d d1 \<Longrightarrow> same_daemon d1 d2 \<Longrightarrow> del_ok E i force d d2 \<and> gone d d2 = gone d d1"
  using del_ok_trans [of E i force d d1 undefined d2] same_daemon_ok [of d1 d2 E undefined False] del_okD(1) [of E i force d d1]
  by simp

text \<open>Deleting an image without children.\<close>

lemma Delete_leaf:
  assumes inv: "is_inv E s" and leaf: "imageStore_Children i s = {||}" and run: "imageStore_Delete E i s = Some (r, s')"
  shows "is_inv E s'" and "known s' c \<longleftrightarrow> known s c \<and> c \<noteq> i"
    and "known s' c \<Longrightarrow> parentFile s' c = parentFile s c" and "r = Inr x \<Longrightarrow> known s i"
proof -
  show "is_inv E s'" by (rule image_Delete_inv [OF inv run])
  show "known s i" if "r = Inr x" using run that by (auto simp: imageStore_Delete_def known_iff split: option.splits)
  have "(known s' c \<longleftrightarrow> known s c \<and> c \<noteq> i) \<and> (known s' c \<longrightarrow> parentFile s' c = parentFile s c)"
  proof (cases "fmlookup (images s) i")
    case None
    with run show ?thesis by (auto simp: imageStore_Delete_def known_iff)
  next
    case (Some m)
    have s': "known s' = known (forget E i m s)" "parentFile s' = parentFile (forget E i m s)"
      using run unfolding Delete_forget [OF is_invD(2) [OF inv] Some] by (auto simp: known_def parentFile_def fun_eq_iff split: option.splits)
    have "metaChildren m = {||}" using leaf Some by (simp add: imageStore_Children_def imageStore_children_def)
    then have "known s c \<Longrightarrow> parentFile s c \<noteq> Some i" using is_invD(7) [OF inv Some, of c] by auto
    then show ?thesis using forget_inv(2) [OF inv Some, of c] forget_spec(2) [OF inv Some, of c] s' by auto
  qed
  then show "known s' c \<longleftrightarrow> known s c \<and> c \<noteq> i" "known s' c \<Longrightarrow> parentFile s' c = parentFile s c" by blast+
qed


section \<open>The helper\<close>

lemma no_conflict:
  assumes "rs_inv (dRefs d)" and "checkImageDeleteConflict i (helperMask force) d = None"
  shows "imageStore_Children i (dImages d) = {||}" and "\<not> runningOn d i" and "usedBy d i \<or> refsTo d i \<noteq> {} \<Longrightarrow> force"
proof -
  have r: "runningOn d i \<Longrightarrow> usedBy d i" by (auto simp: runningOn_def usedBy_def)
  show "imageStore_Children i (dImages d) = {||}" "\<not> runningOn d i" "usedBy d i \<or> refsTo d i \<noteq> {} \<Longrightarrow> force"
    using assms(2) r References_refsTo [OF assms(1), of i] by (auto simp: helperMask_eq check_None split: if_splits)
qed

lemma untagged_ok:
  assumes "dinv E d" and "untagged_only i d d1" and "usedBy d i \<or> refsTo d i \<noteq> {} \<Longrightarrow> force"
  shows "del_ok E i force d d1" and "gone d d1 = {}"
proof -
  have same: "same_store (dImages d) (dImages d1)" "dContainers d1 = dContainers d" using assms(2) by (simp_all add: untagged_only_def)
  show "gone d d1 = {}" using same_store_sel [OF same(1)] by (simp add: gone_def)
  moreover have "tags (dRefs d1) r = tags (dRefs d) r \<or> force \<and> tags (dRefs d) r = Some i \<and> tags (dRefs d1) r = None" if "proper r" for r
    using assms(2,3) that unfolding untagged_only_def refsTo_def by blast
  ultimately show "del_ok E i force d d1"
    using same same_store_sel [OF same(1)] untagged_only_inv(3) [OF assms(2,1)] unfolding del_ok_def by auto
qed

lemma deleted_ok:
  assumes inv: "dinv E d" and free: "checkImageDeleteConflict i (helperMask force) d = None"
    and only: "untagged_only i d d1" and refs: "refsTo d1 i = {}"
    and run: "imageStore_Delete E i (dImages d1) = Some (r, s)"
  shows "del_ok E i force d (d1\<lparr>dImages := s\<rparr>)" and "gone d (d1\<lparr>dImages := s\<rparr>) \<subseteq> {i}"
    and "r = Inr x \<Longrightarrow> gone d (d1\<lparr>dImages := s\<rparr>) = {i}"
proof -
  let ?d2 = "d1\<lparr>dImages := s\<rparr>"
  have rs: "rs_inv (dRefs d)" using inv by (simp add: dinv_def)
  note c = no_conflict [OF rs free]
  have same: "same_store (dImages d) (dImages d1)" "dContainers d1 = dContainers d" using only by (simp_all add: untagged_only_def)
  note sel = same_store_sel [OF same(1)]
  have inv1: "is_inv E (dImages d1)" "rs_inv (dRefs d1)" using untagged_only_inv(3) [OF only inv] by (simp_all add: dinv_def)
  have leaf: "imageStore_Children i (dImages d1) = {||}" using c(1) sel by simp
  note del = Delete_leaf [OF inv1(1) leaf run]
  show sub: "gone d ?d2 \<subseteq> {i}" using del(2) sel by (auto simp: gone_def)
  show "gone d ?d2 = {i}" if "r = Inr x" using del(2) del(4) [OF that] sel by (auto simp: gone_def)
  have "\<not> runningOn d j \<and> refsTo ?d2 j = {} \<and> (usedBy d j \<or> refsTo d j \<noteq> {} \<longrightarrow> force \<and> j = i)" if "j \<in> gone d ?d2" for j
    using that sub c refs by (auto simp: refsTo_def)
  moreover have "dinv E ?d2" using del(1) inv1(2) by (simp add: dinv_def)
  moreover have "known (dImages d) j \<and> parentFile (dImages ?d2) j = parentFile (dImages d) j" if "known (dImages ?d2) j" for j
    using that del(2,3) sel by simp
  moreover have "tags (dRefs ?d2) r = tags (dRefs d) r \<or> force \<and> tags (dRefs d) r = Some i \<and> tags (dRefs ?d2) r = None" if "proper r" for r
    using del_okD(7) [OF untagged_ok(1) [OF inv only c(3)] that] by simp
  ultimately show "del_ok E i force d ?d2" using same(2) unfolding del_ok_def by simp
qed

definition recorded :: "('l, 'h) imageDaemon \<Rightarrow> ('l, 'h) imageDaemon \<Rightarrow> imageRecord list \<Rightarrow> imageRecord list \<Rightarrow> del_error option \<Rightarrow> bool" where
  "recorded d d' records records' e \<longleftrightarrow>
     (\<exists>more. records' = records @ more \<and> (e = None \<longrightarrow> gone d d' \<subseteq> {i. Deleted i \<in> set more}))"

lemma parse_valid:
  assumes "Digest_Validate i = None"
  shows "ParseIDOrReference i = (i, None)"
proof -
  have "CHR '':'' \<in> set i" using valid_hasSep [OF assms] by (simp add: hasSep_def)
  moreover have "CHR '':'' \<notin> set ''abcdef0123456789''" by simp
  ultimately have "\<not> ValidateID i" unfolding ValidateID_def list_all_iff by blast
  with assms show ?thesis by (simp add: ParseIDOrReference_def ParseDigest_def)
qed

lemma Get_no_panic: "hasSep i \<Longrightarrow> imageStore_Get E i s = (x, s') \<Longrightarrow> x \<noteq> Inl FsPanic"
  using Get_result(1) [of E i s] by auto

lemma Log_valid:
  assumes "Digest_Validate i = None"
  shows "fst (LogImageEvent E lab i n a d) = None"
proof -
  have sep: "hasSep i" by (rule valid_hasSep [OF assms])
  obtain x s where g: "imageStore_Get E i (dImages d) = (x, s)" by (rule prod.exhaust)
  obtain y s2 where g2: "imageStore_Get E i s = (y, s2)" by (rule prod.exhaust)
  note np = Get_no_panic [OF sep g] Get_no_panic [OF sep g2]
  have "fst (GetImage E i d) \<noteq> Inl (EPanic m)" for m
    using np by (auto simp: GetImage_def GetImageID_def parse_valid [OF assms] g g2 split: sum.split fs_error.split)
  moreover obtain y d1 where "GetImage E i d = (y, d1)" by (rule prod.exhaust)
  ultimately show ?thesis by (cases y; cases "projl y") (auto simp: LogImageEvent_def Let_def)
qed

text \<open>One round of the helper, up to the deletion of the image.\<close>

lemma helper_step:
  assumes "checkImageDeleteConflict i (helperMask force) d = None" and "imageStore_GetParent E i (dImages d) = (p, s0)"
    and "p \<noteq> Inl FsPanic" and "removeAllReferencesToImageID E lab i records (d\<lparr>dImages := s0\<rparr>) = (x, records1, d1)"
  shows "imageDeleteHelper E lab i force prune quiet records d =
     (case x of
        Some e \<Rightarrow> Some (Some e, records1, d1)
      | None \<Rightarrow>
          (case imageStore_Delete E i (dImages d1) of
             None \<Rightarrow> None
           | Some (Inl e, s) \<Rightarrow> Some (Some (EImage e), records1, d1\<lparr>dImages := s\<rparr>)
           | Some (Inr (Err e), s) \<Rightarrow> Some (Some (ELayer e), records1, d1\<lparr>dImages := s\<rparr>)
           | Some (Inr (Panic m), s) \<Rightarrow> Some (Some (EPanic m), records1, d1\<lparr>dImages := s\<rparr>)
           | Some (Inr (Ok removedLayers), s) \<Rightarrow>
               (case LogImageEvent E lab i i ''delete'' (d1\<lparr>dImages := s\<rparr>) of
                  (Some e, d2) \<Rightarrow> Some (Some e, records1, d2)
                | (None, d2) \<Rightarrow>
                    (let records2 = records1 @ Deleted i # map (\<lambda>m. Deleted (MChainID m)) removedLayers
                     in if \<not> prune \<or> (case p of Inl _ \<Rightarrow> [] | Inr q \<Rightarrow> q) = [] then Some (None, records2, d2)
                        else imageDeleteHelper E lab (case p of Inl _ \<Rightarrow> [] | Inr q \<Rightarrow> q) False True True records2 d2))))"
proof (cases p)
  case (Inl e)
  then obtain m where p: "p = Inl (FsErr m)" using assms(3) by (cases e) simp_all
  show ?thesis using assms unfolding p sum.case by (subst imageDeleteHelper.simps) (cases x; simp)
next
  case (Inr q)
  show ?thesis using assms unfolding Inr sum.case by (subst imageDeleteHelper.simps) (cases x; simp)
qed

lemma helper_cases:
  assumes inv: "dinv E d" and run: "imageDeleteHelper E lab i force prune quiet records d = Some (e, records', d')"
  obtains (stop) "del_ok E i force d d'" "recorded d d' records records' e"
      "checkImageDeleteConflict i (helperMask force) d = None \<Longrightarrow> known (dImages d) i \<Longrightarrow> \<forall>n. refWrites d n = None \<Longrightarrow> i \<in> gone d d'"
  | (prune_parent) d2 more par where "del_ok E i force d d2" "gone d d2 = {i}" "Deleted i \<in> set more"
      "imageDeleteHelper E lab par False True True (records @ more) d2 = Some (e, records', d')"
proof (cases "checkImageDeleteConflict i (helperMask force) d")
  case (Some c)
  have "d' = d" "records' = records" using run Some by (subst (asm) imageDeleteHelper.simps, auto split: if_splits)+
  then show thesis using same_daemon_ok [OF _ inv, of d] Some by (intro stop) (auto simp: recorded_def)
next
  case None
  note c = no_conflict [OF _ None]
  have rs: "rs_inv (dRefs d)" and base: "is_base E (dImages d)" using inv is_invD(2) by (auto simp: dinv_def)
  obtain p s0 where p: "imageStore_GetParent E i (dImages d) = (p, s0)" by fastforce
  let ?d0 = "d\<lparr>dImages := s0\<rparr>"
  have same0: "same_daemon d ?d0" using GetParent_same [of "dImages d" E i] p by (simp add: same_daemon_def)
  show thesis
  proof (cases "p = Inl FsPanic")
    case True
    then have "\<not> known (dImages d) i" using GetParent_panic [of E i "dImages d"] p is_baseD(3) [OF base] by auto
    moreover have "d' = ?d0" "records' = records" using run None p True by (subst (asm) imageDeleteHelper.simps, simp)+
    ultimately show thesis using same_daemon_ok [OF same0 inv] by (intro stop) (auto simp: recorded_def)
  next
    case np: False
    obtain x records1 d1 where u: "removeAllReferencesToImageID E lab i records ?d0 = (x, records1, d1)" by (metis prod.exhaust)
    note unfold = helper_step [OF None p np u]
    have rs0: "rs_inv (dRefs ?d0)" using rs by simp
    note un = removeAllReferences_only [OF rs0 u]
    have only: "untagged_only i d d1" by (rule untagged_only_trans [OF untagged_only_same [OF same0 rs] un(1)])
    note ok1 = untagged_ok [OF inv only c(3) [OF rs]]
    obtain more1 where r1: "records1 = records @ more1" using un(3) by blast
    have log: "fst (LogImageEvent E lab i i a d1) = None" if "known (dImages d) i" for a d1
      using that Log_valid is_baseD(2) [OF base] by blast
    show thesis
    proof (cases x)
      case (Some a)
      have "e = Some a" "d' = d1" "records' = records1" using run unfold Some by simp_all
      moreover have "x = None" if "\<forall>n. refWrites d n = None" "known (dImages d) i"
        using removeAll_succeeds [OF rs0, of i E lab records] u that log by simp
      ultimately show thesis using ok1 r1 Some by (intro stop) (auto simp: recorded_def)
    next
      case x: None
      note refs = un(2) [OF x]
      obtain r s where del: "imageStore_Delete E i (dImages d1) = Some (r, s)"
        using run unfold x by (auto split: option.splits)
      note ok2 = deleted_ok [OF inv None only refs del]
      have gone2: "i \<in> gone d (d1\<lparr>dImages := s\<rparr>)" if "known (dImages d) i"
      proof -
        have "known (dImages d1) i" using that only same_store_sel(1) unfolding untagged_only_def by metis
        then obtain m where "fmlookup (images (dImages d1)) i = Some m" by (auto simp: known_iff)
        then have "r \<noteq> Inl y" for y using del by (auto simp: imageStore_Delete_def Let_def split: option.splits prod.splits bool.splits fs_error.splits)
        then obtain y where "r = Inr y" by (cases r) auto
        from ok2(3) [OF this] show ?thesis by simp
      qed
      show thesis
      proof (cases "\<exists>removed. r = Inr (Ok removed)")
        case False
        then have "d' = d1\<lparr>dImages := s\<rparr> \<and> records' = records1 \<and> e \<noteq> None"
          using run unfold x del by (auto split: sum.splits outcome.splits)
        then show thesis using ok2 r1 gone2 by (intro stop) (auto simp: recorded_def)
      next
        case True
        then obtain removed where r: "r = Inr (Ok removed)" by blast
        obtain y d2 where lg: "LogImageEvent E lab i i ''delete'' (d1\<lparr>dImages := s\<rparr>) = (y, d2)" by (rule prod.exhaust)
        let ?m = "more1 @ Deleted i # map (\<lambda>m. Deleted (MChainID m)) removed"
        note ok3 = del_ok_same [OF ok2(1) LogImageEvent_same [OF lg]]
        have g: "gone d d2 = {i}" using ok3 ok2(3) [OF r] by simp
        have "e \<noteq> None \<and> d' = d2 \<and> records' = records1 \<or> e = None \<and> d' = d2 \<and> records' = records @ ?m \<or>
            (\<exists>par. imageDeleteHelper E lab par False True True (records @ ?m) d2 = Some (e, records', d'))"
          using run unfold x del r r1 lg by (auto simp: Let_def split: if_splits option.splits)
        then show thesis
        proof (elim disjE exE conjE)
          assume "e \<noteq> None" "d' = d2" "records' = records1"
          then show thesis using ok3 g r1 by (intro stop) (auto simp: recorded_def)
        next
          assume "d' = d2" "records' = records @ ?m"
          then show thesis using ok3 g by (intro stop) (auto simp: recorded_def)
        next
          fix par assume "imageDeleteHelper E lab par False True True (records @ ?m) d2 = Some (e, records', d')"
          then show thesis using ok3 g by (intro prune_parent [of d2 ?m par]) auto
        qed
      qed
    qed
  qed
qed


lemma gone_card:
  assumes "gone d d2 = {i}" and "\<And>j. known (dImages d2) j \<Longrightarrow> known (dImages d) j"
  shows "fcard (fmdom (images (dImages d2))) < fcard (fmdom (images (dImages d)))"
proof -
  have "i |\<in>| fmdom (images (dImages d))" "i |\<notin>| fmdom (images (dImages d2))"
    using assms(1) by (auto simp: gone_def known_def)
  moreover have "fmdom (images (dImages d2)) |\<subseteq>| fmdom (images (dImages d))" using assms(2) by (auto simp: known_def)
  ultimately show ?thesis by (intro pfsubset_fcard_mono) auto
qed

lemma helper_ok:
  assumes "dinv E d" and "imageDeleteHelper E lab i force prune quiet records d = Some (e, records', d')"
  shows "del_ok E i force d d' \<and> recorded d d' records records' e"
  using assms
proof (induction "fcard (fmdom (images (dImages d)))" arbitrary: d i force prune quiet records rule: less_induct)
  case less
  from less.prems show ?case
  proof (cases rule: helper_cases)
    case stop
    then show ?thesis by blast
  next
    case (prune_parent d2 more par)
    have "fcard (fmdom (images (dImages d2))) < fcard (fmdom (images (dImages d)))"
      using gone_card [OF prune_parent(2)] del_okD(3) [OF prune_parent(1)] by blast
    from less.hyps [OF this del_okD(1) [OF prune_parent(1)] prune_parent(4)]
    have two: "del_ok E par False d2 d'" "recorded d2 d' (records @ more) records' e" by blast+
    note t = del_ok_trans [OF prune_parent(1) two(1)]
    have "recorded d d' records records' e"
      using two(2) prune_parent(2,3) t(2) unfolding recorded_def by auto
    with t(1) show ?thesis by blast
  qed
qed

section \<open>The whole call\<close>

lemma prefix_of_digest:
  assumes "ParseIDOrReference r = (i, None)"
  shows "isImageIDPrefix i r"
proof -
  let ?s = "if ValidateID r then ''sha256:'' @ r else r"
  have "i = ?s" using assms by (auto simp: ParseIDOrReference_def ParseDigest_def Let_def split: sum.splits option.splits if_splits)
  moreover have "indexOf (CHR '':'') (''sha256:'' @ r) = Some 6" by simp
  moreover have "drop (6 + 1) (''sha256:'' @ r) = r" by simp
  ultimately show ?thesis
    unfolding isImageIDPrefix_def by (cases "ValidateID r") (simp_all add: has_prefix_def del: indexOf.simps)
qed

lemma parsed_reference:
  assumes "ParseIDOrReference r = (i, Some x)"
  shows "x = ParseNamed r"
proof -
  have "\<not> ValidateID r"
    using assms ValidateID_digest [of r] by (auto simp: ParseIDOrReference_def ParseDigest_def Let_def)
  with assms show ?thesis by (auto simp: ParseIDOrReference_def Let_def split: sum.splits)
qed

lemma GetImageID_tags:
  assumes "GetImageID E r d = (Inr i, d0)" and "\<not> isImageIDPrefix i r" and "ParseNamed r = Inr ref"
  shows "tags (dRefs d) (WithDefaultTag ref) = None \<or> tags (dRefs d) (WithDefaultTag ref) = Some i"
proof -
  obtain j x where p: "ParseIDOrReference r = (j, x)" by fastforce
  show ?thesis
  proof (cases x)
    case None
    then have "i = j" using assms(1) p by (auto simp: GetImageID_def split: prod.splits sum.splits fs_error.splits)
    with prefix_of_digest p None assms(2) show ?thesis by metis
  next
    case (Some y)
    then have "y = Inr ref" using parsed_reference p assms(3) by metis
    with assms(1) p Some show ?thesis
      by (cases "tags (dRefs d) (WithDefaultTag ref)") (auto simp: GetImageID_def Get_tags Let_def)
  qed
qed

lemma removeDigests_only:
  assumes "rs_inv (dRefs d)"
    and "\<forall>r \<in> set refs. proper r \<and> (tags (dRefs d) r = None \<or> tags (dRefs d) r = Some i)"
    and "removeDigests n refs rem records d = (e, rem', records', d')"
  shows "untagged_only i d d'"
  using assms
proof (induction refs arbitrary: rem records d)
  case Nil
  then show ?case by (auto intro!: untagged_only_same)
next
  case (Cons r refs)
  show ?case
  proof (cases "isCanonical r \<and> n = Named_Name r")
    case False
    with Cons show ?thesis by (auto split: if_splits)
  next
    case True
    have r: "proper r" "WithDefaultTag r = r" using Cons.prems(2) WithDefaultTag_proper by auto
    obtain ref x d1 where run: "removeImageRef r d = ((ref, x), d1)" by (metis prod.exhaust)
    have one: "untagged_only i d d1" using removeImageRef_only(1) [OF Cons.prems(1) _ _ run, of i] r Cons.prems(2) by simp
    note u = untagged_only_inv [OF one]
    show ?thesis
    proof (cases x)
      case (Some a)
      with Cons.prems(3) run one True show ?thesis by simp
    next
      case None
      have still: "\<forall>q \<in> set refs. proper q \<and> (tags (dRefs d1) q = None \<or> tags (dRefs d1) q = Some i)"
        using Cons.prems(2) u(4) by fastforce
      have "removeDigests n refs rem (records @ [Untagged (Named_String r)]) d1 = (e, rem', records', d')"
        using Cons.prems(3) run None True by simp
      from Cons.IH [OF u(2) still this] show ?thesis by (rule untagged_only_trans [OF one])
    qed
  qed
qed


fun untagState :: "('l, 'h) untagResult \<Rightarrow> ('l, 'h) imageDaemon" where
  "untagState (Finished records e d) = d"
| "untagState (Continue records q d) = d"

lemma cleanDigests_only:
  assumes "rs_inv (dRefs d)"
    and "cleanDigests ref (store_References i (dRefs d)) records d = (e, rem, records', d')"
  shows "untagged_only i d d'"
proof -
  have refs: "\<forall>r \<in> set (store_References i (dRefs d)). proper r \<and> (tags (dRefs d) r = None \<or> tags (dRefs d) r = Some i)"
    using References_refsTo [OF assms(1)] by (auto simp: refsTo_def)
  have "untagged_only i d d" using assms(1) by (intro untagged_only_same) simp_all
  then show ?thesis
    using assms(2) removeDigests_only [OF assms(1) refs] by (auto simp: cleanDigests_def split: if_splits)
qed

lemma untagByReference_only:
  assumes rs: "rs_inv (dRefs d)"
    and ref: "\<And>ref. ParseNamed r = Inr ref \<Longrightarrow> tags (dRefs d) (WithDefaultTag ref) = None \<or> tags (dRefs d) (WithDefaultTag ref) = Some i"
  shows "untagged_only i d (untagState (untagByReference E lab r force i d))"
proof -
  have refl: "untagged_only i d d" using rs by (intro untagged_only_same) simp_all
  show ?thesis
  proof (cases "if \<not> force \<and> isSingleReference (store_References i (dRefs d)) then getContainerUsingImage i d else None")
    case (Some c)
    with refl show ?thesis by (simp add: untagByReference_def)
  next
    case free: None
    show ?thesis
    proof (cases "ParseNamed r")
      case (Inl e)
      with refl free show ?thesis by (simp add: untagByReference_def)
    next
      case (Inr q)
      obtain ref x d1 where run: "removeImageRef q d = ((ref, x), d1)" by (metis prod.exhaust)
      have wf: "proper (WithDefaultTag q)" using properI ParseNamed_wf [OF Inr] by blast
      note one = removeImageRef_only(1) [OF rs wf ref [OF Inr] run]
      obtain y d2 where log: "LogImageEvent E lab i i ''untag'' d1 = (y, d2)" by (rule prod.exhaust)
      note u1 = untagged_only_inv [OF one]
      have two: "untagged_only i d d2"
        by (rule untagged_only_trans [OF one untagged_only_same [OF LogImageEvent_same [OF log] u1(2)]])
      note u2 = untagged_only_inv [OF two]
      obtain e rem records d3 where c: "cleanDigests ref (store_References i (dRefs d2)) [Untagged (Named_String ref)] d2 = (e, rem, records, d3)"
        by (metis prod.exhaust)
      note three = untagged_only_trans [OF two cleanDigests_only [OF u2(2) c]]
      have "untagState (untagByReference E lab r force i d) \<in> {d1, d2, d3}"
        using free Inr run log c by (auto simp: untagByReference_def split: option.split)
      then show ?thesis using one two three by auto
    qed
  qed
qed

lemma untagByID_only:
  assumes rs: "rs_inv (dRefs d)"
  shows "untagged_only i d (untagState (untagByID E lab force i d))"
proof -
  have refl: "untagged_only i d d" using rs by (intro untagged_only_same) simp_all
  have refs: "\<forall>r \<in> set (store_References i (dRefs d)). proper r \<and> (tags (dRefs d) r = None \<or> tags (dRefs d) r = Some i)"
    using References_refsTo [OF rs] by (auto simp: refsTo_def)
  obtain e records d1 where u: "untagAll E lab i (store_References i (dRefs d)) [] d = (e, records, d1)" by (metis prod.exhaust)
  show ?thesis using refl untagAll_only(1) [OF rs refs u]
    by (auto simp: untagByID_def u Let_def split: option.split)
qed

lemma untag_only:
  assumes rs: "rs_inv (dRefs d)" and g: "GetImageID E r d = (Inr i, d0)"
  shows "untagged_only i d (untagState
    (if \<not> isImageIDPrefix i r then untagByReference E lab r force i d0 else untagByID E lab force i d0))"
proof -
  note same = GetImageID_same [OF g]
  have rs0: "dRefs d0 = dRefs d" using same by (simp add: same_daemon_def)
  note first = untagged_only_trans [OF untagged_only_same [OF same rs]]
  show ?thesis
  proof (cases "isImageIDPrefix i r")
    case True
    then show ?thesis using first [OF untagByID_only] rs rs0 by simp
  next
    case False
    have "untagged_only i d0 (untagState (untagByReference E lab r force i d0))"
      by (rule untagByReference_only) (use rs rs0 GetImageID_tags [OF g False] in simp_all)
    with False first show ?thesis by simp
  qed
qed

text \<open>The call up to the helper, which then decides about the image itself.\<close>

lemma ImageDelete_cases:
  assumes inv: "dinv E d" and run: "ImageDelete E lab r force prune d = Some ((records, e), d')"
  obtains (unknown) err where "fst (GetImageID E r d) = Inl err" "same_daemon d d'" "e \<noteq> None"
  | (untagged) i where "fst (GetImageID E r d) = Inr i" "untagged_only i d d'"
  | (helper) i d1 records1 q where "fst (GetImageID E r d) = Inr i" "untagged_only i d d1"
      "imageDeleteHelper E lab i force prune q records1 d1 = Some (e, records, d')"
proof -
  obtain x d0 where g: "GetImageID E r d = (x, d0)" by fastforce
  note same = GetImageID_same [OF g]
  have rs: "rs_inv (dRefs d)" using inv by (simp add: dinv_def)
  show thesis
  proof (cases x)
    case (Inl err)
    with run g same show thesis by (intro unknown [of err]) (auto simp: ImageDelete_def)
  next
    case (Inr i)
    let ?u = "if \<not> isImageIDPrefix i r then untagByReference E lab r force i d0 else untagByID E lab force i d0"
    have only: "untagged_only i d (untagState ?u)" by (rule untag_only [OF rs g [unfolded Inr]])
    show thesis
    proof (cases ?u)
      case (Finished records1 e1 d1)
      with run g Inr only show thesis by (intro untagged [of i]) (auto simp: ImageDelete_def)
    next
      case (Continue records1 q d1)
      with run g Inr only show thesis by (intro helper [of i d1 q records1]) (auto simp: ImageDelete_def split: option.splits)
    qed
  qed
qed


lemma Lookup_no_panic: "Set_Lookup term es \<noteq> LPanic"
proof (cases "Digest_Validate term = Some ErrDigestInvalidFormat")
  case True
  then show ?thesis by (simp add: Set_Lookup_def lookupAt_def)
next
  case False
  then obtain a h where "Digest_Hex term = Some h" "Digest_Algorithm term = Some a" by (rule format_parts)
  with False show ?thesis by (simp add: Set_Lookup_def lookupAt_def)
qed

lemma Search_no_panic: "imageStore_Search term s \<noteq> IPanic"
  using Lookup_no_panic by (auto simp: imageStore_Search_def split: lookupResult.split)

lemma sortSearch_le: "i \<le> j \<Longrightarrow> sortSearch f i j \<le> j"
proof (induction f i j rule: sortSearch.induct)
  case (1 f i j)
  define h where "h = i + (j - i) div 2"
  show ?case
  proof (cases "i < j")
    case True
    then have h: "i \<le> h" "h < j" by (auto simp: h_def)
    then show ?thesis using True 1(1,2) [OF True h_def] sortSearch_step(1,2) [OF True h_def, of f] by (cases "f h") auto
  next
    case False
    with 1(3) show ?thesis by (simp add: sortSearch_step(3))
  qed
qed

lemma Lookup_mem:
  assumes "Set_Lookup term es = LDigest d"
  shows "\<exists>e \<in> set es. entryDigest e = d"
proof -
  have at: "\<exists>e \<in> set es. entryDigest e = d" if "lookupAt idx alg hex es = LDigest d" "idx \<le> length es" for idx alg hex
    using that by (auto simp: lookupAt_def split: if_splits)
  show ?thesis
    using assms at sortSearch_le [of 0 "length es"]
    by (auto simp: Set_Lookup_def searchEntry_def split: if_splits option.splits)
qed

lemma Search_known:
  assumes "is_base E s" and "imageStore_Search term s = IOk i"
  shows "known s i"
proof -
  have "Set_Lookup term (setOf (digestSet s)) = LDigest i"
    using assms(2) by (auto simp: imageStore_Search_def split: lookupResult.splits)
  then obtain e where "e \<in> set (setOf (digestSet s))" "entryDigest e = i" using Lookup_mem by blast
  then have "i |\<in>| digestSet s" by (auto simp: setOf_set)
  then show ?thesis using is_baseD(1) [OF assms(1)] by (simp add: known_def)
qed

text \<open>All ids that a deletion meets have a colon: those of the image store, the tags and the parent files.\<close>

definition ids_ok :: "('l, 'h) imageEnv \<Rightarrow> ('l, 'h) imageDaemon \<Rightarrow> bool" where
  "ids_ok E d \<longleftrightarrow>
     is_base E (dImages d) \<and> parentsOk (dImages d) \<and> rs_inv (dRefs d) \<and>
     (\<forall>r i. proper r \<longrightarrow> tags (dRefs d) r = Some i \<longrightarrow> hasSep i)"

lemma GetImageID_ids:
  assumes ok: "ids_ok E d" and g: "GetImageID E r d = (x, d')"
  shows "x \<noteq> Inl (EPanic m)" and "x = Inr i \<Longrightarrow> hasSep i"
proof -
  have base: "is_base E (dImages d)" using ok by (simp add: ids_ok_def)
  have search: "imageStore_Search u (dImages d) = IOk j \<Longrightarrow> hasSep j" for u j using Search_known [OF base] is_baseD(3) [OF base] by blast
  obtain j y where p: "ParseIDOrReference r = (j, y)" by fastforce
  have "x \<noteq> Inl (EPanic m) \<and> (x = Inr i \<longrightarrow> hasSep i)"
  proof (cases y)
    case None
    have "Digest_Validate j = None"
      using p None by (auto simp: ParseIDOrReference_def ParseDigest_def Let_def split: sum.splits option.splits)
    then have sep: "hasSep j" by (rule valid_hasSep)
    obtain z s where get: "imageStore_Get E j (dImages d) = (z, s)" by (rule prod.exhaust)
    show ?thesis using g sep Get_no_panic [OF sep get] by (auto simp: GetImageID_def p None get split: sum.splits fs_error.splits)
  next
    case (Some q)
    show ?thesis
    proof (cases q)
      case (Inl e)
      with g Some show ?thesis by (auto simp: GetImageID_def p)
    next
      case (Inr ref)
      have "ParseNamed r = Inr ref" using parsed_reference p Some Inr by metis
      then have "proper (WithDefaultTag ref)" using properI ParseNamed_wf by blast
      then have tag: "store_Get ref (dRefs d) = Inr k \<Longrightarrow> hasSep k" for k
        using ok by (auto simp: ids_ok_def Get_tags split: option.splits)
      show ?thesis using g tag search
        by (auto simp: GetImageID_def p Some Inr Let_def Search_no_panic split: sum.splits Named.splits imageResult.splits if_splits)
    qed
  qed
  then show "x \<noteq> Inl (EPanic m)" "x = Inr i \<Longrightarrow> hasSep i" by blast+
qed

lemma same_daemon_ids: "same_daemon d d' \<Longrightarrow> ids_ok E d \<Longrightarrow> ids_ok E d'"
  unfolding same_daemon_def ids_ok_def
  using soft_base [OF same_store_soft, of "dImages d" "dImages d'" E] soft_parents [OF same_store_soft, of "dImages d" "dImages d'" E] by simp

lemma untagged_only_ids: "untagged_only i d d' \<Longrightarrow> ids_ok E d \<Longrightarrow> ids_ok E d'"
  unfolding untagged_only_def ids_ok_def
  using soft_base [OF same_store_soft, of "dImages d" "dImages d'" E] soft_parents [OF same_store_soft, of "dImages d" "dImages d'" E]
  by (metis option.distinct(1))

lemma Log_ids:
  assumes ok: "ids_ok E d"
  shows "fst (LogImageEvent E lab i n a d) = None"
proof -
  obtain x d1 where g: "GetImageID E i d = (x, d1)" by (rule prod.exhaust)
  obtain y d2 where g2: "GetImage E i d = (y, d2)" by (rule prod.exhaust)
  have "y \<noteq> Inl (EPanic m)" for m
  proof (cases x)
    case (Inl e)
    then show ?thesis using GetImageID_ids(1) [OF ok g] g2 by (auto simp: GetImage_def g)
  next
    case (Inr j)
    have sep: "hasSep j" by (rule GetImageID_ids(2) [OF ok g Inr])
    obtain z s where get: "imageStore_Get E j (dImages d1) = (z, s)" by (rule prod.exhaust)
    show ?thesis using g2 Get_no_panic [OF sep get] by (auto simp: GetImage_def g Inr get split: sum.splits fs_error.splits)
  qed
  then show ?thesis by (cases y; cases "projl y") (auto simp: LogImageEvent_def Let_def g2)
qed

text \<open>
  C4: Deleting an image is safe.  Whatever the reference, the options and the failures of
  writing the tag file, the call keeps the invariants of both stores and the containers.  An
  image that is gone afterwards has no running container, no reference that still names it and
  no child that stays; an image other than the one asked for is gone only if no container used
  it and no reference named it; without \<open>force\<close> no image of any container is gone.  Only
  references to the image asked for are removed.  If the call reports no error, its records
  name every image that is gone.  The invariant of the image store includes that its own file
  operations succeed; the call may end with an error or a panic at any point.
\<close>

theorem image_delete_safe:
  assumes "is_inv E (dImages d)" and "rs_inv (dRefs d)"
    and "ImageDelete E lab imageRef force prune d = Some ((records, e), d')"
  shows "is_inv E (dImages d') \<and> rs_inv (dRefs d') \<and> dContainers d' = dContainers d \<and>
     {i. known (dImages d') i} \<subseteq> {i. known (dImages d) i} \<and>
     {i \<in> gone d d'. runningOn d i \<or> refsTo d' i \<noteq> {}} = {} \<and>
     {c. known (dImages d') c \<and> parentFile (dImages d) c \<in> Some ` gone d d'} = {} \<and>
     {i \<in> gone d d'. usedBy d i \<or> refsTo d i \<noteq> {}} \<subseteq> {i. fst (GetImageID E imageRef d) = Inr i} \<and>
     {i \<in> gone d d'. usedBy d i \<and> \<not> force} = {} \<and>
     {r. proper r \<and> tags (dRefs d') r \<noteq> tags (dRefs d) r} \<subseteq>
       {r. tags (dRefs d') r = None \<and> Inr (the (tags (dRefs d) r)) = fst (GetImageID E imageRef d)} \<and>
     (case e of None \<Rightarrow> gone d d' \<subseteq> {i. Deleted i \<in> set records} | Some _ \<Rightarrow> True)"
proof -
  have inv: "dinv E d" using assms by (simp add: dinv_def)
  from inv assms(3) show ?thesis
  proof (cases rule: ImageDelete_cases)
    case (unknown err)
    then show ?thesis using same_daemon_inv [OF unknown(2) inv] same_store_sel [of "dImages d" "dImages d'"]
      by (auto simp: same_daemon_def dinv_def gone_def)
  next
    case (untagged i)
    have "same_store (dImages d) (dImages d')" "dContainers d' = dContainers d" using untagged(2) by (simp_all add: untagged_only_def)
    then show ?thesis
      using untagged_only_inv(3) [OF untagged(2) inv] same_store_sel [of "dImages d" "dImages d'"] untagged
      by (auto simp: dinv_def gone_def untagged_only_def split: option.split)
  next
    case (helper i d1 records1 q)
    have same: "same_store (dImages d) (dImages d1)" "dContainers d1 = dContainers d" using helper(2) by (simp_all add: untagged_only_def)
    note sel = same_store_sel [OF same(1)] and uses = uses_cong [OF same(2)]
    have ok: "del_ok E i force d1 d'" "recorded d1 d' records1 records e"
      using helper_ok [OF untagged_only_inv(3) [OF helper(2) inv] helper(3)] by blast+
    note D = del_okD [OF ok(1)]
    have g: "gone d d' = gone d1 d'" using sel by (simp add: gone_def)
    have par: "p \<notin> gone d d'" if "known (dImages d') c" "parentFile (dImages d) c = Some p" for c p
      using that D(1,3) sel is_invD(5) [of E "dImages d'" c p] by (auto simp: dinv_def gone_def)
    have tag: "tags (dRefs d') r = None \<and> tags (dRefs d) r = Some i" if "proper r" "tags (dRefs d') r \<noteq> tags (dRefs d) r" for r
      using that D(7) [OF that(1)] helper(2) unfolding untagged_only_def by metis
    have others: "\<not> usedBy d j \<and> refsTo d j = {}" if "j \<in> gone d d'" "j \<noteq> i" for j
      using that D(6) [of j] g uses untagged_only_inv(6) [OF helper(2), of j] by auto
    show ?thesis
    proof (intro conjI)
      show "is_inv E (dImages d')" "rs_inv (dRefs d')" "dContainers d' = dContainers d"
        using D(1,2) same(2) by (simp_all add: dinv_def)
      show "{i. known (dImages d') i} \<subseteq> {i. known (dImages d) i}" using D(3) sel(1) by auto
      show "{i \<in> gone d d'. runningOn d i \<or> refsTo d' i \<noteq> {}} = {}" using D(4,5) g uses by auto
      show "{c. known (dImages d') c \<and> parentFile (dImages d) c \<in> Some ` gone d d'} = {}" using par by auto
      show "{i \<in> gone d d'. usedBy d i \<or> refsTo d i \<noteq> {}} \<subseteq> {i. fst (GetImageID E imageRef d) = Inr i}"
        using others helper(1) by auto
      show "{i \<in> gone d d'. usedBy d i \<and> \<not> force} = {}" using D(6) g uses by auto
      show "{r. proper r \<and> tags (dRefs d') r \<noteq> tags (dRefs d) r} \<subseteq>
          {r. tags (dRefs d') r = None \<and> Inr (the (tags (dRefs d) r)) = fst (GetImageID E imageRef d)}"
        using tag helper(1) by fastforce
      show "case e of None \<Rightarrow> gone d d' \<subseteq> {i. Deleted i \<in> set records} | Some _ \<Rightarrow> True"
        using ok(2) g by (auto simp: recorded_def split: option.split)
    qed
  qed
qed


section \<open>The call returns\<close>

lemma same_store_retains: "same_store s s' \<Longrightarrow> retains holds E s \<Longrightarrow> retains holds E s'"
  by (rule soft_retains [OF same_store_soft])

lemma removeImageRef_no_panic: "removeImageRef r d = ((ref, x), d1) \<Longrightarrow> x \<noteq> Some (EPanic m)"
  by (auto simp: removeImageRef_def Let_def split: prod.splits)

lemma untagAll_no_panic:
  assumes "ids_ok E d" and "\<forall>r \<in> set refs. proper r \<and> (tags (dRefs d) r = None \<or> tags (dRefs d) r = Some i)"
    and "untagAll E lab i refs records d = (e, records', d')"
  shows "e \<noteq> Some (EPanic m)"
  using assms
proof (induction refs arbitrary: records d)
  case (Cons r refs)
  have rs: "rs_inv (dRefs d)" using Cons.prems(1) by (simp add: ids_ok_def)
  have r: "proper r" "WithDefaultTag r = r" using Cons.prems(2) WithDefaultTag_proper by auto
  obtain ref x d1 where run: "removeImageRef r d = ((ref, x), d1)" by (metis prod.exhaust)
  have one: "untagged_only i d d1" using removeImageRef_only(1) [OF rs _ _ run, of i] r Cons.prems(2) by simp
  obtain y d2 where log: "LogImageEvent E lab i i ''untag'' d1 = (y, d2)" by (rule prod.exhaust)
  have ok1: "ids_ok E d1" by (rule untagged_only_ids [OF one Cons.prems(1)])
  have y: "y = None" using Log_ids [OF ok1, of lab i i "''untag''"] log by simp
  have same: "same_daemon d1 d2" by (rule LogImageEvent_same [OF log])
  have "\<forall>q \<in> set refs. proper q \<and> (tags (dRefs d2) q = None \<or> tags (dRefs d2) q = Some i)"
    using Cons.prems(2) untagged_only_inv(4) [OF one] same by (fastforce simp: same_daemon_def)
  then have ih: "untagAll E lab i refs records d2 = (e, records', d') \<Longrightarrow> e \<noteq> Some (EPanic m)" for records
    using Cons.IH same_daemon_ids [OF same ok1] by blast
  show ?case using Cons.prems(3) run removeImageRef_no_panic [OF run] log y ih by (cases x) auto
qed simp

lemma References_tagged:
  fixes d :: "('l, 'h) imageDaemon"
  shows "rs_inv (dRefs d) \<Longrightarrow> \<forall>r \<in> set (store_References i (dRefs d)). proper r \<and> (tags (dRefs d) r = None \<or> tags (dRefs d) r = Some i)"
  using References_refsTo [of d] by (auto simp: refsTo_def)

context layer_releaser
begin

text \<open>Whatever file operations fail: the images get fewer with every round.\<close>

lemma helper_returns:
  assumes "lsRelease E = releaseL" and "ids_ok E d" and "ok (ls (dImages d))" and "retains holds E (dImages d)" and "hasSep i"
  shows "\<exists>e records' d'. imageDeleteHelper E lab i force prune quiet records d = Some (e, records', d') \<and> (\<forall>m. e \<noteq> Some (EPanic m))"
  using assms(2-)
proof (induction "fcard (fmdom (images (dImages d)))" arbitrary: d i force prune quiet records rule: less_induct)
  case less
  have base: "is_base E (dImages d)" and rs: "rs_inv (dRefs d)" using less.prems(1) by (simp_all add: ids_ok_def)
  show ?case
  proof (cases "checkImageDeleteConflict i (helperMask force) d")
    case (Some c)
    then show ?thesis by (subst imageDeleteHelper.simps) auto
  next
    case None
    obtain p s0 where p: "imageStore_GetParent E i (dImages d) = (p, s0)" by fastforce
    let ?d0 = "d\<lparr>dImages := s0\<rparr>"
    have np: "p \<noteq> Inl FsPanic" using GetParent_panic [of E i "dImages d"] p less.prems(4) by auto
    obtain x records1 d1 where u: "removeAllReferencesToImageID E lab i records ?d0 = (x, records1, d1)" by (metis prod.exhaust)
    note run = helper_step [OF None p np u]
    have same0: "same_daemon d ?d0" using GetParent_same [of "dImages d" E i] p by (simp add: same_daemon_def)
    have rs0: "rs_inv (dRefs ?d0)" using rs by simp
    have only: "untagged_only i d d1"
      by (rule untagged_only_trans [OF untagged_only_same [OF same0 rs] removeAllReferences_only(1) [OF rs0 u]])
    have ok1: "ids_ok E d1" by (rule untagged_only_ids [OF only less.prems(1)])
    then have base1: "is_base E (dImages d1)" by (simp add: ids_ok_def)
    note s1 = untagged_only_inv(1) [OF only]
    have l1: "ok (ls (dImages d1))" "retains holds E (dImages d1)"
      using same_store_retains [OF s1 less.prems(3)] less.prems(2) same_store_sel(4) [OF s1] by simp_all
    have xp: "x \<noteq> Some (EPanic m)" for m
      using untagAll_no_panic [OF same_daemon_ids [OF same0 less.prems(1)] References_tagged [OF rs0]] u
      unfolding removeAllReferencesToImageID_def by blast
    show ?thesis
    proof (cases x)
      case (Some a)
      with xp run show ?thesis by simp
    next
      case x: None
      obtain r s where del: "imageStore_Delete E i (dImages d1) = Some (r, s)" and rp: "\<forall>x. r = Inr x \<longrightarrow> no_panic x"
        using Delete_returns [OF assms(1) base1 l1] by blast
      note l2 = Delete_retains [OF assms(1) base1 l1 del]
      show ?thesis
      proof (cases "\<exists>removed. r = Inr (Ok removed)")
        case False
        with run x del rp show ?thesis by (cases r) (auto split: outcome.split)
      next
        case True
        then obtain removed where r: "r = Inr (Ok removed)" by blast
        let ?d = "d1\<lparr>dImages := s\<rparr>"
        have ok2: "ids_ok E ?d"
          using ok1 l2 Delete_parents [OF base1 del] by (simp add: ids_ok_def)
        obtain d2 where log: "LogImageEvent E lab i i ''delete'' ?d = (None, d2)" using Log_ids [OF ok2] by (metis prod.collapse)
        note same2 = LogImageEvent_same [OF log]
        have s2: "same_store s (dImages d2)" using same2 by (simp add: same_daemon_def)
        have l3: "ok (ls (dImages d2))" "retains holds E (dImages d2)"
          using l2 same_store_retains [OF s2] same_store_sel(4) [OF s2] by simp_all
        have "known s c \<longleftrightarrow> known (dImages d) c \<and> c \<noteq> i" "known (dImages d) i" for c
          using Delete_known [OF base1 del r] same_store_sel(1) [OF s1] by simp_all
        then have lt: "fcard (fmdom (images (dImages d2))) < fcard (fmdom (images (dImages d)))"
          using same_store_sel(1) [OF s2] by (intro gone_card [of d d2 i]) (auto simp: gone_def)
        let ?records = "records1 @ Deleted i # map (\<lambda>m. Deleted (MChainID m)) removed"
        show ?thesis
        proof (cases "\<not> prune \<or> (case p of Inl _ \<Rightarrow> [] | Inr q \<Rightarrow> q) = []")
          case True
          then show ?thesis using run x del r log by simp
        next
          case False
          then obtain q where q: "p = Inr q" "q \<noteq> []" by (cases p) auto
          have "parentFile (dImages d) i = Some q" using GetParent_file [OF p [unfolded q(1)]] .
          then have "hasSep q" using less.prems(1) q(2) unfolding ids_ok_def parentsOk_def by blast
          from less.hyps [OF lt same_daemon_ids [OF same2 ok2] l3 this] show ?thesis using run x del r log False q by simp
        qed
      qed
    qed
  qed
qed

end

fun untagError :: "('l, 'h) untagResult \<Rightarrow> del_error option" where
  "untagError (Finished records e d) = e"
| "untagError (Continue records q d) = None"

lemma cleanDigests_no_panic:
  assumes "cleanDigests ref refs records d = (e, rem, records', d')"
  shows "e \<noteq> Some (EPanic m)"
proof -
  have "removeDigests n refs rem records d = (e, rem', records', d') \<Longrightarrow> e \<noteq> Some (EPanic m)" for n rem rem' records records' d d'
  proof (induction refs arbitrary: rem records d)
    case (Cons r refs)
    obtain ref x d1 where run: "removeImageRef r d = ((ref, x), d1)" by (metis prod.exhaust)
    with Cons removeImageRef_no_panic [OF run] show ?case by (cases x) (auto split: if_splits)
  qed simp
  with assms show ?thesis by (auto simp: cleanDigests_def split: if_splits)
qed

lemma untag_no_panic:
  assumes ok: "ids_ok E d" and g: "GetImageID E r d = (Inr i, d0)"
  shows "\<not> isImageIDPrefix i r \<Longrightarrow> untagError (untagByReference E lab r force i d0) \<noteq> Some (EPanic m)"
    and "untagError (untagByID E lab force i d0) \<noteq> Some (EPanic m)"
proof -
  note same = GetImageID_same [OF g]
  have ok0: "ids_ok E d0" by (rule same_daemon_ids [OF same ok])
  have rs: "rs_inv (dRefs d0)" using ok0 by (simp add: ids_ok_def)
  show "untagError (untagByReference E lab r force i d0) \<noteq> Some (EPanic m)" if np: "\<not> isImageIDPrefix i r"
  proof (cases "ParseNamed r")
    case (Inl e)
    then show ?thesis by (simp add: untagByReference_def split: option.split)
  next
    case (Inr q)
    obtain ref x d1 where run: "removeImageRef q d0 = ((ref, x), d1)" by (metis prod.exhaust)
    have "proper (WithDefaultTag q)" using properI ParseNamed_wf [OF Inr] by blast
    then have "untagged_only i d0 d1"
      using removeImageRef_only(1) [OF rs _ _ run] GetImageID_tags [OF g np Inr] same by (simp add: same_daemon_def)
    then have ok1: "ids_ok E d1" by (rule untagged_only_ids [OF _ ok0])
    obtain d2 where log: "LogImageEvent E lab i i ''untag'' d1 = (None, d2)" using Log_ids [OF ok1] by (metis prod.collapse)
    show ?thesis
      using removeImageRef_no_panic [OF run]
      by (auto simp: untagByReference_def Inr run log split: option.split prod.split dest: cleanDigests_no_panic)
  qed
  obtain e records d1 where u: "untagAll E lab i (store_References i (dRefs d0)) [] d0 = (e, records, d1)" by (metis prod.exhaust)
  show "untagError (untagByID E lab force i d0) \<noteq> Some (EPanic m)"
    using untagAll_no_panic [OF ok0 References_tagged [OF rs] u]
    by (auto simp: untagByID_def Let_def u split: option.split)
qed

lemma ImageDelete_returns:
  assumes ok: "ids_ok (layerEnv B dg un) d" and L: "ls_inv g (ls (dImages d))" "retains handle_ok (layerEnv B dg un) (dImages d)"
  shows "\<exists>records e d'. ImageDelete (layerEnv B dg un) lab imageRef force prune d = Some ((records, e), d') \<and>
           (\<forall>m. e \<noteq> Some (EPanic m))"
proof -
  let ?E = "layerEnv B dg un"
  obtain x d0 where get: "GetImageID ?E imageRef d = (x, d0)" by fastforce
  have rs: "rs_inv (dRefs d)" using ok by (simp add: ids_ok_def)
  show ?thesis
  proof (cases x)
    case (Inl e)
    have "e \<noteq> EPanic m" for m using GetImageID_ids(1) [OF ok get, of m] Inl by simp
    then have "imageNotExistToErrcode e \<noteq> EPanic m" for m
      by (cases e) (auto simp: imageNotExistToErrcode_def split: sum.split)
    with get Inl show ?thesis by (simp add: ImageDelete_def)
  next
    case (Inr i)
    let ?u = "if \<not> isImageIDPrefix i imageRef then untagByReference ?E lab imageRef force i d0 else untagByID ?E lab force i d0"
    have up: "untagError ?u \<noteq> Some (EPanic m)" for m
      using untag_no_panic [OF ok get [unfolded Inr], of lab force m] by simp
    show ?thesis
    proof (cases ?u)
      case (Finished records e d1)
      have "e \<noteq> Some (EPanic m)" for m using up [of m] unfolding Finished by simp
      with get Inr Finished show ?thesis by (auto simp: ImageDelete_def)
    next
      case (Continue records q d1)
      have only: "untagged_only i d d1"
        using untag_only [OF rs get [unfolded Inr], of lab force] unfolding Continue untagState.simps .
      note s1 = untagged_only_inv(1) [OF only]
      have "ls_inv g (ls (dImages d1))" "retains handle_ok ?E (dImages d1)"
        using L same_store_sel(4) [OF s1] same_store_retains [OF s1 L(2)] by simp_all
      from layerRel.helper_returns [OF _ untagged_only_ids [OF only ok] this GetImageID_ids(2) [OF ok get Inr], of B lab force prune q records]
      obtain e records' d' where "imageDeleteHelper ?E lab i force prune q records d1 = Some (e, records', d')" "\<forall>m. e \<noteq> Some (EPanic m)"
        by auto
      with get Inr Continue show ?thesis by (simp add: ImageDelete_def)
    qed
  qed
qed

text \<open>The ids in the calls of the tag store are ids of images.\<close>

fun callID :: "rs_call \<Rightarrow> bool" where
  "callID (AddTagCall r i f) = hasSep i"
| "callID (rs_call.AddDigestCall r i f) = hasSep i"
| "callID (DeleteCall r) = True"

lemma spec_ids:
  assumes "\<forall>wc \<in> set cs. callID (snd wc)" and "\<And>r i. m r = Some i \<Longrightarrow> hasSep i"
  shows "fold (\<lambda>wc. spec_exec (snd wc)) cs m r = Some i \<Longrightarrow> hasSep i"
  using assms
proof (induction cs arbitrary: m)
  case (Cons wc cs)
  have step: "spec_exec (snd wc) m q = Some j \<Longrightarrow> hasSep j" for q j
    using Cons.prems(2,3) by (cases "snd wc") (auto simp: spec_add_def split: if_splits)
  show ?case by (rule Cons.IH [OF _ _ step]) (use Cons.prems in simp_all)
qed simp

text \<open>
  C15: Deleting an image returns, without a panic, whatever file operations fail.  Let the image
  store be opened on any files, of which each parent file is empty or holds an id with a colon, and any reachable layer
  store, and let any history of calls follow, with configurations of different digests; let the
  tag store be reached by any history of its calls, with ids of images, that is with a colon.
  Then the call returns and meets neither a panic of the layer store nor that of the digest
  library: pruning ends, as every round of it deletes an image.
\<close>

theorem image_delete_returns:
  assumes "reachable B (cfg g k l0)" and "NewImageStore (layerEnv B dg un) f l0 = (None, s0)"
    and "fset (fmran (content f)) \<subseteq> K" and "inj_on dg K"
    and "(istep K anyChild handle_ok (layerEnv B dg un))\<^sup>*\<^sup>* s0 (dImages d)"
    and "\<And>i p. metadata f i ''parent'' = Some p \<Longrightarrow> p = [] \<or> hasSep p"
    and "\<forall>wc \<in> set cs. wf_call (snd wc) \<and> callID (snd wc)" and "dRefs d = fold rs_exec cs newRefStore"
  shows "\<exists>records e d'. ImageDelete (layerEnv B dg un) lab imageRef force prune d = Some ((records, e), d') \<and>
           (\<forall>m. e \<noteq> Some (EPanic m))"
proof -
  let ?E = "layerEnv B dg un"
  note h = opened_history [OF assms(1-5)]
  have base0: "is_base ?E s0" using opened_history(1) [OF assms(1-4) rtranclp.rtrancl_refl] .
  have "parentsOk s0" by (rule opened_parents [OF assms(2)]) (use assms(6) in blast)
  then have "parentsOk (dImages d)" by (rule history_parents [OF assms(5) base0])
  moreover have "refines (dRefs d) (fold (\<lambda>wc. spec_exec (snd wc)) cs Map.empty)"
    using rs_history_refines [OF newRefStore_refines, of cs] assms(7,8) by simp
  then have "rs_inv (dRefs d)" "\<And>r i. proper r \<Longrightarrow> tags (dRefs d) r = Some i \<Longrightarrow> hasSep i"
    using spec_ids [of cs Map.empty] assms(7) by (auto simp: refines_def)
  ultimately have "ids_ok ?E d" using h(1) by (simp add: ids_ok_def)
  from ImageDelete_returns [OF this h(2,3)] show ?thesis .
qed

section \<open>An unused image is deleted\<close>

lemma helper_deletes:
  assumes inv: "dinv E d" and run: "imageDeleteHelper E lab i force prune quiet records d = Some (e, records', d')"
    and "checkImageDeleteConflict i (helperMask force) d = None" and "known (dImages d) i" and "\<forall>n. refWrites d n = None"
  shows "i \<in> gone d d'"
  using inv run
proof (cases rule: helper_cases)
  case stop
  with assms show ?thesis by blast
next
  case (prune_parent d2 more par)
  have "del_ok E par False d2 d'" using helper_ok [OF del_okD(1) [OF prune_parent(1)] prune_parent(4)] by blast
  from del_ok_trans(2) [OF prune_parent(1) this] prune_parent(2) show ?thesis by blast
qed

lemma GetImageID_known:
  assumes inv: "is_inv E (dImages d)" and i: "known (dImages d) i"
  shows "fst (GetImageID E i d) = Inr i"
proof -
  have v: "Digest_Validate i = None" by (rule is_invD(3) [OF inv i])
  then have "CHR '':'' \<in> set i" by (metis format_parts in_set_conv_decomp option.distinct(1))
  moreover have "CHR '':'' \<notin> set ''abcdef0123456789''" by simp
  ultimately have "\<not> ValidateID i" unfolding ValidateID_def list_all_iff by blast
  with v have p: "ParseIDOrReference i = (i, None)" by (simp add: ParseIDOrReference_def ParseDigest_def)
  obtain c img where "contentOf (digestBytes E) (fs (dImages d)) i = Some c" "NewFromJSON E c = Inr img"
    using is_inv_json [OF inv i] by blast
  from Get_spec [OF is_invD(1) [OF inv] this] obtain s x where "imageStore_Get E i (dImages d) = (Inr x, s)" by blast
  then show ?thesis by (simp add: GetImageID_def p)
qed

lemma isImageIDPrefix_self: "isImageIDPrefix i i"
  by (simp add: isImageIDPrefix_def has_prefix_def)

text \<open>All references to the image are of one repository, and at most one of them is a tag (the others are digests).\<close>

definition oneName :: "('l, 'h) imageDaemon \<Rightarrow> ID \<Rightarrow> bool" where
  "oneName d i \<longleftrightarrow> (\<forall>r \<in> refsTo d i. \<forall>q \<in> refsTo d i.
     Named_Name r = Named_Name q \<and> (\<not> isCanonical r \<and> \<not> isCanonical q \<longrightarrow> r = q))"

lemma distinct_le_1: "distinct xs \<Longrightarrow> length xs \<le> 1 \<longleftrightarrow> (\<forall>x \<in> set xs. \<forall>y \<in> set xs. x = y)"
  by (cases xs; cases "tl xs") auto

lemma oneName_single:
  assumes "rs_inv (dRefs d)"
  shows "oneName d i \<longleftrightarrow> refsTo d i = {} \<or> isSingleReference (store_References i (dRefs d))"
  using distinct_le_1 [OF distinct_filter [OF References_spec(2) [OF assms, of i]], of "\<lambda>r. \<not> isCanonical r"]
    References_refsTo [OF assms, of i]
  by (auto simp: oneName_def isSingleReference_iff)

definition deletable :: "bool \<Rightarrow> ('l, 'h) imageDaemon \<Rightarrow> ID \<Rightarrow> bool" where
  "deletable force d i \<longleftrightarrow> imageStore_Children i (dImages d) = {||} \<and>
     (force \<and> \<not> runningOn d i \<or> \<not> usedBy d i \<and> oneName d i)"

lemma check_free:
  assumes "rs_inv (dRefs d)" and "imageStore_Children i (dImages d) = {||}"
    and "force \<and> \<not> runningOn d i \<or> \<not> usedBy d i \<and> refsTo d i = {}"
  shows "checkImageDeleteConflict i (helperMask force) d = None"
proof -
  have "runningOn d i \<Longrightarrow> usedBy d i" by (auto simp: runningOn_def usedBy_def)
  then show ?thesis using assms References_refsTo [OF assms(1), of i] by (auto simp: helperMask_eq check_None)
qed

lemma untagByID_continues:
  assumes inv: "dinv E d" and valid: "Digest_Validate i = None" and del: "deletable force d i" and writes: "\<forall>n. refWrites d n = None"
  obtains records d1 where "untagByID E lab force i d = Continue records False d1"
    "untagged_only i d d1" "checkImageDeleteConflict i (helperMask force) d1 = None"
proof -
  have rs: "rs_inv (dRefs d)" using inv by (simp add: dinv_def)
  let ?refs = "store_References i (dRefs d)"
  note refs = References_refsTo [OF rs, of i]
  note single = oneName_single [OF rs, of i]
  have runs: "runningOn d i \<Longrightarrow> usedBy d i" by (auto simp: runningOn_def usedBy_def)
  have leaf: "imageStore_Children i (dImages d) = {||}" using del by (simp add: deletable_def)
  show thesis
  proof (cases "isSingleReference ?refs")
    case True
    let ?c = "if \<not> force then conflictHard OR (conflictSoft AND NOT conflictActiveReference) else conflictHard"
    have "?c = (if force then 3 else 11)" using conflict_masks by simp
    then have free: "checkImageDeleteConflict i ?c d = None"
      using del runs by (auto simp: deletable_def check_None simp del: if_not_P)
    obtain e records d1 where u: "untagAll E lab i ?refs [] d = (e, records, d1)" by (metis prod.exhaust)
    have e: "e = None"
      using untagAll_succeeds [OF rs References_spec(2) [OF rs, of i] _ writes Log_valid [OF valid], where records = "[]"] refs u by (metis fst_conv order_refl)
    have tagsOk: "\<forall>r \<in> set ?refs. proper r \<and> (tags (dRefs d) r = None \<or> tags (dRefs d) r = Some i)"
      unfolding refs by (simp add: refsTo_def)
    note a = untagAll_only [OF rs tagsOk u]
    have none: "refsTo d1 i = {}"
      using a(2) [OF e] untagged_only_inv(5) [OF a(1), of i] unfolding refs by (auto simp: refsTo_def)
    have same: "same_store (dImages d) (dImages d1)" "dContainers d1 = dContainers d" using a(1) by (simp_all add: untagged_only_def)
    have "checkImageDeleteConflict i (helperMask force) d1 = None"
      using leaf del none same_store_sel(5) [OF same(1)] uses_cong [OF same(2)]
      by (intro check_free untagged_only_inv(2) [OF a(1)]) (auto simp: deletable_def)
    moreover have "untagByID E lab force i d = Continue records False d1"
      unfolding untagByID_def Let_def using True free u e by simp
    ultimately show thesis using a(1) by (intro that)
  next
    case False
    have "untagged_only i d d" by (rule untagged_only_same [OF _ rs]) simp
    moreover have "checkImageDeleteConflict i (helperMask force) d = None"
      using leaf del False by (intro check_free [OF rs]) (auto simp: deletable_def single)
    ultimately show thesis using False by (intro that) (simp_all add: untagByID_def)
  qed
qed



section \<open>A daemon with one image\<close>

definition demoDaemon :: "('l, 'h) imageStore \<Rightarrow> ('l, 'h) imageDaemon" where
  "demoDaemon s =
     \<lparr>dImages = s, dRefs = newRefStore, dContainers = NewMemoryStore, dEvents = [], refWrites = \<lambda>_. None, refWriteCount = 0\<rparr>"

lemma demoDaemon_sel [simp]:
  "dImages (demoDaemon s) = s" "dRefs (demoDaemon s) = newRefStore" "refWrites (demoDaemon s) n = None"
  "usedBy (demoDaemon s) i \<longleftrightarrow> False" "refsTo (demoDaemon s) i = {}" "rs_inv newRefStore"
  using newRefStore_refines
  by (simp_all add: demoDaemon_def usedBy_def memoryStore_Get_def NewMemoryStore_def refsTo_def refines_def)

lemma demo_image:
  obtains s where "known s (demoDigest ''c'')" "is_inv demoEnv s" "imageStore_Children (demoDigest ''c'') s = {||}"
    "\<exists>records e d'. ImageDelete demoEnv (\<lambda>_. None) (demoDigest ''c'') False True (demoDaemon s) = Some ((records, e), d')"
proof -
  let ?s = "emptyImages noFiles demoStore"
  obtain s where kn: "known s (demoDigest ''c'')" "imageStore_Children (demoDigest ''c'') s = {||}"
    and steps: "\<And>K. ''c'' \<in> K \<Longrightarrow> (istep K known handle_ok demoEnv)\<^sup>*\<^sup>* ?s s" by (rule image_run, blast)
  note step = steps [OF singletonI]
  have inv0: "is_inv demoEnv ?s" by (simp add: emptyImages_ok)
  have inv: "is_inv demoEnv s" by (rule history_inv [OF step inv0])
  have "ls_inv {#} demoStore" using reachable_inv [OF demo_reachable] by (simp add: cfg_inv_def)
  then have "layerRel.held {#} {''c''} demoEnv ?s"
    using is_invD(2) [OF inv0] by (simp add: layerRel.held_def retains_def filesIn_def emptyImages_def layersOf_def contentOf_def)
  from layerRel.history_held [OF step _ _ _ this] have L: "ls_inv {#} (ls s)" "retains handle_ok demoEnv s"
    by (simp_all add: layerRel.held_def)
  have "parentsOk s" by (rule history_parents [OF step is_invD(2) [OF inv0]]) (simp add: parentsOk_def parentFile_def emptyImages_def)
  moreover have "tags newRefStore r = None" for r by (simp add: newRefStore_eq tags_def lookup2_def)
  ultimately have "ids_ok demoEnv (demoDaemon s)" using is_invD(2) [OF inv] by (simp add: ids_ok_def)
  from ImageDelete_returns [OF this] L kn inv show thesis by (intro that) force+
qed

theorem image_delete_safe_witness:
  "\<exists>s records e d'. known s (demoDigest ''c'') \<and>
     ImageDelete demoEnv (\<lambda>_. None) (demoDigest ''c'') False True (demoDaemon s) = Some ((records, e), d') \<and>
     is_inv demoEnv (dImages d') \<and> {i \<in> gone (demoDaemon s) d'. runningOn (demoDaemon s) i \<or> refsTo d' i \<noteq> {}} = {}"
proof -
  obtain s where s: "known s (demoDigest ''c'')" "is_inv demoEnv s"
    "\<exists>records e d'. ImageDelete demoEnv (\<lambda>_. None) (demoDigest ''c'') False True (demoDaemon s) = Some ((records, e), d')"
    by (rule demo_image)
  then obtain records e d' where run: "ImageDelete demoEnv (\<lambda>_. None) (demoDigest ''c'') False True (demoDaemon s) = Some ((records, e), d')"
    by blast
  show ?thesis
    by (intro exI conjI, rule s(1), rule run)
      (use image_delete_safe [of demoEnv "demoDaemon s", OF _ _ run] s(2) in \<open>simp_all\<close>)
qed

theorem image_delete_returns_witness:
  "\<exists>s0 s records e d'. NewImageStore demoEnv noFiles demoStore = (None, s0) \<and>
     (istep {''c''} anyChild handle_ok demoEnv)\<^sup>*\<^sup>* s0 s \<and> known s (demoDigest ''c'') \<and>
     ImageDelete demoEnv (\<lambda>_. None) (demoDigest ''c'') True True (demoDaemon s) = Some ((records, e), d') \<and>
     (\<forall>m. e \<noteq> Some (EPanic m))"
proof -
  obtain s0 s where s: "NewImageStore demoEnv noFiles demoStore = (None, s0)" "(istep {''c''} anyChild handle_ok demoEnv)\<^sup>*\<^sup>* s0 s"
    "known s (demoDigest ''c'')" by (rule demo_opened)
  have "\<exists>records e d'. ImageDelete demoEnv (\<lambda>_. None) (demoDigest ''c'') True True (demoDaemon s) = Some ((records, e), d') \<and>
     (\<forall>m. e \<noteq> Some (EPanic m))"
    by (rule image_delete_returns [OF demo_reachable s(1), where K = "{''c''}" and cs = "[]"]) (simp_all add: s)
  with s show ?thesis by blast
qed


end
