(* ===== verification/Xfer_Transfer.thy ===== *)
theory Xfer_Transfer
  imports Docker_Prelude
begin

text \<open>
  A transfer of a layer and its watchers: the type \<open>transfer\<close> of
  \<^verbatim>\<open>src/distribution/xfer/transfer.go\<close>.

  The critical sections of \<open>Watch\<close>, \<open>Release\<close>, \<open>Close\<close> and \<open>Broadcast\<close> are functions on the
  record of the transfer.  The goroutines are a step relation: the transfer function that
  sends progress, the broadcaster, one goroutine per watcher, and the callers of \<open>Watch\<close>,
  \<open>Release\<close> and \<open>Close\<close>.  A step is the stretch between two operations on a channel or the
  mutex.  A channel that is only ever closed is a flag; a send on the unbuffered progress
  channel waits in \<open>sendq\<close> until the broadcaster takes it.  A send that must not block reaches
  a watcher only if it is already parked in its \<open>select\<close>, so any subset of the watchers there
  may get it.  Closing a closed channel is a panic.
\<close>

section \<open>Critical sections\<close>

text \<open>\<open>lastProgress\<close> is \<open>None\<close> while \<open>hasLastProgress\<close> is false.\<close>

record 'p transfer =
  ctxDone :: bool
  twatchers :: "nat fset"
  lastProgress :: "'p option"
  runningClosed :: bool
  releasedClosed :: bool
  broadcastDone :: bool
  tClosed :: bool

definition NewTransfer :: "'p transfer" where
  "NewTransfer =
     \<lparr>ctxDone = False, twatchers = {||}, lastProgress = None, runningClosed = False, releasedClosed = False,
      broadcastDone = False, tClosed = False\<rparr>"

text \<open>The result tells whether the channel \<open>running\<close> of the new watcher is closed at once.\<close>

definition transfer_Watch :: "nat \<Rightarrow> 'p transfer \<Rightarrow> bool \<times> 'p transfer" where
  "transfer_Watch w t =
     (let t1 = t\<lparr>twatchers := finsert w (twatchers t)\<rparr>
      in if broadcastDone t1 then (True, t1) else (False, t1))"

definition transfer_Release :: "nat \<Rightarrow> 'p transfer \<Rightarrow> 'p transfer" where
  "transfer_Release w t =
     (let t1 = t\<lparr>twatchers := twatchers t |-| {|w|}\<rparr>
      in if fcard (twatchers t1) = 0 then
           (if tClosed t1 then (if releasedClosed t1 then t1 else t1\<lparr>releasedClosed := True\<rparr>)
            else t1\<lparr>ctxDone := True\<rparr>)
         else t1)"

text \<open>\<open>None\<close> is the panic of closing \<open>released\<close> twice.\<close>

definition transfer_Close :: "'p transfer \<Rightarrow> 'p transfer option" where
  "transfer_Close t =
     (let t1 = t\<lparr>tClosed := True\<rparr>
      in if fcard (twatchers t1) = 0 then
           (if releasedClosed t1 then None else Some (t1\<lparr>releasedClosed := True\<rparr>))
         else Some t1)"

definition broadcastSection :: "'p option \<Rightarrow> 'p transfer \<Rightarrow> 'p transfer" where
  "broadcastSection msg t =
     (case msg of Some p \<Rightarrow> t\<lparr>lastProgress := Some p\<rparr> | None \<Rightarrow> t\<lparr>broadcastDone := True\<rparr>)"

section \<open>Goroutines\<close>

datatype 'p bpc = BTop | BInner | BGot "'p option" | BClosing | BEnd

datatype 'p wpc = WRead | WWrite "'p option" | WSelect | WSync | WEnd

record 'p wthread =
  wpc :: "'p wpc"
  wdone :: bool
  wwritten :: "'p list"

text \<open>Whether the watcher writes the snapshot it has read.\<close>

definition writes :: "'p wthread \<Rightarrow> 'p option \<Rightarrow> bool" where
  "writes w snap \<longleftrightarrow>
     snap \<noteq> None \<and> (\<not> wdone w \<or> wwritten w = [] \<or> snap \<noteq> Some (last (wwritten w)))"

definition afterWrite :: "'p wthread \<Rightarrow> 'p option \<Rightarrow> 'p wthread" where
  "afterWrite w snap =
     (let w1 = (if writes w snap then w\<lparr>wwritten := wwritten w @ [the snap]\<rparr> else w)
      in w1\<lparr>wpc := (if wdone w then WEnd else WSelect)\<rparr>)"

text \<open>
  The configuration.  \<open>received\<close> (all progress the broadcaster has taken), \<open>relAt\<close> (how much
  it had taken when a watcher was released) and \<open>late\<close> (watchers that came after the end)
  record the history; no step depends on them.  \<open>relLocked\<close> holds the watchers whose \<open>Release\<close> has
  left its critical section, \<open>relClosed\<close> those whose \<open>releaseChan\<close> it has closed after that.  As the
  callers do, a watcher is released once, the transfer function closes its channel when it has
  no send left, and the manager closes the transfer once, after \<open>Done\<close>.
\<close>

record 'p xconf =
  tr :: "'p transfer"
  bp :: "'p bpc"
  sendq :: "'p list"
  masterClosed :: bool
  wst :: "nat \<rightharpoonup> 'p wthread"
  relLocked :: "nat set"
  relClosed :: "nat set"
  received :: "'p list"
  relAt :: "nat \<Rightarrow> nat"
  late :: "nat set"

definition wakeSome :: "nat set \<Rightarrow> (nat \<rightharpoonup> 'p wthread) \<Rightarrow> nat \<rightharpoonup> 'p wthread" where
  "wakeSome S m = (\<lambda>w. case m w of None \<Rightarrow> None | Some th \<Rightarrow> Some (if w \<in> S then th\<lparr>wpc := WRead\<rparr> else th))"

definition parked :: "'p xconf \<Rightarrow> nat set" where
  "parked c = {w. w |\<in>| twatchers (tr c) \<and> (\<exists>th. wst c w = Some th \<and> wpc th = WSelect)}"

inductive xstep :: "'p xconf \<Rightarrow> 'p xconf \<Rightarrow> bool" where
  send: "\<not> masterClosed c \<Longrightarrow> xstep c (c\<lparr>sendq := sendq c @ [p]\<rparr>)"
| close_master: "\<not> masterClosed c \<Longrightarrow> sendq c = [] \<Longrightarrow> xstep c (c\<lparr>masterClosed := True\<rparr>)"
| b_take: "bp c \<in> {BTop, BInner} \<Longrightarrow> sendq c = p # q \<Longrightarrow>
    xstep c (c\<lparr>sendq := q, bp := BGot (Some p), received := received c @ [p]\<rparr>)"
| b_end: "bp c \<in> {BTop, BInner} \<Longrightarrow> sendq c = [] \<Longrightarrow> masterClosed c \<Longrightarrow> xstep c (c\<lparr>bp := BGot None\<rparr>)"
| b_default: "bp c = BTop \<Longrightarrow> sendq c = [] \<Longrightarrow> \<not> masterClosed c \<Longrightarrow> xstep c (c\<lparr>bp := BInner\<rparr>)"
| b_sync: "bp c = BInner \<Longrightarrow> wst c w = Some th \<Longrightarrow> wpc th = WSync \<Longrightarrow>
    xstep c (c\<lparr>bp := BTop, wst := (wst c)(w \<mapsto> th\<lparr>wpc := WRead\<rparr>)\<rparr>)"
| b_publish: "bp c = BGot (Some p) \<Longrightarrow> S \<subseteq> parked c \<Longrightarrow>
    xstep c (c\<lparr>bp := BTop, tr := broadcastSection (Some p) (tr c), wst := wakeSome S (wst c)\<rparr>)"
| b_finish: "bp c = BGot None \<Longrightarrow> xstep c (c\<lparr>bp := BClosing, tr := broadcastSection None (tr c)\<rparr>)"
| b_close: "bp c = BClosing \<Longrightarrow> xstep c (c\<lparr>bp := BEnd, tr := (tr c)\<lparr>runningClosed := True\<rparr>\<rparr>)"
| watch: "wst c w = None \<Longrightarrow> transfer_Watch w (tr c) = (True, t) \<Longrightarrow>
    xstep c (c\<lparr>tr := t, wst := (wst c)(w \<mapsto> \<lparr>wpc = WEnd, wdone = True, wwritten = []\<rparr>), late := insert w (late c)\<rparr>)"
| watch_go: "wst c w = None \<Longrightarrow> transfer_Watch w (tr c) = (False, t) \<Longrightarrow>
    xstep c (c\<lparr>tr := t, wst := (wst c)(w \<mapsto> \<lparr>wpc = WRead, wdone = False, wwritten = []\<rparr>)\<rparr>)"
| release_lock: "wst c w \<noteq> None \<Longrightarrow> w \<notin> relLocked c \<Longrightarrow>
    xstep c (c\<lparr>tr := transfer_Release w (tr c), relLocked := insert w (relLocked c)\<rparr>)"
| release: "w \<in> relLocked c \<Longrightarrow> w \<notin> relClosed c \<Longrightarrow>
    xstep c (c\<lparr>relClosed := insert w (relClosed c), relAt := (relAt c)(w := length (received c))\<rparr>)"
| close: "runningClosed (tr c) \<Longrightarrow> \<not> tClosed (tr c) \<Longrightarrow> transfer_Close (tr c) = Some t \<Longrightarrow> xstep c (c\<lparr>tr := t\<rparr>)"
| w_read: "wst c w = Some th \<Longrightarrow> wpc th = WRead \<Longrightarrow>
    xstep c (c\<lparr>wst := (wst c)(w \<mapsto> th\<lparr>wpc := WWrite (lastProgress (tr c))\<rparr>)\<rparr>)"
| w_write: "wst c w = Some th \<Longrightarrow> wpc th = WWrite snap \<Longrightarrow> xstep c (c\<lparr>wst := (wst c)(w \<mapsto> afterWrite th snap)\<rparr>)"
| w_release: "wst c w = Some th \<Longrightarrow> wpc th = WSelect \<Longrightarrow> w \<in> relClosed c \<Longrightarrow>
    xstep c (c\<lparr>wst := (wst c)(w \<mapsto> th\<lparr>wpc := WSync, wdone := True\<rparr>)\<rparr>)"
| w_running: "wst c w = Some th \<Longrightarrow> wpc th = WSelect \<Longrightarrow> runningClosed (tr c) \<Longrightarrow>
    xstep c (c\<lparr>wst := (wst c)(w \<mapsto> th\<lparr>wpc := WRead, wdone := True\<rparr>)\<rparr>)"
| w_sync_running: "wst c w = Some th \<Longrightarrow> wpc th = WSync \<Longrightarrow> runningClosed (tr c) \<Longrightarrow>
    xstep c (c\<lparr>wst := (wst c)(w \<mapsto> th\<lparr>wpc := WRead\<rparr>)\<rparr>)"

definition xinit :: "'p xconf" where
  "xinit =
     \<lparr>tr = NewTransfer, bp = BTop, sendq = [], masterClosed = False, wst = Map.empty, relLocked = {}, relClosed = {},
      received = [], relAt = (\<lambda>_. 0), late = {}\<rparr>"


section \<open>The invariant\<close>

text \<open>How much of the received progress has been published, and the value after \<open>n\<close> of it.\<close>

definition pub :: "'p xconf \<Rightarrow> nat" where
  "pub c = length (received c) - (case bp c of BGot (Some _) \<Rightarrow> 1 | _ \<Rightarrow> 0)"

definition valueAt :: "'p xconf \<Rightarrow> nat \<Rightarrow> 'p option" where
  "valueAt c n = (if n = 0 then None else Some (received c ! (n - 1)))"

text \<open>What a watcher that ends must have seen: all, or what was there when it was released.\<close>

definition due :: "'p xconf \<Rightarrow> nat \<Rightarrow> nat" where
  "due c w = (if w \<in> relClosed c then relAt c w else length (received c))"

definition shown :: "'p xconf \<Rightarrow> nat \<Rightarrow> 'p list \<Rightarrow> bool" where
  "shown c k ps \<longleftrightarrow>
     k \<le> pub c \<and> subseq ps (take k (received c)) \<and> (k = 0 \<or> ps \<noteq> [] \<and> last ps = received c ! (k - 1))"

fun at_pc :: "'p xconf \<Rightarrow> nat \<Rightarrow> bool \<Rightarrow> nat \<Rightarrow> 'p wpc \<Rightarrow> bool" where
  "at_pc c w d k WRead \<longleftrightarrow> (if d then due c w \<le> pub c else k = 0 \<or> k < pub c)"
| "at_pc c w d k (WWrite snap) \<longleftrightarrow>
     (\<exists>n. k \<le> n \<and> n \<le> pub c \<and> snap = valueAt c n \<and> (if d then due c w \<le> n else k = 0 \<or> k < n))"
| "at_pc c w d k WSelect \<longleftrightarrow> \<not> d"
| "at_pc c w d k WSync \<longleftrightarrow> d \<and> w \<in> relClosed c"
| "at_pc c w d k WEnd \<longleftrightarrow> d \<and> (w \<in> late c \<or> due c w \<le> k)"

definition winv :: "'p xconf \<Rightarrow> nat \<Rightarrow> 'p wthread \<Rightarrow> bool" where
  "winv c w th \<longleftrightarrow>
     (\<exists>k. shown c k (wwritten th) \<and> at_pc c w (wdone th) k (wpc th)) \<and>
     (wdone th \<and> w \<notin> relClosed c \<longrightarrow> w \<in> late c \<or> runningClosed (tr c)) \<and>
     (w \<in> late c \<longrightarrow> wpc th = WEnd)"

text \<open>\<open>released\<close> is closed only after \<open>Close\<close>, and at the latest when the last watcher is gone then.\<close>

definition tflags :: "'p transfer \<Rightarrow> bool" where
  "tflags t \<longleftrightarrow>
     (tClosed t \<longrightarrow> runningClosed t) \<and> (releasedClosed t \<longrightarrow> tClosed t) \<and>
     (tClosed t \<and> twatchers t = {||} \<longrightarrow> releasedClosed t)"

definition ginv :: "'p xconf \<Rightarrow> bool" where
  "ginv c \<longleftrightarrow>
     lastProgress (tr c) = valueAt c (pub c) \<and>
     (bp c = BEnd \<longleftrightarrow> runningClosed (tr c)) \<and>
     (bp c \<in> {BClosing, BEnd} \<longleftrightarrow> broadcastDone (tr c)) \<and>
     (\<forall>p. bp c = BGot (Some p) \<longrightarrow> received c \<noteq> [] \<and> last (received c) = p) \<and>
     (\<forall>w \<in> relClosed c. relAt c w \<le> length (received c)) \<and> tflags (tr c)"

definition xinv :: "'p xconf \<Rightarrow> bool" where
  "xinv c \<longleftrightarrow> ginv c \<and> late c \<subseteq> dom (wst c) \<and> (\<forall>w th. wst c w = Some th \<longrightarrow> winv c w th)"

lemma xinit_inv: "xinv xinit"
  by (simp add: xinv_def ginv_def tflags_def xinit_def NewTransfer_def valueAt_def pub_def)

lemma fcard_zero [simp]: "fcard S = 0 \<longleftrightarrow> S = {||}"
  by (auto simp: fcard.rep_eq)

lemma Release_sel [simp]:
  "lastProgress (transfer_Release w t) = lastProgress t" "runningClosed (transfer_Release w t) = runningClosed t"
  "broadcastDone (transfer_Release w t) = broadcastDone t" "tClosed (transfer_Release w t) = tClosed t"
  "twatchers (transfer_Release w t) = twatchers t |-| {|w|}"
  by (simp_all add: transfer_Release_def Let_def)

lemma Release_flags: "tflags t \<Longrightarrow> tflags (transfer_Release w t)"
  by (auto simp: tflags_def transfer_Release_def Let_def)

lemma Watch_sel:
  assumes "transfer_Watch w t = (b, t')"
  shows "t' = t\<lparr>twatchers := finsert w (twatchers t)\<rparr>" "b = broadcastDone t"
  using assms by (auto simp: transfer_Watch_def Let_def split: if_splits)

text \<open>\<open>Close\<close>, which the manager calls once, does not panic.\<close>

lemma Close_ok:
  assumes "tflags t" and "\<not> tClosed t"
  obtains t' where "transfer_Close t = Some t'" "tClosed t'" "lastProgress t' = lastProgress t" "runningClosed t' = runningClosed t"
    "broadcastDone t' = broadcastDone t" "runningClosed t \<Longrightarrow> tflags t'" "twatchers t' = twatchers t" "ctxDone t' = ctxDone t"
  by (rule that [of "if twatchers t = {||} then t\<lparr>tClosed := True, releasedClosed := True\<rparr> else t\<lparr>tClosed := True\<rparr>"])
    (use assms in \<open>auto simp: tflags_def transfer_Close_def Let_def\<close>)

lemma tflags_sel [simp]:
  "tflags (t\<lparr>lastProgress := x\<rparr>) = tflags t" "tflags (t\<lparr>broadcastDone := b\<rparr>) = tflags t"
  "tflags t \<Longrightarrow> tflags (t\<lparr>runningClosed := True\<rparr>)" "tflags t \<Longrightarrow> tflags (t\<lparr>twatchers := finsert w W\<rparr>)"
  by (auto simp: tflags_def)

lemma at_pc_cong:
  assumes "at_pc c w d k pc" and "due c' w = due c w" and "pub c' = pub c" and "valueAt c' = valueAt c"
    and "w \<in> relClosed c \<Longrightarrow> w \<in> relClosed c'" and "w \<in> late c \<Longrightarrow> w \<in> late c'"
  shows "at_pc c' w d k pc"
  using assms by (cases pc) auto

lemma pub_le [simp]: "pub c \<le> length (received c)"
  by (simp add: pub_def)

lemma winv_wst [simp]:
  "winv (c\<lparr>wst := m\<rparr>) = winv c" "ginv (c\<lparr>wst := m\<rparr>) = ginv c" "pub (c\<lparr>wst := m\<rparr>) = pub c"
proof -
  have [simp]: "pub (c\<lparr>wst := m\<rparr>) = pub c" "shown (c\<lparr>wst := m\<rparr>) = shown c" "valueAt (c\<lparr>wst := m\<rparr>) = valueAt c" "due (c\<lparr>wst := m\<rparr>) = due c"
    by (simp_all add: pub_def shown_def valueAt_def due_def fun_eq_iff)
  have [simp]: "at_pc (c\<lparr>wst := m\<rparr>) w d k pc = at_pc c w d k pc" for w d k pc by (cases pc) simp_all
  show "winv (c\<lparr>wst := m\<rparr>) = winv c" "ginv (c\<lparr>wst := m\<rparr>) = ginv c" "pub (c\<lparr>wst := m\<rparr>) = pub c"
    by (simp_all add: winv_def ginv_def fun_eq_iff)
qed

text \<open>Steps that leave a watcher alone keep its part of the invariant.\<close>

lemma winv_frame:
  assumes "winv c w th" and "prefix (received c) (received c')" and "pub c \<le> pub c'"
    and "w \<in> relClosed c' \<longleftrightarrow> w \<in> relClosed c" and "relAt c' w = relAt c w" and "w \<in> late c' \<longleftrightarrow> w \<in> late c"
    and run: "runningClosed (tr c) \<Longrightarrow> runningClosed (tr c') \<and> received c' = received c"
  shows "winv c' w th"
proof -
  obtain r where r: "received c' = received c @ r" using assms(2) by (auto simp: prefix_def)
  have val: "n \<le> pub c \<Longrightarrow> valueAt c' n = valueAt c n" for n
    using le_trans [OF _ pub_le, of n c] by (cases n) (auto simp: valueAt_def r nth_append)
  have sh: "shown c k ps \<Longrightarrow> shown c' k ps" for k ps
    using assms(3) le_trans [OF _ pub_le, of k c] by (cases k) (auto simp: shown_def r nth_append)
  have due: "due c' w = due c w" if "wdone th" "w \<notin> late c"
    using that assms(1,4,5) run by (auto simp: winv_def due_def)
  obtain k where k: "shown c k (wwritten th)" "at_pc c w (wdone th) k (wpc th)" using assms(1) by (auto simp: winv_def)
  have "at_pc c' w (wdone th) k (wpc th)"
  proof (cases "wpc th")
    case (WWrite snap)
    have "w \<notin> late c" using assms(1) WWrite by (auto simp: winv_def)
    then have same: "wdone th \<Longrightarrow> due c' w = due c w" using due by blast
    obtain n where n: "k \<le> n" "n \<le> pub c" "snap = valueAt c n" "if wdone th then due c w \<le> n else k = 0 \<or> k < n"
      using k(2) WWrite by auto
    then have "snap = valueAt c' n" "n \<le> pub c'" using val assms(3) by simp_all
    with n same WWrite show ?thesis by (auto intro!: exI [of _ n])
  next
    case WRead
    have "w \<notin> late c" using assms(1) WRead by (auto simp: winv_def)
    with k(2) WRead due assms(3) show ?thesis by (cases "wdone th") auto
  next
    case WEnd
    with k(2) due assms(6) show ?thesis by auto
  qed (use k(2) assms(4) in auto)
  with sh [OF k(1)] assms(1,4,6) run show ?thesis unfolding winv_def by blast
qed


lemma upd_watcher: "xinv c \<Longrightarrow> winv c w th \<Longrightarrow> xinv (c\<lparr>wst := (wst c)(w \<mapsto> th)\<rparr>)"
  by (auto simp: xinv_def)

lemma xinvD: "xinv c \<Longrightarrow> wst c w = Some th \<Longrightarrow> winv c w th" "xinv c \<Longrightarrow> ginv c"
  by (simp_all add: xinv_def)

lemma winvE:
  assumes "winv c w th"
  obtains k where "shown c k (wwritten th)" "at_pc c w (wdone th) k (wpc th)"
    "wdone th \<Longrightarrow> w \<notin> relClosed c \<Longrightarrow> w \<in> late c \<or> runningClosed (tr c)" "w \<in> late c \<Longrightarrow> wpc th = WEnd"
  using assms unfolding winv_def by blast

lemma winvI:
  assumes "shown c k (wwritten th)" and "at_pc c w (wdone th) k (wpc th)"
    and "wdone th \<Longrightarrow> w \<notin> relClosed c \<Longrightarrow> w \<in> late c \<or> runningClosed (tr c)" and "w \<in> late c \<Longrightarrow> wpc th = WEnd"
  shows "winv c w th"
  using assms unfolding winv_def by blast

lemma w_read_inv:
  assumes "xinv c" and "wst c w = Some th" and "wpc th = WRead"
  shows "winv c w (th\<lparr>wpc := WWrite (lastProgress (tr c))\<rparr>)"
  using xinvD(1) [OF assms(1,2)]
proof (cases rule: winvE)
  case (1 k)
  have g: "lastProgress (tr c) = valueAt c (pub c)" using xinvD(2) [OF assms(1)] by (simp add: ginv_def)
  show ?thesis
  proof (rule winvI [of c k])
    show "at_pc c w (wdone (th\<lparr>wpc := WWrite (lastProgress (tr c))\<rparr>)) k (wpc (th\<lparr>wpc := WWrite (lastProgress (tr c))\<rparr>))"
      using 1(1,2) assms(3) by (auto simp: g shown_def intro!: exI [of _ "pub c"])
  qed (use 1 assms(3) in auto)
qed

lemma shown_more:
  assumes "shown c k ps" and "n \<le> pub c" and "valueAt c n = Some p" and "k = 0 \<or> k < n"
  shows "shown c n (ps @ [p])"
proof -
  obtain m where n: "n = Suc m" using assms(3) by (cases n) (simp_all add: valueAt_def)
  have p: "p = received c ! m" "m < length (received c)" using assms(2,3) le_trans [OF assms(2) pub_le] n by (simp_all add: valueAt_def)
  have "prefix (take k (received c)) (take m (received c))" using assms(4) n take_is_prefix [of k "take m (received c)"] by (auto simp: min_def split: if_splits)
  then have "subseq ps (take m (received c))"
    using assms(1) by (metis prefix_imp_subseq shown_def subseq_order.trans)
  then show ?thesis using assms(2) p n by (simp add: shown_def take_Suc_conv_app_nth)
qed


lemma shown_same:
  assumes "shown c k ps" and "k \<le> n" and "n \<le> pub c" and "n = 0 \<or> ps \<noteq> [] \<and> last ps = received c ! (n - 1)"
  shows "shown c n ps"
proof -
  have "prefix (take k (received c)) (take n (received c))"
    using assms(2) take_is_prefix [of k "take n (received c)"] by (auto simp: min_def split: if_splits)
  then have "subseq ps (take n (received c))" using assms(1) by (metis prefix_imp_subseq shown_def subseq_order.trans)
  with assms(3,4) show ?thesis by (simp add: shown_def)
qed

lemma w_write_inv:
  assumes "xinv c" and "wst c w = Some th" and pc: "wpc th = WWrite snap"
  shows "winv c w (afterWrite th snap)"
  using xinvD(1) [OF assms(1,2)]
proof (cases rule: winvE)
  case (1 k)
  obtain n where n: "k \<le> n" "n \<le> pub c" "snap = valueAt c n" "if wdone th then due c w \<le> n else k = 0 \<or> k < n"
    using 1(2) pc by auto
  have late: "w \<notin> late c" using 1(4) pc by auto
  let ?th = "afterWrite th snap"
  have pc': "wdone ?th = wdone th" "wpc ?th = (if wdone th then WEnd else WSelect)"
    by (simp_all add: afterWrite_def Let_def)
  show ?thesis
  proof (cases "writes th snap")
    case True
    then obtain p where p: "snap = Some p" by (auto simp: writes_def)
    have "k = 0 \<or> k < n"
    proof (cases "wdone th")
      case fin: True
      have "k = n \<Longrightarrow> k = 0" using 1(1) True p fin n(3) by (auto simp: shown_def writes_def valueAt_def split: if_splits)
      with n(1) show ?thesis by auto
    qed (use n(4) in simp)
    from shown_more [OF 1(1) n(2) _ this, of p] have "shown c n (wwritten ?th)"
      using True p n(3) by (simp add: afterWrite_def Let_def)
    then show ?thesis by (rule winvI) (use 1 n(4) late pc' in auto)
  next
    case False
    then have w: "wwritten ?th = wwritten th" by (simp add: afterWrite_def Let_def)
    show ?thesis
    proof (cases "wdone th")
      case fin: True
      have "n = 0 \<or> wwritten th \<noteq> [] \<and> last (wwritten th) = received c ! (n - 1)"
        using False fin n(3) by (auto simp: writes_def valueAt_def split: if_splits)
      from shown_same [OF 1(1) n(1,2) this] have "shown c n (wwritten ?th)" by (simp add: w)
      then show ?thesis by (rule winvI) (use 1 n(4) late pc' fin in auto)
    next
      case False
      show ?thesis by (rule winvI [of c k]) (use 1 False late pc' w in auto)
    qed
  qed
qed

lemma w_step_inv:
  assumes "xinv c" and "wst c w = Some th"
  shows "wpc th = WSelect \<Longrightarrow> w \<in> relClosed c \<Longrightarrow> winv c w (th\<lparr>wpc := WSync, wdone := True\<rparr>)"
    and "wpc th \<in> {WSelect, WSync} \<Longrightarrow> runningClosed (tr c) \<Longrightarrow> winv c w (th\<lparr>wpc := WRead, wdone := True\<rparr>)"
    and "wpc th = WSync \<Longrightarrow> bp c = BInner \<Longrightarrow> winv c w (th\<lparr>wpc := WRead\<rparr>)"
proof -
  have g: "bp c = BEnd \<longleftrightarrow> runningClosed (tr c)" "\<forall>v \<in> relClosed c. relAt c v \<le> length (received c)"
    using xinvD(2) [OF assms(1)] by (simp_all add: ginv_def)
  have due: "due c w \<le> pub c" if "bp c = BEnd \<or> bp c = BInner" using that g(2) by (auto simp: due_def pub_def)
  from xinvD(1) [OF assms] obtain k where k: "shown c k (wwritten th)" "at_pc c w (wdone th) k (wpc th)"
    "wdone th \<Longrightarrow> w \<notin> relClosed c \<Longrightarrow> w \<in> late c \<or> runningClosed (tr c)" "w \<in> late c \<Longrightarrow> wpc th = WEnd"
    unfolding winv_def by blast
  show "winv c w (th\<lparr>wpc := WSync, wdone := True\<rparr>)" if "wpc th = WSelect" "w \<in> relClosed c"
    by (rule winvI [of c k]) (use k that in auto)
  show "winv c w (th\<lparr>wpc := WRead, wdone := True\<rparr>)" if "wpc th \<in> {WSelect, WSync}" "runningClosed (tr c)"
    by (rule winvI [of c k]) (use k that due g in auto)
  show "winv c w (th\<lparr>wpc := WRead\<rparr>)" if "wpc th = WSync" "bp c = BInner"
    by (rule winvI [of c k]) (use k that due in auto)
qed


lemma frame_inv:
  assumes "xinv c" and "ginv c'" and "wst c' = wst c" and "prefix (received c) (received c')" and "pub c \<le> pub c'"
    and "relClosed c' = relClosed c" and "relAt c' = relAt c" and "late c' = late c"
    and "runningClosed (tr c) \<Longrightarrow> runningClosed (tr c') \<and> received c' = received c"
  shows "xinv c'"
  using assms winv_frame [of c _ _ c'] unfolding xinv_def by auto

lemma publish_inv:
  assumes inv: "xinv c" and b: "bp c = BGot (Some p)" and S: "S \<subseteq> parked c"
  shows "xinv (c\<lparr>bp := BTop, tr := broadcastSection (Some p) (tr c), wst := wakeSome S (wst c)\<rparr>)"
proof -
  let ?c = "c\<lparr>bp := BTop, tr := broadcastSection (Some p) (tr c)\<rparr>"
  note g = xinvD(2) [OF inv]
  have r: "received c \<noteq> []" "last (received c) = p" using g b by (simp_all add: ginv_def)
  have pub: "pub ?c = length (received c)" "pub c = length (received c) - 1" using b by (simp_all add: pub_def)
  have "lastProgress (tr ?c) = valueAt ?c (pub ?c)"
    using r unfolding pub(1) by (simp add: broadcastSection_def valueAt_def last_conv_nth)
  then have g': "ginv ?c" using g b by (auto simp: ginv_def broadcastSection_def)
  have frame: "winv ?c w th" if "winv c w th" for w th
    by (rule winv_frame [OF that]) (use pub in \<open>simp_all add: broadcastSection_def\<close>)
  have "winv ?c w (th\<lparr>wpc := WRead\<rparr>)" if w: "wst c w = Some th" "wpc th = WSelect" for w th
  proof -
    from frame [OF xinvD(1) [OF inv w(1)]] show ?thesis
    proof (cases rule: winvE)
      case (1 k)
      from xinvD(1) [OF inv w(1)] obtain j where j: "shown c j (wwritten th)" unfolding winv_def by blast
      then have sh: "shown ?c j (wwritten th)" "j < pub ?c"
        using r pub by (cases "received c"; simp add: shown_def)+
      show ?thesis by (rule winvI [of ?c j]) (use sh 1 w(2) in auto)
    qed
  qed
  then have "winv ?c w th'" if "wakeSome S (wst c) w = Some th'" for w th'
    using that S frame xinvD(1) [OF inv] by (auto simp: wakeSome_def parked_def split: option.splits if_splits)
  moreover have "dom (wakeSome S (wst c)) = dom (wst c)" by (auto simp: wakeSome_def split: option.splits)
  ultimately have "xinv (?c\<lparr>wst := wakeSome S (wst c)\<rparr>)" using g' inv unfolding xinv_def winv_wst by simp
  then show ?thesis by simp
qed

lemma release_inv:
  assumes inv: "xinv c" and w: "w \<notin> relClosed c"
  shows "xinv (c\<lparr>relClosed := insert w (relClosed c), relAt := (relAt c)(w := length (received c))\<rparr>)"
    (is "xinv ?c")
proof -
  note g = xinvD(2) [OF inv]
  have pub: "pub ?c = pub c" by (simp add: pub_def)
  have val: "valueAt ?c = valueAt c" by (simp add: valueAt_def fun_eq_iff)
  have "ginv ?c" using g unfolding ginv_def val pub by auto
  moreover have "winv ?c v th" if v: "wst c v = Some th" for v th
  proof (cases "v = w")
    case False
    show ?thesis by (rule winv_frame [OF xinvD(1) [OF inv v]]) (use False pub in simp_all)
  next
    case True
    from xinvD(1) [OF inv v] show ?thesis
    proof (cases rule: winvE)
      case (1 k)
      have due: "due ?c v = due c v" using True w by (simp add: due_def)
      have "at_pc ?c v (wdone th) k (wpc th)" by (rule at_pc_cong [OF 1(2) due pub val]) simp_all
      moreover have "shown ?c k (wwritten th)" using 1(1) unfolding shown_def pub by simp
      ultimately show ?thesis using 1 True by (intro winvI [of ?c k]) simp_all
    qed
  qed
  ultimately show ?thesis using inv by (simp add: xinv_def)
qed


lemma watch_inv:
  assumes inv: "xinv c" and w: "wst c w = None" and t: "transfer_Watch w (tr c) = (b, t)"
  shows "b \<Longrightarrow> xinv (c\<lparr>tr := t, wst := (wst c)(w \<mapsto> \<lparr>wpc = WEnd, wdone = True, wwritten = []\<rparr>), late := insert w (late c)\<rparr>)"
    and "\<not> b \<Longrightarrow> xinv (c\<lparr>tr := t, wst := (wst c)(w \<mapsto> \<lparr>wpc = WRead, wdone = False, wwritten = []\<rparr>)\<rparr>)"
proof -
  note g = xinvD(2) [OF inv]
  note s = Watch_sel [OF t]
  let ?c1 = "c\<lparr>tr := t, late := insert w (late c)\<rparr>" and ?c2 = "c\<lparr>tr := t\<rparr>"
  have pub: "pub ?c1 = pub c" "pub ?c2 = pub c" by (simp_all add: pub_def)
  have val: "valueAt ?c1 = valueAt c" "valueAt ?c2 = valueAt c" by (simp_all add: valueAt_def fun_eq_iff)
  have g12: "ginv ?c1" "ginv ?c2" using g unfolding ginv_def val pub by (auto simp: s)
  have old: "winv ?c1 v th" "winv ?c2 v th" if "wst c v = Some th" for v th
    using that w winv_frame [OF xinvD(1) [OF inv that], of ?c1] winv_frame [OF xinvD(1) [OF inv that], of ?c2] pub
    by (cases "v = w"; simp add: s)+
  have new1: "winv ?c1 w \<lparr>wpc = WEnd, wdone = True, wwritten = []\<rparr>"
    by (rule winvI [of _ 0]) (simp_all add: shown_def)
  have new2: "winv ?c2 w \<lparr>wpc = WRead, wdone = False, wwritten = []\<rparr>" if "w \<notin> late c"
    by (rule winvI [of _ 0]) (use that in \<open>simp_all add: shown_def\<close>)
  have "xinv (?c1\<lparr>wst := (wst c)(w \<mapsto> \<lparr>wpc = WEnd, wdone = True, wwritten = []\<rparr>)\<rparr>)"
    unfolding xinv_def winv_wst using g12 old new1 inv by (auto simp: xinv_def)
  then show "xinv (c\<lparr>tr := t, wst := (wst c)(w \<mapsto> \<lparr>wpc = WEnd, wdone = True, wwritten = []\<rparr>), late := insert w (late c)\<rparr>)"
    by (cases c) simp
  have "w \<notin> late c" using inv w by (auto simp: xinv_def)
  then have "xinv (?c2\<lparr>wst := (wst c)(w \<mapsto> \<lparr>wpc = WRead, wdone = False, wwritten = []\<rparr>)\<rparr>)"
    unfolding xinv_def winv_wst using g12 old new2 inv by (auto simp: xinv_def)
  then show "xinv (c\<lparr>tr := t, wst := (wst c)(w \<mapsto> \<lparr>wpc = WRead, wdone = False, wwritten = []\<rparr>)\<rparr>)"
    by simp
qed


lemma xstep_inv: "xstep c c' \<Longrightarrow> xinv c \<Longrightarrow> xinv c'"
proof (induction rule: xstep.induct)
  case (send c p)
  then show ?case by (intro frame_inv [OF send(2)]) (use xinvD(2) [OF send(2)] in \<open>auto simp: ginv_def pub_def valueAt_def\<close>)
next
  case (close_master c)
  then show ?case by (intro frame_inv [OF close_master(3)]) (use xinvD(2) [OF close_master(3)] in \<open>auto simp: ginv_def pub_def valueAt_def\<close>)
next
  case (b_take c p q)
  let ?c = "c\<lparr>sendq := q, bp := BGot (Some p), received := received c @ [p]\<rparr>"
  note g = xinvD(2) [OF b_take(3)]
  have pub: "pub ?c = pub c" using b_take(1) by (auto simp: pub_def)
  have "valueAt ?c (pub c) = valueAt c (pub c)" using b_take(1) by (auto simp: valueAt_def pub_def nth_append)
  then have "ginv ?c" using g b_take(1) unfolding ginv_def pub by auto
  then show ?case using g b_take(1) pub by (intro frame_inv [OF b_take(3)]) (auto simp: ginv_def)
next
  case (b_end c)
  then show ?case using xinvD(2) [OF b_end(4)] by (intro frame_inv [OF b_end(4)]) (auto simp: ginv_def pub_def valueAt_def)
next
  case (b_default c)
  then show ?case using xinvD(2) [OF b_default(4)] by (intro frame_inv [OF b_default(4)]) (auto simp: ginv_def pub_def valueAt_def)
next
  case (b_sync c w th)
  have one: "xinv (c\<lparr>wst := (wst c)(w \<mapsto> th\<lparr>wpc := WRead\<rparr>)\<rparr>)"
    by (rule upd_watcher [OF b_sync(4) w_step_inv(3) [OF b_sync(4,2,3,1)]])
  show ?case using xinvD(2) [OF b_sync(4)] b_sync(1)
    by (intro frame_inv [OF one]) (auto simp: ginv_def pub_def valueAt_def)
next
  case (b_publish c p S)
  then show ?case by (intro publish_inv)
next
  case (b_finish c)
  then show ?case using xinvD(2) [OF b_finish(2)]
    by (intro frame_inv [OF b_finish(2)]) (auto simp: ginv_def pub_def valueAt_def broadcastSection_def)
next
  case (b_close c)
  then show ?case using xinvD(2) [OF b_close(2)] by (intro frame_inv [OF b_close(2)]) (auto simp: ginv_def pub_def valueAt_def)
next
  case (watch c w t)
  then show ?case using watch_inv(1) by blast
next
  case (watch_go c w t)
  then show ?case using watch_inv(2) by blast
next
  case (release_lock c w)
  then show ?case using xinvD(2) [OF release_lock(3)] Release_flags [of "tr c" w]
    by (intro frame_inv [OF release_lock(3)]) (auto simp: ginv_def pub_def valueAt_def)
next
  case (release c w)
  then show ?case by (intro release_inv)
next
  case (close c t)
  have "tflags (tr c)" using xinvD(2) [OF close(4)] by (simp add: ginv_def)
  then obtain t' where "transfer_Close (tr c) = Some t'" "lastProgress t' = lastProgress (tr c)" "runningClosed t' = runningClosed (tr c)"
    "broadcastDone t' = broadcastDone (tr c)" "tflags t'" using Close_ok [OF _ close(2)] close(1) by metis
  with close show ?case using xinvD(2) [OF close(4)] by (intro frame_inv [OF close(4)]) (auto simp: ginv_def pub_def valueAt_def)
next
  case (w_read c w th)
  then show ?case by (intro upd_watcher w_read_inv)
next
  case (w_write c w th snap)
  then show ?case by (intro upd_watcher w_write_inv)
next
  case (w_release c w th)
  then show ?case by (intro upd_watcher w_step_inv(1))
next
  case (w_running c w th)
  then show ?case by (intro upd_watcher w_step_inv(2)) simp_all
next
  case (w_sync_running c w th)
  have "wdone th" using xinvD(1) [OF w_sync_running(4,1)] w_sync_running(2) by (auto simp: winv_def)
  then have "th\<lparr>wpc := WRead\<rparr> = th\<lparr>wpc := WRead, wdone := True\<rparr>" by simp
  then show ?case using w_step_inv(2) [OF w_sync_running(4,1)] w_sync_running by (intro upd_watcher) simp_all
qed


lemma xreach_inv: "xstep\<^sup>*\<^sup>* xinit c \<Longrightarrow> xinv c"
  by (induction rule: rtranclp_induct) (auto intro: xinit_inv xstep_inv)

section \<open>Releasing a watcher returns\<close>

text \<open>The environment stands still: nothing is sent, watched, released or closed.\<close>

definition still :: "'p xconf \<Rightarrow> 'p xconf \<Rightarrow> bool" where
  "still c c' \<longleftrightarrow>
     masterClosed c' = masterClosed c \<and> relClosed c' = relClosed c \<and> relAt c' = relAt c \<and> late c' = late c \<and> dom (wst c') = dom (wst c) \<and>
     received c' @ sendq c' = received c @ sendq c \<and> twatchers (tr c') = twatchers (tr c) \<and> tClosed (tr c') = tClosed (tr c)"

lemma still_refl [simp]: "still c c"
  by (simp add: still_def)

lemma still_trans: "still c c1 \<Longrightarrow> still c1 c2 \<Longrightarrow> still c c2"
  by (simp add: still_def)

lemma wakeSome_none [simp]: "wakeSome {} m = m"
  by (auto simp: wakeSome_def split: option.split)

definition canReach :: "'p xconf \<Rightarrow> ('p xconf \<Rightarrow> bool) \<Rightarrow> bool" where
  "canReach c P \<longleftrightarrow> (\<exists>c'. xstep\<^sup>*\<^sup>* c c' \<and> still c c' \<and> P c')"

lemma canReach_now: "P c \<Longrightarrow> canReach c P"
  unfolding canReach_def using still_refl by blast

lemma canReach_step:
  assumes "xstep c c1" and "still c c1" and "canReach c1 P"
  shows "canReach c P"
proof -
  obtain c' where "xstep\<^sup>*\<^sup>* c1 c'" "still c1 c'" "P c'" using assms(3) by (auto simp: canReach_def)
  then show ?thesis
    using assms(1,2) still_trans converse_rtranclp_into_rtranclp [of xstep c c1 c'] unfolding canReach_def by blast
qed

lemma canReach_then:
  assumes "canReach c P" and "\<And>c'. xstep\<^sup>*\<^sup>* c c' \<Longrightarrow> P c' \<Longrightarrow> canReach c' Q"
  shows "canReach c Q"
  using assms still_trans rtranclp_trans [of xstep c] unfolding canReach_def by meson

text \<open>The broadcaster can get to its inner \<open>select\<close> or end, whatever waits in the channel.\<close>

definition bready :: "(nat \<rightharpoonup> 'p wthread) \<Rightarrow> 'p xconf \<Rightarrow> bool" where
  "bready m c \<longleftrightarrow> wst c = m \<and> (bp c = BInner \<or> runningClosed (tr c))"

lemma broadcaster_closing: "bp c = BClosing \<Longrightarrow> canReach c (bready (wst c))"
  by (rule canReach_step [OF xstep.b_close]) (auto simp: still_def bready_def intro: canReach_now)

lemma broadcaster_end: "bp c = BGot None \<Longrightarrow> canReach c (bready (wst c))"
  by (rule canReach_step [OF xstep.b_finish])
    (use broadcaster_closing [of "c\<lparr>bp := BClosing, tr := broadcastSection None (tr c)\<rparr>"] in \<open>auto simp: still_def broadcastSection_def\<close>)

lemma publish_quietly:
  assumes "bp c = BGot (Some p)"
  obtains c' where "xstep c c'" "still c c'" "wst c' = wst c" "bp c' = BTop" "sendq c' = sendq c"
  using that [of "c\<lparr>bp := BTop, tr := broadcastSection (Some p) (tr c), wst := wakeSome {} (wst c)\<rparr>"]
    xstep.b_publish [OF assms, of "{}"]
  by (simp add: still_def broadcastSection_def)

lemma broadcaster_top: "bp c = BTop \<Longrightarrow> canReach c (bready (wst c))"
proof (induction "sendq c" arbitrary: c)
  case Nil
  show ?case
  proof (cases "masterClosed c")
    case True
    show ?thesis
      by (rule canReach_step [OF xstep.b_end])
        (use Nil True broadcaster_end [of "c\<lparr>bp := BGot None\<rparr>"] in \<open>auto simp: still_def\<close>)
  next
    case False
    show ?thesis
      by (rule canReach_step [OF xstep.b_default])
        (use Nil False in \<open>auto simp: still_def bready_def intro: canReach_now\<close>)
  qed
next
  case (Cons p q)
  define c1 where "c1 = c\<lparr>sendq := q, bp := BGot (Some p), received := received c @ [p]\<rparr>"
  have one: "xstep c c1" "still c c1" "wst c1 = wst c" "bp c1 = BGot (Some p)" "sendq c1 = q"
    using Cons.prems Cons.hyps(2) [symmetric] xstep.b_take [of c p q] by (simp_all add: c1_def still_def)
  from publish_quietly [OF one(4)] obtain c2 where two: "xstep c1 c2" "still c1 c2" "wst c2 = wst c1" "bp c2 = BTop" "sendq c2 = sendq c1" .
  have "canReach c2 (bready (wst c2))" by (rule Cons.hyps(1)) (simp_all add: two one(5))
  then have "canReach c2 (bready (wst c))" by (simp add: two(3) one(3))
  then have "canReach c1 (bready (wst c))" by (rule canReach_step [OF two(1,2)])
  then show ?case by (rule canReach_step [OF one(1,2)])
qed

lemma broadcaster_ready:
  assumes "xinv c"
  shows "canReach c (bready (wst c))"
proof (cases "bp c")
  case BEnd
  then have "runningClosed (tr c)" using xinvD(2) [OF assms] by (simp add: ginv_def)
  then show ?thesis by (intro canReach_now) (simp add: bready_def)
next
  case (BGot msg)
  show ?thesis
  proof (cases msg)
    case None
    with BGot broadcaster_end show ?thesis by blast
  next
    case (Some p)
    with BGot obtain c2 where two: "xstep c c2" "still c c2" "wst c2 = wst c" "bp c2 = BTop" using publish_quietly by metis
    from broadcaster_top [OF two(4)] show ?thesis unfolding two(3) by (rule canReach_step [OF two(1,2)])
  qed
qed (auto intro: broadcaster_top broadcaster_closing canReach_now simp: bready_def)


definition ended :: "nat \<Rightarrow> 'p xconf \<Rightarrow> bool" where
  "ended w c \<longleftrightarrow> (\<exists>th. wst c w = Some th \<and> wpc th = WEnd)"

lemma still_upd: "wst c w = Some th \<Longrightarrow> still c (c\<lparr>wst := (wst c)(w \<mapsto> th')\<rparr>)"
  by (auto simp: still_def)

lemma afterWrite_sel: "wpc (afterWrite th snap) = (if wdone th then WEnd else WSelect)"
  by (simp add: afterWrite_def Let_def)

lemma ends_from_write:
  assumes "wst c w = Some th" and "wpc th = WWrite snap" and "wdone th"
  shows "canReach c (ended w)"
  by (rule canReach_step [OF xstep.w_write [OF assms(1,2)] still_upd [OF assms(1)]])
    (rule canReach_now, simp add: ended_def afterWrite_sel assms(3))

lemma ends_from_read:
  assumes "wst c w = Some th" and "wpc th = WRead" and "wdone th"
  shows "canReach c (ended w)"
proof (rule canReach_step [OF xstep.w_read [OF assms(1,2)] still_upd [OF assms(1)]])
  show "canReach (c\<lparr>wst := (wst c)(w \<mapsto> th\<lparr>wpc := WWrite (lastProgress (tr c))\<rparr>)\<rparr>) (ended w)"
    by (rule ends_from_write [of _ w "th\<lparr>wpc := WWrite (lastProgress (tr c))\<rparr>"]) (simp_all add: assms(3))
qed

lemma ends_from_sync:
  assumes "xinv c" and w: "wst c w = Some th" "wpc th = WSync"
  shows "canReach c (ended w)"
proof (rule canReach_then [OF broadcaster_ready [OF assms(1)]])
  fix c' assume "bready (wst c) c'"
  then have w': "wst c' w = Some th" and b: "bp c' = BInner \<or> runningClosed (tr c')" using w by (simp_all add: bready_def)
  have d: "wdone th" using xinvD(1) [OF assms(1) w(1)] w(2) by (auto simp: winv_def)
  show "canReach c' (ended w)"
  proof (cases "bp c' = BInner")
    case True
    show ?thesis
      by (rule canReach_step [OF xstep.b_sync [OF True w' w(2)]])
        (use w' d in \<open>auto simp: still_def intro: ends_from_read [of _ w "th\<lparr>wpc := WRead\<rparr>"]\<close>)
  next
    case False
    with b have "runningClosed (tr c')" by simp
    then show ?thesis
      by (rule canReach_step [OF xstep.w_sync_running [OF w' w(2)] still_upd [OF w']])
        (use d in \<open>auto intro: ends_from_read [of _ w "th\<lparr>wpc := WRead\<rparr>"]\<close>)
  qed
qed

lemma ends_from_select:
  assumes inv: "xinv c" and w: "wst c w = Some th" "wpc th = WSelect" and "w \<in> relClosed c"
  shows "canReach c (ended w)"
proof -
  let ?c = "c\<lparr>wst := (wst c)(w \<mapsto> th\<lparr>wpc := WSync, wdone := True\<rparr>)\<rparr>"
  note s = xstep.w_release [OF w assms(4)]
  have "canReach ?c (ended w)" by (rule ends_from_sync [OF xstep_inv [OF s inv], of w "th\<lparr>wpc := WSync, wdone := True\<rparr>"]) simp_all
  then show ?thesis by (rule canReach_step [OF s still_upd [OF w(1)]])
qed

lemma released_ends:
  assumes inv: "xinv c" and w: "wst c w = Some th" "w \<in> relClosed c"
  shows "canReach c (ended w)"
proof -
  have fromWrite: "canReach d (ended w)"
    if d: "xinv d" "wst d w = Some th'" "wpc th' = WWrite snap" "w \<in> relClosed d" for d th' snap
  proof (cases "wdone th'")
    case False
    let ?d = "d\<lparr>wst := (wst d)(w \<mapsto> afterWrite th' snap)\<rparr>"
    note s = xstep.w_write [OF d(2,3)]
    have "canReach ?d (ended w)"
      by (rule ends_from_select [OF xstep_inv [OF s d(1)], of w "afterWrite th' snap"]) (simp_all add: afterWrite_sel False d(4))
    then show ?thesis by (rule canReach_step [OF s still_upd [OF d(2)]])
  qed (rule ends_from_write [OF d(2,3)])
  show ?thesis
  proof (cases "wpc th")
    case WRead
    let ?c = "c\<lparr>wst := (wst c)(w \<mapsto> th\<lparr>wpc := WWrite (lastProgress (tr c))\<rparr>)\<rparr>"
    note s = xstep.w_read [OF w(1) WRead]
    have "canReach ?c (ended w)" 
      by (rule fromWrite [OF xstep_inv [OF s inv], of "th\<lparr>wpc := WWrite (lastProgress (tr c))\<rparr>" "lastProgress (tr c)"])
        (simp_all add: w(2))
    then show ?thesis by (rule canReach_step [OF s still_upd [OF w(1)]])
  next
    case (WWrite snap)
    then show ?thesis by (rule fromWrite [OF inv w(1) _ w(2)])
  next
    case WSelect
    then show ?thesis by (rule ends_from_select [OF inv w(1) _ w(2)])
  next
    case WSync
    then show ?thesis by (rule ends_from_sync [OF inv w(1)])
  next
    case WEnd
    with w(1) show ?thesis by (intro canReach_now) (simp add: ended_def)
  qed
qed

section \<open>Properties\<close>

text \<open>
  C11: A watcher misses nothing it is due.  Over every interleaving of the goroutines, what a
  watcher writes is a subsequence of the progress the broadcaster received, in order.  When
  its goroutine ends, the last item it wrote is the last of all or, if it was released, one
  at least as late as the last received before the release; it wrote none only if none was
  due.  Watchers that come after the end of the broadcast are excepted: they get nothing.
\<close>

theorem watcher_misses_nothing:
  assumes "xstep\<^sup>*\<^sup>* xinit c" and "wst c w = Some th" and "wpc th = WEnd" and "w \<notin> late c"
  shows "subseq (wwritten th) (received c) \<and>
    (\<exists>k. due c w \<le> k \<and> k \<le> length (received c) \<and>
       (if k = 0 then wwritten th = [] else wwritten th \<noteq> [] \<and> last (wwritten th) = received c ! (k - 1)))"
proof -
  from xinvD(1) [OF xreach_inv [OF assms(1)] assms(2)] obtain k
    where k: "shown c k (wwritten th)" "at_pc c w (wdone th) k (wpc th)" unfolding winv_def by blast
  have "subseq (wwritten th) (received c)"
    using k(1) subseq_order.trans prefix_imp_subseq [OF take_is_prefix] unfolding shown_def by blast
  moreover have "due c w \<le> k" using k(2) assms(3,4) by simp
  moreover have "k \<le> length (received c)" using k(1) le_trans [OF _ pub_le] by (auto simp: shown_def)
  moreover have "if k = 0 then wwritten th = [] else wwritten th \<noteq> [] \<and> last (wwritten th) = received c ! (k - 1)"
    using k(1) by (auto simp: shown_def)
  ultimately show ?thesis by blast
qed

text \<open>
  C26: \<open>Release\<close> does not hang and \<open>Close\<close> does not panic.  In every reachable configuration
  the goroutine of a released watcher can still end, by steps of the watcher and the
  broadcaster alone, so the wait at the end of \<open>Release\<close> can be left; closing a finished
  transfer for the first time does not close \<open>released\<close> twice; and \<open>released\<close> is closed as soon
  as the transfer is closed and no watcher is left.
\<close>

theorem release_returns:
  assumes "xstep\<^sup>*\<^sup>* xinit c"
  shows "{w \<in> relClosed c. wst c w \<noteq> None \<and> \<not> canReach c (ended w)} = {} \<and>
    (tClosed (tr c) \<or> transfer_Close (tr c) \<noteq> None) \<and>
    (releasedClosed (tr c) \<or> \<not> tClosed (tr c) \<or> twatchers (tr c) \<noteq> {||})"
proof -
  have inv: "xinv c" by (rule xreach_inv [OF assms])
  have fl: "tflags (tr c)" using xinvD(2) [OF inv] by (simp add: ginv_def)
  have "transfer_Close (tr c) \<noteq> None" if "\<not> tClosed (tr c)" using Close_ok [OF fl that] by blast
  moreover have "{w \<in> relClosed c. wst c w \<noteq> None \<and> \<not> canReach c (ended w)} = {}"
    using released_ends [OF inv] by blast
  ultimately show ?thesis using fl by (auto simp: tflags_def)
qed


text \<open>A run: one watcher, one item of progress, taken but not yet published when the watcher is released.\<close>

lemma demo_run:
  obtains c where "xstep\<^sup>*\<^sup>* xinit c" "wst c 0 \<noteq> None" "relClosed c = {0}" "relAt c 0 = 1" "received c = [7 :: nat]" "sendq c = []" "late c = {}"
proof -
  let ?th = "\<lparr>wpc = WRead, wdone = False, wwritten = []\<rparr>"
  define c1 where "c1 = (xinit :: nat xconf)\<lparr>tr := NewTransfer\<lparr>twatchers := {|0|}\<rparr>, wst := [0 \<mapsto> ?th]\<rparr>"
  define c2 where "c2 = c1\<lparr>sendq := [7]\<rparr>"
  define c3 where "c3 = c2\<lparr>sendq := [], bp := BGot (Some 7), received := [7]\<rparr>"
  define c4 where "c4 = c3\<lparr>tr := transfer_Release 0 (tr c3), relLocked := {0}\<rparr>"
  define c5 where "c5 = c4\<lparr>relClosed := {0}, relAt := (relAt c4)(0 := 1)\<rparr>"
  have "xstep xinit c1"
    using xstep.watch_go [of xinit 0 "NewTransfer\<lparr>twatchers := {|0|}\<rparr>"]
    by (simp add: c1_def xinit_def transfer_Watch_def NewTransfer_def)
  moreover have "xstep c1 c2" using xstep.send [of c1 7] by (simp add: c2_def c1_def xinit_def)
  moreover have "xstep c2 c3" using xstep.b_take [of c2 7 "[]"] by (simp add: c3_def c2_def c1_def xinit_def)
  moreover have "xstep c3 c4" using xstep.release_lock [of c3 0] by (simp add: c4_def c3_def c2_def c1_def xinit_def)
  moreover have "xstep c4 c5" using xstep.release [of 0 c4] by (simp add: c5_def c4_def c3_def c2_def c1_def xinit_def)
  ultimately have "xstep\<^sup>*\<^sup>* xinit c5" by (meson rtranclp.rtrancl_into_rtrancl rtranclp.rtrancl_refl)
  then show thesis by (rule that) (simp_all add: c5_def c4_def c3_def c2_def c1_def xinit_def)
qed

theorem watcher_misses_nothing_witness:
  "\<exists>c th. xstep\<^sup>*\<^sup>* (xinit :: nat xconf) c \<and> wst c 0 = Some th \<and> wpc th = WEnd \<and> wwritten th = [7]"
proof -
  obtain c where c: "xstep\<^sup>*\<^sup>* xinit c" "wst c 0 \<noteq> None" "relClosed c = {0}" "relAt c 0 = 1" "received c = [7 :: nat]" "sendq c = []" "late c = {}"
    by (rule demo_run)
  then obtain c' where c': "xstep\<^sup>*\<^sup>* c c'" "still c c'" "ended 0 c'"
    using released_ends [OF xreach_inv [OF c(1)], of 0] by (auto simp: canReach_def)
  then obtain th where th: "wst c' 0 = Some th" "wpc th = WEnd" by (auto simp: ended_def)
  have run: "xstep\<^sup>*\<^sup>* xinit c'" using c(1) c'(1) by (rule rtranclp_trans)
  have late: "0 \<notin> late c'" and due: "due c' 0 = 1" and pre: "received c' @ sendq c' = [7]"
    using c'(2) c by (simp_all add: still_def due_def)
  from watcher_misses_nothing [OF run th late] due obtain k where k: "subseq (wwritten th) (received c')" "1 \<le> k" "k \<le> length (received c')"
    "wwritten th \<noteq> []" by (auto split: if_splits)
  then have "received c' = [7]" using pre by (cases "received c'") auto
  with k have "wwritten th = [7]" by (cases "wwritten th") (auto split: if_splits dest: list_emb_length)
  with run th show ?thesis by blast
qed

theorem release_returns_witness:
  "\<exists>c. xstep\<^sup>*\<^sup>* (xinit :: nat xconf) c \<and> 0 \<in> relClosed c \<and> wst c 0 \<noteq> None \<and> canReach c (ended 0)"
proof -
  obtain c where c: "xstep\<^sup>*\<^sup>* xinit c" "wst c 0 \<noteq> None" "relClosed c = {0}" "received c = [7 :: nat]" by (rule demo_run)
  from release_returns [OF c(1)] c(2,3) have "canReach c (ended 0)" by auto
  with c show ?thesis by blast
qed

end
