(* ===== verification/Spec2Isabelle.thy ===== *)
theory Spec2Isabelle
  imports Daemon_Names Image_Properties Locker Container_Lifecycle Container_Store Stdcopy Bytes_Pipe Dockerfile_Parser Volume_Store Image_Delete Xfer_Transfer
begin

text \<open>
  A verification library for the Docker engine, the Go code under \<^verbatim>\<open>src/\<close>.

  \<^bold>\<open>The program.\<close>  The daemon (\<^verbatim>\<open>src/daemon\<close>) keeps containers (\<^verbatim>\<open>src/container\<close>) and runs them through
  containerd (\<^verbatim>\<open>src/libcontainerd\<close>).  A container is made from an image (\<^verbatim>\<open>src/image\<close>), an image from a stack of
  read-only layers (\<^verbatim>\<open>src/layer\<close>), and images are named by references (\<^verbatim>\<open>src/reference\<close>).  The builder
  (\<^verbatim>\<open>src/builder\<close>) turns a Dockerfile into images.  Volumes (\<^verbatim>\<open>src/volume\<close>) outlive the containers that use
  them, and layers come and go by transfers (\<^verbatim>\<open>src/distribution/xfer\<close>).  The packages under \<^verbatim>\<open>src/pkg\<close> serve all of them: name
  reservation, named locks, pipes and multiplexed streams.

  \<^bold>\<open>Conventions.\<close>  A Go method \<open>T.M\<close> is the function \<open>T_M\<close>; a struct is a record, an enumeration a
  datatype, a map a map or a finite map, a pointer a location of an explicit store where sharing matters.  Errors
  are values of a sum or option type, and every panic of the code is a value of its own, so that its absence is a
  theorem.  A loop that the code does not bound is a \<open>partial_function\<close> into \<open>option\<close> or takes fuel, and the
  theorems show that it returns.  Calls of drivers, files and the runtime are arguments of the operations, and any
  result they may return is covered.  Threads are step relations whose steps are the stretches between two
  operations on a lock, a channel or a condition variable, and an invariant holds in every reachable configuration.

  \<^bold>\<open>Theories.\<close>

  \<^item> \<^theory_text>\<open>Docker_Prelude\<close>: shared lemmas on maps of slices, positions in lists and prefixes, the short form of an id,
  and the collections of rules the components use.

  \<^item> \<^theory_text>\<open>Registrar\<close> models \<^verbatim>\<open>src/pkg/registrar\<close>, and \<^theory_text>\<open>Daemon_Names\<close> the names and links of containers in
  \<^verbatim>\<open>src/daemon/names.go\<close> and \<^verbatim>\<open>src/daemon/links.go\<close> on top of it.  After any history of calls the two maps of the
  registrar agree, a name belongs to one key, and a generated name was free.

  \<^item> \<^theory_text>\<open>Layer_Store\<close> models \<^verbatim>\<open>src/layer/layer_store.go\<close> with its layers, mounts and references;
  \<^theory_text>\<open>Layer_Refcount\<close> has the invariant of the counts and the release loop, \<^theory_text>\<open>Layer_Safety\<close> the critical
  sections of concurrent calls, \<^theory_text>\<open>Layer_Properties\<close> the theorems: counts are exact in every configuration, a
  layer in use is never removed, the panics of the release are unreachable, and each operation is a sequence of
  critical sections.

  \<^item> \<^theory_text>\<open>Regexp\<close> decides regular expressions by derivatives; \<^theory_text>\<open>Image_Reference\<close> models
  \<^verbatim>\<open>src/reference/reference.go\<close> on the grammar of the vendored distribution library, and shows when printing and parsing
  are inverse; \<^theory_text>\<open>Reference_Store\<close> models the tag store \<^verbatim>\<open>src/reference/store.go\<close>, which refines a map from references
  to images and survives a restart.

  \<^item> \<^theory_text>\<open>Image_Store\<close> models \<^verbatim>\<open>src/image/store.go\<close> and \<^verbatim>\<open>src/image/fs.go\<close>; \<^theory_text>\<open>Image_Invariant\<close> has the tree of
  images; \<^theory_text>\<open>Image_Properties\<close> joins it with the layer store through the locale \<open>layer_releaser\<close>, which is
  interpreted on the layer store: known images keep their layers, parents and children agree, and a restart
  rebuilds the store.

  \<^item> \<^theory_text>\<open>Digest_Set\<close> models the vendored set of digests in which the image store looks up short ids: the bisection on
  the sorted slice finds the one id that a term abbreviates.  \<^theory_text>\<open>Image_Delete\<close> models \<^verbatim>\<open>src/daemon/image_delete.go\<close> on the
  image, tag, layer and container stores: the deletion returns, spares what is in use, and removes what is not.

  \<^item> \<^theory_text>\<open>Volume_Local\<close> models the local driver \<^verbatim>\<open>src/volume/local\<close> and \<^theory_text>\<open>Volume_Store\<close> the store \<^verbatim>\<open>src/volume/store\<close>, with
  locales for what it relies on of its drivers, interpreted on the local driver: a volume with a reference stays
  known and present, but one that a failed removal left half removed is handed out again.

  \<^item> \<^theory_text>\<open>Locker\<close> models the named locks of \<^verbatim>\<open>src/pkg/locker\<close>: mutual exclusion over the deletion and
  re-creation of a lock, and that a waiting call can always still get it.

  \<^item> \<^theory_text>\<open>Container_State\<close>, \<^theory_text>\<open>Restart_Manager\<close>, \<^theory_text>\<open>Health_Check\<close> and \<^theory_text>\<open>Container_Lifecycle\<close> model the state of a container
  (\<^verbatim>\<open>src/container/state.go\<close>), the restart policy (\<^verbatim>\<open>src/restartmanager\<close>), the health monitor
  (\<^verbatim>\<open>src/daemon/health.go\<close>), and their interplay with start, pause, kill and the events of the runtime
  (\<^verbatim>\<open>src/daemon/monitor.go\<close>, \<^verbatim>\<open>src/libcontainerd/container_linux.go\<close>): the state stays well typed, and it agrees with
  the runtime when all events are handled.  \<^theory_text>\<open>Container_Store\<close> is \<^verbatim>\<open>src/container/memory_store.go\<close>.

  \<^item> \<^theory_text>\<open>Stdcopy\<close> models \<^verbatim>\<open>src/pkg/stdcopy\<close>: \<open>StdCopy\<close> returns, equals a demultiplexer of the whole stream however
  reads split it, and inverts the frame writer.  \<^theory_text>\<open>Bytes_Pipe\<close> models \<^verbatim>\<open>src/pkg/ioutils/bytespipe.go\<close>: over all
  interleavings it is a bounded queue, and a wake-up can be lost.

  \<^item> \<^theory_text>\<open>Xfer_Transfer\<close> models the type \<open>transfer\<close> of \<^verbatim>\<open>src/distribution/xfer/transfer.go\<close>: over all interleavings of
  the broadcaster, the watchers and their callers a watcher misses no progress it is due, and releasing it returns.

  \<^item> \<^theory_text>\<open>Shell_Words\<close> models \<^verbatim>\<open>src/builder/dockerfile/shell_parser.go\<close>, with a grammar of words whose meaning it computes;
  \<^theory_text>\<open>Dockerfile_Parser\<close> models \<^verbatim>\<open>src/builder/dockerfile/parser\<close> and the step from a node to the arguments of an
  instruction in \<^verbatim>\<open>src/builder/dockerfile/evaluator.go\<close>.

  \<^bold>\<open>Bounds and fuel.\<close>  \<open>processStopOn\<close> and the functions it calls take fuel; \<open>2 * length word + 2\<close> is
  enough, for each call consumes a character or is followed by one that does, and more fuel changes nothing
  (\<open>shell_returns\<close>).  The waiter count of a lock is a 32-bit word, and the configurations of \<open>Locker\<close> are bounded
  by it.  The restart back-off and the frame length are 64- and 32-bit words, and the theorems say where they wrap.
  The scanner of \<open>Parse\<close> has the limit of 64 KiB of the standard library.

  \<^bold>\<open>Not modelled.\<close>  The HTTP API and its clients (\<^verbatim>\<open>src/api\<close>, \<^verbatim>\<open>src/cli\<close>, \<^verbatim>\<open>src/cmd\<close>) translate between JSON
  and calls of the daemon.  Graph drivers, the proxies of volume plugins, archives and mounts (\<^verbatim>\<open>src/daemon/graphdriver\<close>,
  \<^verbatim>\<open>src/volume/drivers/proxy.go\<close>, \<^verbatim>\<open>src/pkg/archive\<close>) act on the file system, networking on the vendored libnetwork, the log drivers on
  remote services.  The cluster part (\<^verbatim>\<open>src/daemon/cluster\<close>) converts types of the vendored swarmkit.  Pulling and pushing
  (\<^verbatim>\<open>src/distribution\<close>, \<^verbatim>\<open>src/registry\<close>) and plugins talk to registries; the manager that starts transfers in turn is left
  out with them.  Of the builder the instructions themselves are
  left out, of the daemon stop, remove, rename, commit, exports and statistics.
\<close>

end
